(* ===== verification/Aesd_Prelude.thy ===== *)
theory Aesd_Prelude imports Main "HOL-Library.Word" begin

text \<open>
  What every component of the development shares: the machine types of the C sources, the
  faults a C statement can end in (as values, so that undefined behaviour is a branch of
  the model and not an unspecified term), the sequencing of statements that may fault, and
  generic lemmas on lists: the last \<open>n\<close> elements of a list, and the search for the
  element of a list of blocks that holds a given offset.
\<close>

section \<open>Machine types\<close>

type_synonym byte = char
type_synonym uint8_t = "8 word"
type_synonym uint32_t = "32 word"
type_synonym size_t = "64 word"
type_synonym ssize_t = "64 word" \<comment> \<open>two's complement, read with \<open>sint\<close>\<close>
type_synonym loff_t = "64 word"  \<comment> \<open>two's complement, read with \<open>sint\<close>\<close>
type_synonym ptr = nat           \<comment> \<open>the address of an allocated block\<close>
type_synonym tid = nat           \<comment> \<open>a task or thread\<close>

text \<open>The C \<open>int\<close> is a HOL \<open>int\<close>; what exceeds this bound overflowed.\<close>

abbreviation (input) INT_MAX :: int where "INT_MAX \<equiv> 2147483647"
abbreviation (input) INT_MIN :: int where "INT_MIN \<equiv> - 2147483648"

abbreviation (input) NULL :: ptr where "NULL \<equiv> 0"
abbreviation newline :: byte where "newline \<equiv> CHR 0x0A"

text \<open>The error numbers of the kernel headers that the driver returns, negated.\<close>

abbreviation ENOMEM :: "64 word" where "ENOMEM \<equiv> 12"
abbreviation EFAULT :: "64 word" where "EFAULT \<equiv> 14"
abbreviation ENODEV :: "64 word" where "ENODEV \<equiv> 19"
abbreviation EINVAL :: "64 word" where "EINVAL \<equiv> 22"
abbreviation ENOTTY :: "64 word" where "ENOTTY \<equiv> 25"
abbreviation ERESTARTSYS :: "64 word" where "ERESTARTSYS \<equiv> 512"

section \<open>Statements that may fault\<close>

text \<open>
  \<open>Dead_Block\<close> is an access through a pointer to no live block: a freed one, or one that never
  was allocated. \<open>Would_Block\<close> is not undefined behaviour: the caller sleeps on a mutex another task
  holds, so the call does not return from this state. \<open>Int_Overflow\<close> is the overflow of a signed \<open>int\<close>,
  \<open>Bad_Conversion\<close> the use of \<open>scanf\<close> on a number its object cannot hold.
\<close>

datatype fault =
    Null_Deref
  | Out_Of_Bounds
  | Dead_Block
  | Bad_Free
  | Bad_Unlock
  | Would_Block
  | Int_Overflow
  | Bad_Conversion

type_synonym 'a outcome = "fault + 'a"

definition bindR :: "'e + 'a \<Rightarrow> ('a \<Rightarrow> 'e + 'b) \<Rightarrow> 'e + 'b" where
  "bindR m f = (case m of Inl e \<Rightarrow> Inl e | Inr x \<Rightarrow> f x)"

lemma bindR_simps [simp]:
  "bindR (Inl e) f = Inl e"
  "bindR (Inr x) f = f x"
  by (simp_all add: bindR_def)

lemma bindR_Inr_iff: "bindR m f = Inr y \<longleftrightarrow> (\<exists>x. m = Inr x \<and> f x = Inr y)"
  by (cases m) auto

text \<open>What a function that may call \<open>exit\<close> does: go on with a value, or end the process.\<close>

datatype 'a proc = Continues 'a | Exits int

text \<open>What has become of a process: it waits for its next event, has left through \<open>exit\<close>, or died of a signal.\<close>

datatype fate = Waits | Exited int | Killed

section \<open>Collections of facts\<close>

named_theorems ring_simps \<open>equations of the circular buffer\<close>
named_theorems heap_simps \<open>equations of the kernel heap\<close>
named_theorems drv_simps \<open>equations of the driver's operations\<close>

section \<open>Files\<close>

text \<open>Bytes written from the start of a file, over what is there.\<close>

definition put_front :: "byte list \<Rightarrow> byte list \<Rightarrow> byte list" where
  "put_front bs old = bs @ drop (length bs) old"

lemma put_front_Nil [simp]: "put_front bs [] = bs" "put_front [] old = old"
  by (simp_all add: put_front_def)

section \<open>The last elements of a list\<close>

definition last_n :: "nat \<Rightarrow> 'a list \<Rightarrow> 'a list" where
  "last_n n xs = drop (length xs - n) xs"

lemma length_last_n [simp]: "length (last_n n xs) = min n (length xs)"
  by (simp add: last_n_def)

lemma last_n_id [simp]: "length xs \<le> n \<Longrightarrow> last_n n xs = xs"
  by (simp add: last_n_def)

lemma set_last_n: "set (last_n n xs) \<subseteq> set xs"
  by (simp add: last_n_def set_drop_subset)

lemma map_last_n: "map f (last_n n xs) = last_n n (map f xs)"
  by (simp add: last_n_def drop_map)

lemma distinct_last_n [simp]: "distinct xs \<Longrightarrow> distinct (last_n n xs)"
  by (simp add: last_n_def)

lemma last_n_snoc_full: "length xs = Suc n \<Longrightarrow> last_n (Suc n) (xs @ [x]) = tl xs @ [x]"
  by (cases xs) (simp_all add: last_n_def)

text \<open>Keeping the last \<open>n\<close> after each step is keeping the last \<open>n\<close> at the end.\<close>

lemma last_n_append_last_n: "last_n n (last_n n xs @ ys) = last_n n (xs @ ys)"
proof (cases "length xs \<le> n")
  case False
  then show ?thesis
    by (auto simp: last_n_def add.commute)
qed simp

lemma list_all_if_length_filter: "length (filter P xs) = length xs \<Longrightarrow> list_all P xs"
proof (unfold list_all_iff, rule ballI, rule ccontr)
  fix x assume "length (filter P xs) = length xs" and "x \<in> set xs" and "\<not> P x"
  with length_filter_less [of x xs P] show False by simp
qed

lemma sum_list_take_drop:
  "sum_list (take k xs) + sum_list (drop k xs) = sum_list (xs :: nat list)"
  using sum_list_append [of "take k xs" "drop k xs"] by simp

lemma sum_list_rotate: "sum_list (rotate n xs) = sum_list (xs :: nat list)"
  using sum_list_take_drop [of "n mod length xs" xs] by (simp add: rotate_drop_take)

lemma sum_list_last_n_le:
  fixes f :: "'a \<Rightarrow> nat"
  shows "sum_list (map f (last_n n xs)) \<le> sum_list (map f xs)"
  using sum_list_take_drop [of "length xs - n" "map f xs"]
  unfolding last_n_def drop_map by linarith

section \<open>Finding the block that holds an offset\<close>

text \<open>
  Blocks laid end to end, each of \<open>sz x\<close> bytes: the block that holds byte \<open>off\<close> of
  the whole, and where in the block it is. The reference for the driver's search.
\<close>

fun locate :: "('a \<Rightarrow> nat) \<Rightarrow> 'a list \<Rightarrow> nat \<Rightarrow> ('a \<times> nat) option" where
  "locate sz [] off = None"
| "locate sz (x # xs) off = (if off < sz x then Some (x, off) else locate sz xs (off - sz x))"

lemma locate_filter: "locate sz (filter (\<lambda>x. sz x \<noteq> 0) xs) off = locate sz xs off"
  by (induction xs arbitrary: off) auto

lemma locate_None_iff: "locate sz xs off = None \<longleftrightarrow> sum_list (map sz xs) \<le> off"
proof (induction xs arbitrary: off)
  case (Cons x xs)
  show ?case
    by (cases "off < sz x") (simp_all add: Cons.IH le_diff_conv2 add.commute)
qed simp

lemma locate_SomeD:
  "locate sz xs off = Some (x, k) \<Longrightarrow>
    \<exists>ys zs. xs = ys @ x # zs \<and> off = sum_list (map sz ys) + k \<and> k < sz x"
proof (induction xs arbitrary: off)
  case Nil
  then show ?case by simp
next
  case (Cons y xs)
  show ?case
  proof (cases "off < sz y")
    case True
    with Cons.prems show ?thesis
      by (intro exI [of _ "[]"] exI [of _ xs]) auto
  next
    case False
    with Cons.prems have "locate sz xs (off - sz y) = Some (x, k)" by simp
    then obtain ys zs where "xs = ys @ x # zs" "off - sz y = sum_list (map sz ys) + k" "k < sz x"
      using Cons.IH by blast
    with False show ?thesis
      by (intro exI [of _ "y # ys"] exI [of _ zs]) auto
  qed
qed

lemma locate_append:
  "k < sz x \<Longrightarrow> locate sz (ys @ x # zs) (sum_list (map sz ys) + k) = Some (x, k)"
  by (induction ys) auto

lemma locate_map: "locate sz (map f xs) off = map_option (apfst f) (locate (sz \<circ> f) xs off)"
  by (induction xs arbitrary: off) auto

lemma locate_cong:
  "(\<And>x. x \<in> set xs \<Longrightarrow> sz x = sz' x) \<Longrightarrow> locate sz xs off = locate sz' xs off"
  by (induction xs arbitrary: off) auto

text \<open>What is left of the bytes from an offset on, when the blocks are lists of bytes.\<close>

lemma locate_drop_concat:
  assumes "locate length xss off = Some (xs, k)"
  shows "\<exists>zss. drop off (concat xss) = drop k xs @ concat zss \<and> k < length xs"
proof -
  from locate_SomeD [OF assms] obtain yss zss where
    x: "xss = yss @ xs # zss" and o: "off = sum_list (map length yss) + k" and k: "k < length xs"
    by blast
  have "off = length (concat yss) + k"
    by (simp add: o length_concat)
  then have "drop off (concat xss) = drop k xs @ concat zss"
    using k by (simp add: x)
  with k show ?thesis by blast
qed

section \<open>Descriptor tables\<close>

text \<open>A new descriptor is the lowest free one.\<close>

fun first_free :: "'a option list \<Rightarrow> nat option" where
  "first_free [] = None"
| "first_free (None # xs) = Some 0"
| "first_free (Some x # xs) = map_option Suc (first_free xs)"

lemma first_free_None: "first_free xs = None \<longleftrightarrow> length (filter (\<lambda>f. f = None) xs) = 0"
  by (induction xs rule: first_free.induct) auto

lemma first_free_Some:
  "first_free xs = Some i \<Longrightarrow> i < length xs \<and> xs ! i = None"
  by (induction xs arbitrary: i rule: first_free.induct) (auto split: option.splits)

lemma free_update:
  assumes "i < length xs"
  shows "length (filter (\<lambda>f. f = None) (xs[i := v])) + (if xs ! i = None then 1 else 0) =
    length (filter (\<lambda>f. f = None) xs) + (if v = None then 1 else 0)"
proof -
  have "filter (\<lambda>f. f = None) xs =
      filter (\<lambda>f. f = None) (take i xs) @ filter (\<lambda>f. f = None) (xs ! i # drop (Suc i) xs)"
    by (subst id_take_nth_drop [OF assms], rule filter_append)
  then show ?thesis using assms by (simp add: upd_conv_take_nth_drop)
qed

lemma set_update_Some: "Some f \<in> set (xs[i := v]) \<Longrightarrow> Some f \<in> set xs \<or> v = Some f"
  using set_update_subset_insert [of xs i v] by auto

section \<open>Words\<close>

lemma unat_eqD: "unat w = n \<Longrightarrow> w = of_nat n"
  by auto

lemma unat_sum_list:
  assumes "sum_list (map unat ws) < 2 ^ LENGTH('a)"
  shows "unat (sum_list (ws :: 'a :: len word list)) = sum_list (map unat ws)"
  using assms
proof (induction ws)
  case (Cons w ws)
  then have IH: "unat (sum_list ws) = sum_list (map unat ws)" by simp
  with Cons.prems have "unat (w + sum_list ws) = unat w + unat (sum_list ws)"
    by (intro unat_add_lem [THEN iffD1]) simp
  with IH show ?case by simp
qed simp

lemma foldl_index_sum:
  fixes f :: "'a \<Rightarrow> 'b :: len word"
  assumes "m \<le> length xs"
  shows "foldl (\<lambda>n i. n + f (xs ! i)) a [0..<m] = a + sum_list (map f (take m xs))"
  using assms
proof (induction m)
  case (Suc m)
  then show ?case by (simp add: take_Suc_conv_app_nth add.assoc)
qed simp

text \<open>Reading a 64-bit word as a signed number.\<close>

lemma sint_small:
  assumes "unat x < 2 ^ 63" shows "sint (x :: 64 word) = int (unat x)"
proof -
  have "int (unat x) < int (2 ^ 63)" using assms by (simp only: of_nat_less_iff)
  then have "uint x < 2 ^ 63" by simp
  moreover have "- (2 ^ 63) \<le> uint x" by (rule order_trans [of _ 0]) simp_all
  ultimately have "signed_take_bit 63 (uint x) = uint x"
    by (intro signed_take_bit_int_eq_self)
  moreover have "sint x = signed_take_bit 63 (uint x)" by (subst sint_uint) simp
  ultimately show ?thesis by simp
qed

lemma sint_add_cases:
  fixes a b :: "64 word"
  assumes "0 \<le> sint a"
  shows "sint (a + b) = sint a + sint b \<or> 2 ^ 63 \<le> sint a + sint b \<and> sint (a + b) < 0"
proof -
  have a: "sint a < 2 ^ 63" and b: "- (2 ^ 63) \<le> sint b" "sint b < 2 ^ 63"
    using sint_range_size [of a] sint_range_size [of b] by (simp_all add: word_size)
  have eq: "sint (a + b) = signed_take_bit 63 (sint a + sint b)"
    by (simp add: sint_word_ariths)
  show ?thesis
  proof (cases "sint a + sint b < 2 ^ 63")
    case True
    with assms b eq show ?thesis by (simp add: signed_take_bit_int_eq_self_iff)
  next
    case False
    let ?y = "sint a + sint b + 2 ^ 63 - 2 ^ 64"
    have "(sint a + sint b + 2 ^ 63) mod 2 ^ 64 = ?y mod 2 ^ 64"
      by (rule minus_mod_self2 [symmetric])
    also have "\<dots> = ?y"
      using False a b by (intro mod_pos_pos_trivial) simp_all
    finally have "signed_take_bit 63 (sint a + sint b) = sint a + sint b - 2 ^ 64"
      by (simp add: signed_take_bit_eq_take_bit_shift take_bit_eq_mod)
    with eq a b False show ?thesis by simp
  qed
qed

end
