(* ===== verification/Circular_Buffer.thy ===== *)
theory Circular_Buffer imports Main Aesd_Prelude begin

text \<open>
  The circular buffer of \<^verbatim>\<open>aesd-char-driver/aesd-circular-buffer.c\<close> and its header: a ring
  of ten entries, each the address and size of the block one write command left behind, with
  the index of the next write and the index of the oldest entry.

  Pointers to a structure are \<open>option\<close>s (\<open>None\<close> is NULL) and a pointer into the ring is the
  index of the entry it points to. A C array access outside the array is the fault
  \<open>Out_Of_Bounds\<close>. Sizes are 64-bit words and the two indices 8-bit words, as in the C.

  The interface \<open>command_ring\<close> says what the ring promises its client (the driver): the
  entries it keeps are the last ten added, oldest first, and the search by file position is
  \<open>locate\<close> on them.
\<close>

section \<open>Data\<close>

abbreviation MAX_OPS :: nat where
  "MAX_OPS \<equiv> 10" \<comment> \<open>\<^verbatim>\<open>AESDCHAR_MAX_WRITE_OPERATIONS_SUPPORTED\<close>\<close>

record aesd_buffer_entry =
  buffptr :: ptr
  entry_size :: size_t

record aesd_circular_buffer =
  entry :: "aesd_buffer_entry list"
  in_offs :: uint8_t
  out_offs :: uint8_t
  full :: bool

text \<open>What \<open>memset\<close> to zero leaves in an entry.\<close>

definition zero_entry :: aesd_buffer_entry where
  "zero_entry = \<lparr>buffptr = NULL, entry_size = 0\<rparr>"

lemma zero_entry_simps [simp]:
  "buffptr zero_entry = NULL" "entry_size zero_entry = 0"
  by (simp_all add: zero_entry_def)

section \<open>Operations\<close>

text \<open>
  The search loop. \<open>cumulative\<close> is \<open>cumulative_offset\<close>; both the sum and the comparison are
  in \<open>size_t\<close>. The result is the index of the entry and the byte written through
  \<open>entry_offset_byte_rtn\<close>.
\<close>

function find_loop ::
  "aesd_buffer_entry list \<Rightarrow> uint8_t \<Rightarrow> size_t \<Rightarrow> nat \<Rightarrow> size_t \<Rightarrow> (nat \<times> size_t) option" where
  "find_loop es out char_offset i cumulative =
     (if i < MAX_OPS then
        let value = (i + unat out) mod MAX_OPS in
        if cumulative + entry_size (es ! value) > char_offset
        then Some (value, char_offset - cumulative)
        else find_loop es out char_offset (Suc i) (cumulative + entry_size (es ! value))
      else None)"
  by pat_completeness auto
termination
  by (relation "measure (\<lambda>(es, out, char_offset, i, cumulative). MAX_OPS - i)") auto

declare find_loop.simps [simp del]

text \<open>
  \<open>aesd_circular_buffer_find_entry_offset_for_fpos\<close>. The initialiser of the local
  \<open>out_offs\<close> reads through \<open>buffer\<close> before the test for NULL. \<open>rtn\<close> is the object that
  \<open>entry_offset_byte_rtn\<close> points to (\<open>None\<close> for a NULL pointer); the second component of
  the result is that object afterwards.
\<close>

definition aesd_circular_buffer_find_entry_offset_for_fpos ::
  "aesd_circular_buffer option \<Rightarrow> size_t \<Rightarrow> size_t option \<Rightarrow> (nat option \<times> size_t option) outcome" where
  "aesd_circular_buffer_find_entry_offset_for_fpos buffer char_offset rtn =
     (case buffer of
        None \<Rightarrow> Inl Null_Deref
      | Some b \<Rightarrow>
          (case rtn of
             None \<Rightarrow> Inr (None, None)
           | Some old \<Rightarrow>
               (case find_loop (entry b) (out_offs b) char_offset 0 0 of
                  Some (value, byte) \<Rightarrow> Inr (Some value, Some byte)
                | None \<Rightarrow> Inr (None, Some old))))"

text \<open>
  \<open>(x + 1) % AESDCHAR_MAX_WRITE_OPERATIONS_SUPPORTED\<close> on a \<open>uint8_t\<close>, computed in \<open>int\<close> by
  promotion and stored back in a \<open>uint8_t\<close>.
\<close>

definition next_offs :: "uint8_t \<Rightarrow> uint8_t" where
  "next_offs x = of_nat ((unat x + 1) mod MAX_OPS)"

definition aesd_circular_buffer_add_entry ::
  "aesd_circular_buffer option \<Rightarrow> aesd_buffer_entry option \<Rightarrow> aesd_circular_buffer option outcome" where
  "aesd_circular_buffer_add_entry buffer add_entry =
     (case (buffer, add_entry) of
        (Some b, Some e) \<Rightarrow>
          if in_offs b = out_offs b \<and> \<not> unat (out_offs b) < MAX_OPS then Inl Out_Of_Bounds
          else
            let b1 = (if in_offs b = out_offs b \<and> entry_size (entry b ! unat (out_offs b)) > 0
                      then b\<lparr>full := True, out_offs := next_offs (out_offs b)\<rparr>
                      else b)
            in if unat (in_offs b1) < MAX_OPS
               then Inr (Some (b1\<lparr>entry := (entry b1)[unat (in_offs b1) := e],
                                  in_offs := next_offs (in_offs b1)\<rparr>))
               else Inl Out_Of_Bounds
      | _ \<Rightarrow> Inr buffer)"

definition aesd_circular_buffer_init ::
  "aesd_circular_buffer option \<Rightarrow> aesd_circular_buffer outcome" where
  "aesd_circular_buffer_init buffer =
     (case buffer of
        None \<Rightarrow> Inl Null_Deref
      | Some b \<Rightarrow> Inr \<lparr>entry = replicate MAX_OPS zero_entry, in_offs = 0, out_offs = 0, full = False\<rparr>)"

text \<open>
  The macro \<open>AESD_CIRCULAR_BUFFER_FOREACH\<close>: \<open>body\<close> is the loop body, run with the entry
  \<open>index\<close> points to. The increment leaves \<open>entryptr\<close> one past the array at the end, which C
  allows and nothing reads.
\<close>

function foreach_loop ::
  "(aesd_buffer_entry \<Rightarrow> 's \<Rightarrow> 's) \<Rightarrow> aesd_circular_buffer \<Rightarrow> uint8_t \<Rightarrow> 's \<Rightarrow> 's" where
  "foreach_loop body b index s =
     (if unat index < MAX_OPS
      then foreach_loop body b (index + 1) (body (entry b ! unat index) s)
      else s)"
  by pat_completeness auto
termination
proof (relation "measure (\<lambda>(body, b, index, s). MAX_OPS - unat index)", goal_cases)
  case (2 body b index s)
  then have "unat (index + 1) = unat index + 1"
    by (simp add: unat_word_ariths)
  with 2 show ?case by simp
qed simp

declare foreach_loop.simps [simp del]

definition AESD_CIRCULAR_BUFFER_FOREACH ::
  "(aesd_buffer_entry \<Rightarrow> 's \<Rightarrow> 's) \<Rightarrow> aesd_circular_buffer \<Rightarrow> 's \<Rightarrow> 's" where
  "AESD_CIRCULAR_BUFFER_FOREACH body b s = foreach_loop body b 0 s"

section \<open>Invariant and contents\<close>

abbreviation esize :: "aesd_buffer_entry \<Rightarrow> nat" where
  "esize e \<equiv> unat (entry_size e)"

abbreviation nonempty :: "aesd_buffer_entry \<Rightarrow> bool" where
  "nonempty e \<equiv> entry_size e \<noteq> 0"

text \<open>
  The entries the ring keeps, oldest first: the slots from \<open>out_offs\<close> on, without the slots
  that no write has filled (\<open>memset\<close> left their size zero).
\<close>

definition ring_entries :: "aesd_circular_buffer \<Rightarrow> aesd_buffer_entry list" where
  "ring_entries b = filter nonempty (rotate (unat (out_offs b)) (entry b))"

text \<open>
  Either every slot is filled and the next write replaces the oldest entry, or the ring has
  not wrapped yet: the slots below \<open>in_offs\<close> are filled and the others as \<open>memset\<close> left them.
\<close>

definition ring_wrapped :: "aesd_circular_buffer \<Rightarrow> bool" where
  "ring_wrapped b \<longleftrightarrow> in_offs b = out_offs b \<and> list_all nonempty (entry b)"

definition ring_filling :: "aesd_circular_buffer \<Rightarrow> bool" where
  "ring_filling b \<longleftrightarrow>
     out_offs b = 0 \<and> \<not> full b \<and>
     list_all nonempty (take (unat (in_offs b)) (entry b)) \<and>
     drop (unat (in_offs b)) (entry b) = replicate (MAX_OPS - unat (in_offs b)) zero_entry"

definition ring_inv :: "aesd_circular_buffer \<Rightarrow> bool" where
  "ring_inv b \<longleftrightarrow>
     length (entry b) = MAX_OPS \<and> unat (in_offs b) < MAX_OPS \<and> unat (out_offs b) < MAX_OPS \<and>
     (ring_wrapped b \<or> ring_filling b)"

lemma ring_invE:
  assumes "ring_inv b"
  obtains (wrapped) "length (entry b) = MAX_OPS" "unat (in_offs b) < MAX_OPS"
      "in_offs b = out_offs b" "list_all nonempty (entry b)"
    | (filling) xs where "entry b = xs @ replicate (MAX_OPS - length xs) zero_entry"
      "unat (in_offs b) = length xs" "length xs < MAX_OPS" "out_offs b = 0"
      "list_all nonempty xs" "\<not> full b"
proof -
  from assms have l: "length (entry b) = MAX_OPS" and i: "unat (in_offs b) < MAX_OPS"
    and disj: "ring_wrapped b \<or> ring_filling b"
    by (auto simp: ring_inv_def)
  show thesis
  proof (cases "ring_wrapped b")
    case True
    with l i show thesis by (intro wrapped) (auto simp: ring_wrapped_def)
  next
    case False
    with disj have f: "ring_filling b" by simp
    let ?xs = "take (unat (in_offs b)) (entry b)"
    have "entry b = ?xs @ replicate (MAX_OPS - length ?xs) zero_entry"
      using f l i append_take_drop_id [of "unat (in_offs b)" "entry b"]
      by (simp add: ring_filling_def)
    then show thesis
      using f l i by (intro filling [of ?xs]) (auto simp: ring_filling_def)
  qed
qed

lemma unat_next_offs: "unat (next_offs x) = (unat x + 1) mod MAX_OPS"
proof -
  have "(unat x + 1) mod MAX_OPS < 2 ^ LENGTH(8)"
    using mod_less_divisor [of MAX_OPS "unat x + 1"] by simp
  then show ?thesis
    unfolding next_offs_def by (simp add: unat_of_nat)
qed

lemma next_offs_bound [simp]: "unat (next_offs x) < MAX_OPS"
  by (simp add: unat_next_offs)

lemma ring_entries_wrapped:
  assumes "list_all nonempty (entry b)"
  shows "ring_entries b = rotate (unat (out_offs b)) (entry b)"
  using assms by (simp add: ring_entries_def list_all_iff)

lemma ring_entries_filling:
  assumes "entry b = xs @ replicate n zero_entry" "out_offs b = 0" "list_all nonempty xs"
  shows "ring_entries b = xs"
  using assms by (simp add: ring_entries_def list_all_iff)

lemma ring_entries_nonempty: "e \<in> set (ring_entries b) \<Longrightarrow> nonempty e"
  by (simp add: ring_entries_def)

lemma set_ring_entries: "set (ring_entries b) = {e \<in> set (entry b). nonempty e}"
  by (auto simp: ring_entries_def)

lemma length_ring_entries: "ring_inv b \<Longrightarrow> length (ring_entries b) \<le> MAX_OPS"
  using length_filter_le [of nonempty "rotate (unat (out_offs b)) (entry b)"]
  by (simp add: ring_entries_def ring_inv_def)

section \<open>Adding an entry\<close>

lemma rotate_replace_oldest:
  assumes "n < length xs"
  shows "rotate (Suc n) (xs[n := x]) = tl (rotate n xs) @ [x]"
proof -
  have "rotate n (xs[n := x]) = x # drop (Suc n) xs @ take n xs"
    using assms by (simp add: rotate_drop_take drop_update_swap Cons_nth_drop_Suc [symmetric])
  moreover have "rotate n xs = xs ! n # drop (Suc n) xs @ take n xs"
    using assms by (simp add: rotate_drop_take Cons_nth_drop_Suc [symmetric])
  ultimately show ?thesis by (simp add: rotate1_rotate_swap)
qed

lemma add_entry_eq:
  assumes "unat (in_offs b) < MAX_OPS"
  shows "aesd_circular_buffer_add_entry (Some b) (Some e) =
    Inr (Some (b\<lparr>entry := (entry b)[unat (in_offs b) := e],
       in_offs := next_offs (in_offs b),
       out_offs := (if in_offs b = out_offs b \<and> nonempty (entry b ! unat (out_offs b))
                    then next_offs (out_offs b) else out_offs b),
       full := (full b \<or> in_offs b = out_offs b \<and> nonempty (entry b ! unat (out_offs b)))\<rparr>))"
  using assms by (auto simp: aesd_circular_buffer_add_entry_def word_gt_0)

text \<open>The ring that an addition leaves, when it returns one.\<close>

definition ring_add :: "aesd_circular_buffer \<Rightarrow> aesd_buffer_entry \<Rightarrow> aesd_circular_buffer" where
  "ring_add b e = (case aesd_circular_buffer_add_entry (Some b) (Some e) of
     Inr (Some b') \<Rightarrow> b' | _ \<Rightarrow> b)"

lemma ring_add_eq:
  assumes "ring_inv b"
  shows "aesd_circular_buffer_add_entry (Some b) (Some e) = Inr (Some (ring_add b e))"
  using assms by (simp add: ring_add_def ring_inv_def add_entry_eq)

lemma ring_add_wrapped:
  assumes b: "length (entry b) = MAX_OPS" "unat (in_offs b) < MAX_OPS"
      "in_offs b = out_offs b" "list_all nonempty (entry b)"
    and e: "nonempty e"
  shows "ring_inv (ring_add b e)"
    and "ring_entries (ring_add b e) = tl (ring_entries b) @ [e]"
proof -
  let ?n = "unat (out_offs b)"
  have nz: "nonempty (entry b ! ?n)"
    using b by (simp add: list_all_length)
  have add: "ring_add b e = b\<lparr>entry := (entry b)[?n := e], in_offs := next_offs (in_offs b),
      out_offs := next_offs (out_offs b), full := True\<rparr>"
    using b nz by (simp add: ring_add_def add_entry_eq)
  have all: "list_all nonempty ((entry b)[?n := e])"
    using b e by (auto simp: list_all_iff dest!: set_update_subset_insert [THEN subsetD])
  show "ring_inv (ring_add b e)"
    using b all by (simp add: add ring_inv_def ring_wrapped_def)
  have "ring_entries (ring_add b e) = rotate (unat (next_offs (out_offs b))) ((entry b)[?n := e])"
    using all by (simp add: add ring_entries_wrapped)
  also have "\<dots> = rotate (Suc ?n) ((entry b)[?n := e])"
    using b by (simp add: unat_next_offs rotate_conv_mod [symmetric] del: rotate_Suc)
      (metis length_list_update rotate_conv_mod)
  also have "\<dots> = tl (rotate ?n (entry b)) @ [e]"
    using b by (intro rotate_replace_oldest) simp
  also have "rotate ?n (entry b) = ring_entries b"
    using b by (simp add: ring_entries_wrapped)
  finally show "ring_entries (ring_add b e) = tl (ring_entries b) @ [e]" .
qed

lemma ring_add_filling:
  assumes b: "entry b = xs @ replicate (MAX_OPS - length xs) zero_entry"
      "unat (in_offs b) = length xs" "length xs < MAX_OPS" "out_offs b = 0"
      "list_all nonempty xs" "\<not> full b"
    and e: "nonempty e"
  shows "ring_inv (ring_add b e)"
    and "ring_entries (ring_add b e) = ring_entries b @ [e]"
proof -
  have empty: "\<not> (in_offs b = out_offs b \<and> nonempty (entry b ! unat (out_offs b)))"
  proof
    assume h: "in_offs b = out_offs b \<and> nonempty (entry b ! unat (out_offs b))"
    then have "xs = []" using b by simp
    with h b show False by simp
  qed
  have upd: "(entry b)[length xs := e] = (xs @ [e]) @ replicate (MAX_OPS - length (xs @ [e])) zero_entry"
    using b(3) by (simp add: b(1) Suc_diff_Suc [symmetric])
  have add: "ring_add b e = b\<lparr>entry := (xs @ [e]) @ replicate (MAX_OPS - length (xs @ [e])) zero_entry,
      in_offs := next_offs (in_offs b)\<rparr>"
    using b(2,3) by (simp add: ring_add_def add_entry_eq empty upd)
  have nz: "list_all nonempty (xs @ [e])"
    using b e by simp
  show "ring_inv (ring_add b e)"
  proof (cases "length xs = MAX_OPS - 1")
    case True
    then have "unat (next_offs (in_offs b)) = 0"
      using b by (simp add: unat_next_offs)
    then show ?thesis
      using True b nz by (simp add: add ring_inv_def ring_wrapped_def unat_eq_zero)
  next
    case False
    then have "unat (next_offs (in_offs b)) = Suc (length xs)"
      using b by (simp add: unat_next_offs)
    then show ?thesis
      using False b nz by (simp add: add ring_inv_def ring_filling_def)
  qed
  have "ring_entries (ring_add b e) = xs @ [e]"
    using b nz by (intro ring_entries_filling) (simp_all add: add)
  also have "xs = ring_entries b"
    using b by (intro ring_entries_filling [symmetric]) simp_all
  finally show "ring_entries (ring_add b e) = ring_entries b @ [e]" .
qed

lemma ring_add_inv:
  assumes "ring_inv b" and "nonempty e"
  shows "ring_inv (ring_add b e)"
  using assms by (cases b rule: ring_invE) (auto intro: ring_add_wrapped ring_add_filling)

lemma ring_add_entries:
  assumes inv: "ring_inv b" and e: "nonempty e"
  shows "ring_entries (ring_add b e) = last_n MAX_OPS (ring_entries b @ [e])"
  using inv
proof (cases b rule: ring_invE)
  case wrapped
  then have "length (ring_entries b) = MAX_OPS"
    by (simp add: ring_entries_wrapped)
  then show ?thesis
    using ring_add_wrapped(2) [OF wrapped e] last_n_snoc_full [of "ring_entries b" 9 e] by simp
next
  case (filling xs)
  then have "ring_entries b = xs" by (intro ring_entries_filling) simp_all
  with filling ring_add_filling(2) [OF filling e] show ?thesis by simp
qed

section \<open>Searching by file position\<close>

definition find_agrees ::
  "aesd_buffer_entry list \<Rightarrow> (nat \<times> size_t) option \<Rightarrow> (aesd_buffer_entry \<times> nat) option \<Rightarrow> bool" where
  "find_agrees es found spec =
     (case (found, spec) of
        (None, None) \<Rightarrow> True
      | (Some (v, byte), Some (e, k)) \<Rightarrow> v < length es \<and> es ! v = e \<and> unat byte = k
      | _ \<Rightarrow> False)"

lemma find_loop_agrees:
  assumes "length es = MAX_OPS"
    and "unat cum + sum_list (map esize (drop i (rotate (unat out) es))) < 2 ^ 64"
    and "i \<le> MAX_OPS" and "cum \<le> off"
  shows "find_agrees es (find_loop es out off i cum)
    (locate esize (drop i (rotate (unat out) es)) (unat off - unat cum))"
  using assms
proof (induction es out off i cum rule: find_loop.induct)
  case (1 es out off i cum)
  let ?rot = "rotate (unat out) es"
  show ?case
  proof (cases "i < MAX_OPS")
    case False
    with "1.prems" show ?thesis
      by (subst find_loop.simps) (simp add: find_agrees_def)
  next
    case True
    let ?v = "(i + unat out) mod MAX_OPS"
    let ?e = "es ! ?v"
    have cons: "drop i ?rot = ?e # drop (Suc i) ?rot"
      using True "1.prems"(1) by (simp add: Cons_nth_drop_Suc [symmetric] nth_rotate add.commute)
    have fits: "unat cum + esize ?e + sum_list (map esize (drop (Suc i) ?rot)) < 2 ^ 64"
      using "1.prems"(2) unfolding cons by simp
    then have sum: "unat (cum + entry_size ?e) = unat cum + esize ?e"
      by (intro unat_add_lem [THEN iffD1]) simp
    have le: "unat cum \<le> unat off"
      using "1.prems"(4) by (simp add: word_le_nat_alt)
    show ?thesis
    proof (cases "off < cum + entry_size ?e")
      case hit: True
      then have "unat off - unat cum < esize ?e"
        using le by (simp add: word_less_nat_alt sum)
      with hit show ?thesis
        using True "1.prems"(1,4) unfolding cons
        by (subst find_loop.simps) (simp add: find_agrees_def Let_def unat_sub)
    next
      case miss: False
      then have ge: "unat cum + esize ?e \<le> unat off"
        by (simp add: word_less_nat_alt sum not_less)
      have IH: "find_agrees es (find_loop es out off (Suc i) (cum + entry_size ?e))
          (locate esize (drop (Suc i) ?rot) (unat off - unat (cum + entry_size ?e)))"
        using True miss "1.prems"(1) fits ge
        by (intro "1.IH") (simp_all add: sum word_le_nat_alt)
      have "\<not> unat off - unat cum < esize ?e"
        using ge by simp
      then show ?thesis
        using IH True miss unfolding cons
        by (subst find_loop.simps) (simp add: Let_def sum)
    qed
  qed
qed

lemma sum_list_filter_nonempty:
  "sum_list (map esize (filter nonempty es)) = sum_list (map esize es)"
  by (induction es) auto

lemma sum_ring_entries: "sum_list (map esize (ring_entries b)) = sum_list (map esize (entry b))"
  by (simp add: ring_entries_def sum_list_filter_nonempty rotate_map [symmetric] sum_list_rotate)

lemma locate_ring_entries:
  "locate esize (rotate (unat (out_offs b)) (entry b)) off = locate esize (ring_entries b) off"
  using locate_filter [of esize "rotate (unat (out_offs b)) (entry b)" off]
  by (simp add: ring_entries_def unat_eq_zero)

lemma ring_find_agrees:
  assumes "ring_inv b" and "sum_list (map esize (ring_entries b)) < 2 ^ 64"
  shows "find_agrees (entry b) (find_loop (entry b) (out_offs b) off 0 0)
    (locate esize (ring_entries b) (unat off))"
  using find_loop_agrees [of "entry b" 0 0 "out_offs b" off] assms
  by (simp add: ring_inv_def locate_ring_entries sum_ring_entries rotate_map [symmetric] sum_list_rotate)

lemma ring_find_hit:
  assumes "ring_inv b" and "sum_list (map esize (ring_entries b)) < 2 ^ 64"
    and "locate esize (ring_entries b) (unat off) = Some (e, k)"
  shows "\<exists>v byte. aesd_circular_buffer_find_entry_offset_for_fpos (Some b) off (Some old) = Inr (Some v, Some byte) \<and>
    v < MAX_OPS \<and> entry b ! v = e \<and> unat byte = k"
  using ring_find_agrees [OF assms(1,2), of off] assms(1,3)
  by (auto simp: find_agrees_def aesd_circular_buffer_find_entry_offset_for_fpos_def ring_inv_def
      split: option.splits prod.splits)

lemma ring_find_miss:
  assumes "ring_inv b" and "sum_list (map esize (ring_entries b)) < 2 ^ 64"
    and "locate esize (ring_entries b) (unat off) = None"
  shows "aesd_circular_buffer_find_entry_offset_for_fpos (Some b) off (Some old) = Inr (None, Some old)"
  using ring_find_agrees [OF assms(1,2), of off] assms(3)
  by (auto simp: find_agrees_def aesd_circular_buffer_find_entry_offset_for_fpos_def split: option.splits)

section \<open>The interface the ring offers\<close>

text \<open>Adding entries one after the other, stopping at the first fault.\<close>

fun add_seq ::
  "('r option \<Rightarrow> aesd_buffer_entry option \<Rightarrow> 'r option outcome) \<Rightarrow> 'r option \<Rightarrow>
   aesd_buffer_entry list \<Rightarrow> 'r option outcome" where
  "add_seq add r [] = Inr r"
| "add_seq add r (e # es) = bindR (add r (Some e)) (\<lambda>r'. add_seq add r' es)"

lemma add_seq_append:
  "add_seq add r (xs @ ys) = bindR (add_seq add r xs) (\<lambda>r'. add_seq add r' ys)"
  by (induction xs arbitrary: r) (auto simp: bindR_def split: sum.splits)

text \<open>
  \<open>entries r\<close> is what the client may still read, oldest first; \<open>at r v\<close> the entry that the
  returned pointer \<open>v\<close> points to.
\<close>

locale command_ring =
  fixes invar :: "'r \<Rightarrow> bool"
    and entries :: "'r \<Rightarrow> aesd_buffer_entry list"
    and at :: "'r \<Rightarrow> nat \<Rightarrow> aesd_buffer_entry"
    and start :: "'r"
    and add :: "'r option \<Rightarrow> aesd_buffer_entry option \<Rightarrow> 'r option outcome"
    and find :: "'r option \<Rightarrow> size_t \<Rightarrow> size_t option \<Rightarrow> (nat option \<times> size_t option) outcome"
  assumes invar_start: "invar start"
    and entries_start: "entries start = []"
    and entries_bound: "invar r \<Longrightarrow> length (entries r) \<le> MAX_OPS"
    and add_ok: "invar r \<Longrightarrow> nonempty e \<Longrightarrow>
      \<exists>r'. add (Some r) (Some e) = Inr (Some r') \<and> invar r' \<and>
           entries r' = last_n MAX_OPS (entries r @ [e])"
    and find_hit: "invar r \<Longrightarrow> sum_list (map esize (entries r)) < 2 ^ 64 \<Longrightarrow>
      locate esize (entries r) (unat off) = Some (e, k) \<Longrightarrow>
      \<exists>v byte. find (Some r) off (Some old) = Inr (Some v, Some byte) \<and> at r v = e \<and> unat byte = k"
    and find_miss: "invar r \<Longrightarrow> sum_list (map esize (entries r)) < 2 ^ 64 \<Longrightarrow>
      locate esize (entries r) (unat off) = None \<Longrightarrow>
      find (Some r) off (Some old) = Inr (None, Some old)"
begin

lemma add_seq_ok:
  "invar r \<Longrightarrow> list_all nonempty es \<Longrightarrow>
    \<exists>r'. add_seq add (Some r) es = Inr (Some r') \<and> invar r' \<and>
         entries r' = last_n MAX_OPS (entries r @ es)"
proof (induction es arbitrary: r)
  case Nil
  then show ?case by (simp add: entries_bound)
next
  case (Cons e es)
  then have "nonempty e" and es: "list_all nonempty es" by simp_all
  with Cons.prems(1) obtain r1 where r1: "add (Some r) (Some e) = Inr (Some r1)" "invar r1"
      "entries r1 = last_n MAX_OPS (entries r @ [e])"
    using add_ok by blast
  obtain r2 where "add_seq add (Some r1) es = Inr (Some r2)" "invar r2"
      "entries r2 = last_n MAX_OPS (entries r1 @ es)"
    using Cons.IH [OF r1(2) es] by blast
  with r1 show ?case
    by (simp add: last_n_append_last_n)
qed

text \<open>A client that has added \<open>es\<close> to a new ring finds any position in the last ten of them.\<close>

lemma history:
  assumes "list_all nonempty es"
  shows "\<exists>r. add_seq add (Some start) es = Inr (Some r) \<and> invar r \<and> entries r = last_n MAX_OPS es"
  using add_seq_ok [OF invar_start assms] by (simp add: entries_start)

lemma find_spec:
  assumes "invar r" and "sum_list (map esize (entries r)) < 2 ^ 64"
  shows "(case locate esize (entries r) (unat off) of
       None \<Rightarrow> find (Some r) off (Some old) = Inr (None, Some old)
     | Some (e, k) \<Rightarrow> \<exists>v byte. find (Some r) off (Some old) = Inr (Some v, Some byte) \<and>
         at r v = e \<and> unat byte = k)"
  using find_hit [OF assms] find_miss [OF assms] by (auto split: option.splits)

end

interpretation ring: command_ring ring_inv ring_entries "\<lambda>b v. entry b ! v"
  "\<lparr>entry = replicate MAX_OPS zero_entry, in_offs = 0, out_offs = 0, full = False\<rparr>"
  aesd_circular_buffer_add_entry aesd_circular_buffer_find_entry_offset_for_fpos
proof (unfold_locales, goal_cases)
  case 1
  show ?case by (simp add: ring_inv_def ring_filling_def)
next
  case 2
  show ?case by (simp add: ring_entries_def list_all_iff)
next
  case (3 r)
  then show ?case by (rule length_ring_entries)
next
  case (4 r e)
  then show ?case
    by (simp add: ring_add_eq ring_add_inv ring_add_entries)
next
  case (5 r off e k old)
  then show ?case using ring_find_hit by blast
next
  case (6 r off old)
  then show ?case by (rule ring_find_miss)
qed

section \<open>Iterating over the slots\<close>

lemma foreach_loop_fold:
  assumes "length (entry b) = MAX_OPS" and "unat index \<le> MAX_OPS"
  shows "foreach_loop body b index s = fold body (drop (unat index) (entry b)) s"
  using assms
proof (induction body b index s rule: foreach_loop.induct)
  case (1 body b index s)
  show ?case
  proof (cases "unat index < MAX_OPS")
    case False
    with "1.prems" show ?thesis by (subst foreach_loop.simps) simp
  next
    case True
    then have Suc: "unat (index + 1) = Suc (unat index)"
      by (simp add: unat_word_ariths)
    have "drop (unat index) (entry b) = entry b ! unat index # drop (Suc (unat index)) (entry b)"
      using True "1.prems" by (simp add: Cons_nth_drop_Suc)
    with True Suc "1.IH" "1.prems" show ?thesis
      by (subst foreach_loop.simps) simp
  qed
qed

section \<open>The flag \<open>full\<close>\<close>

lemma full_ring_add:
  assumes inv: "ring_inv b" and e: "nonempty e"
  shows "full (ring_add b e) \<longleftrightarrow> full b \<or> length (ring_entries b) = MAX_OPS"
  using inv
proof (cases b rule: ring_invE)
  case wrapped
  then have "nonempty (entry b ! unat (out_offs b))" by (simp add: list_all_length)
  with wrapped show ?thesis
    by (simp add: ring_add_def add_entry_eq ring_entries_wrapped)
next
  case (filling xs)
  then have "ring_entries b = xs" by (intro ring_entries_filling) simp_all
  moreover have "\<not> (in_offs b = out_offs b \<and> nonempty (entry b ! unat (out_offs b)))"
    using filling by (cases xs) auto
  ultimately show ?thesis
    using filling by (simp add: ring_add_def add_entry_eq)
qed

lemma full_add_seq:
  "ring_inv b \<Longrightarrow> list_all nonempty es \<Longrightarrow>
    add_seq aesd_circular_buffer_add_entry (Some b) es = Inr (Some b') \<Longrightarrow>
    full b' \<longleftrightarrow> full b \<or> (es \<noteq> [] \<and> MAX_OPS < length (ring_entries b) + length es)"
proof (induction es arbitrary: b)
  case Nil
  then show ?case by simp
next
  case (Cons e es)
  let ?b1 = "ring_add b e"
  have e: "nonempty e" and es: "list_all nonempty es" using Cons.prems(2) by simp_all
  have inv1: "ring_inv ?b1" using Cons.prems(1) e by (rule ring_add_inv)
  have len1: "length (ring_entries ?b1) = min MAX_OPS (Suc (length (ring_entries b)))"
    using Cons.prems(1) e by (simp add: ring_add_entries)
  have "add_seq aesd_circular_buffer_add_entry (Some ?b1) es = Inr (Some b')"
    using Cons.prems(1,3) by (simp add: ring_add_eq)
  from Cons.IH [OF inv1 es this] have
    "full b' \<longleftrightarrow> full ?b1 \<or> (es \<noteq> [] \<and> MAX_OPS < length (ring_entries ?b1) + length es)" .
  also have "\<dots> \<longleftrightarrow> full b \<or> MAX_OPS < length (ring_entries b) + length (e # es)"
    using full_ring_add [OF Cons.prems(1) e] length_ring_entries [OF Cons.prems(1)] len1
    by (cases es) auto
  finally show ?case by simp
qed

section \<open>Filling the slots\<close>

text \<open>Whatever the sizes, a ring that has been written to once fills slot after slot.\<close>

lemma add_seq_fill:
  assumes "xs \<noteq> []" and "length xs + length es \<le> MAX_OPS"
    and "entry b = xs @ replicate (MAX_OPS - length xs) zero_entry"
    and "unat (in_offs b) = length xs mod MAX_OPS" and "out_offs b = 0"
  shows "\<exists>b'. add_seq aesd_circular_buffer_add_entry (Some b) es = Inr (Some b') \<and>
    entry b' = xs @ es @ replicate (MAX_OPS - length xs - length es) zero_entry \<and>
    unat (in_offs b') = (length xs + length es) mod MAX_OPS \<and> out_offs b' = 0 \<and>
    full b' = full b"
  using assms
proof (induction es arbitrary: xs b)
  case Nil
  then show ?case by simp
next
  case (Cons e es)
  let ?b1 = "b\<lparr>entry := (entry b)[length xs := e], in_offs := next_offs (in_offs b)\<rparr>"
  have l: "length xs < MAX_OPS" "unat (in_offs b) = length xs" "in_offs b \<noteq> out_offs b"
    using Cons.prems by auto
  have add: "aesd_circular_buffer_add_entry (Some b) (Some e) = Inr (Some ?b1)"
    using l by (simp add: add_entry_eq)
  have "\<exists>b'. add_seq aesd_circular_buffer_add_entry (Some ?b1) es = Inr (Some b') \<and>
    entry b' = (xs @ [e]) @ es @ replicate (MAX_OPS - length (xs @ [e]) - length es) zero_entry \<and>
    unat (in_offs b') = (length (xs @ [e]) + length es) mod MAX_OPS \<and> out_offs b' = 0 \<and>
    full b' = full ?b1"
  proof (rule Cons.IH)
    show "entry ?b1 = (xs @ [e]) @ replicate (MAX_OPS - length (xs @ [e])) zero_entry"
      using l(1) by (simp add: Cons.prems(3) Suc_diff_Suc [symmetric])
    show "unat (in_offs ?b1) = length (xs @ [e]) mod MAX_OPS"
      using l(2) by (simp add: unat_next_offs)
  qed (use Cons.prems in simp_all)
  with add show ?case by simp
qed

section \<open>Properties of the ring\<close>

text \<open>
  C18. One addition of a nonempty entry to a well-formed ring returns, keeps the ring well
  formed, and leaves the last ten of the entries that were there followed by the new one:
  nothing is lost before the ring is full, and then exactly the oldest entry goes.
\<close>

theorem add_entry_keeps_last_ten:
  assumes "ring_inv b" and "nonempty e"
  shows "\<exists>b'. aesd_circular_buffer_add_entry (Some b) (Some e) = Inr (Some b') \<and> ring_inv b' \<and>
    ring_entries b' = last_n MAX_OPS (ring_entries b @ [e])"
  by (rule ring.add_ok [OF assms])

theorem add_entry_keeps_last_ten_witness:
  "\<exists>b'. aesd_circular_buffer_add_entry
      (Some \<lparr>entry = replicate MAX_OPS zero_entry, in_offs = 0, out_offs = 0, full = False\<rparr>)
      (Some \<lparr>buffptr = 100, entry_size = 4\<rparr>) = Inr (Some b') \<and> ring_inv b' \<and>
    ring_entries b' = [\<lparr>buffptr = 100, entry_size = 4\<rparr>]"
proof -
  let ?b = "\<lparr>entry = replicate MAX_OPS zero_entry, in_offs = 0, out_offs = 0, full = False\<rparr>"
  show ?thesis
    using add_entry_keeps_last_ten [of ?b "\<lparr>buffptr = 100, entry_size = 4\<rparr>", OF ring.invar_start]
    by (simp add: ring.entries_start)
qed

text \<open>
  C6. After \<open>aesd_circular_buffer_init\<close> and any sequence of additions of nonempty entries,
  the search by file position returns the entry and byte that hold the position in the last
  ten entries laid end to end, or NULL, with the output untouched, when the position is past
  their end.
\<close>

theorem find_after_history:
  assumes "list_all nonempty es" and "sum_list (map esize (last_n MAX_OPS es)) < 2 ^ 64"
  shows "\<exists>r0 r. aesd_circular_buffer_init (Some junk) = Inr r0 \<and>
    add_seq aesd_circular_buffer_add_entry (Some r0) es = Inr (Some r) \<and>
    (case locate esize (last_n MAX_OPS es) (unat off) of
       None \<Rightarrow> aesd_circular_buffer_find_entry_offset_for_fpos (Some r) off (Some old) = Inr (None, Some old)
     | Some (e, k) \<Rightarrow>
         \<exists>v byte. aesd_circular_buffer_find_entry_offset_for_fpos (Some r) off (Some old) = Inr (Some v, Some byte) \<and>
           entry r ! v = e \<and> unat byte = k)"
  using ring.history [OF assms(1)] ring.find_spec [of _ off old] assms(2)
  by (fastforce simp: aesd_circular_buffer_init_def)

theorem find_after_history_witness:
  "\<exists>r0 r v byte. aesd_circular_buffer_init
      (Some \<lparr>entry = [], in_offs = 7, out_offs = 9, full = True\<rparr>) = Inr r0 \<and>
    add_seq aesd_circular_buffer_add_entry (Some r0)
      [\<lparr>buffptr = 100, entry_size = 4\<rparr>, \<lparr>buffptr = 200, entry_size = 3\<rparr>] = Inr (Some r) \<and>
    aesd_circular_buffer_find_entry_offset_for_fpos (Some r) 5 (Some 0) = Inr (Some v, Some byte) \<and>
    entry r ! v = \<lparr>buffptr = 200, entry_size = 3\<rparr> \<and> unat byte = 1"
  using find_after_history [of "[\<lparr>buffptr = 100, entry_size = 4\<rparr>, \<lparr>buffptr = 200, entry_size = 3\<rparr>]"
      "\<lparr>entry = [], in_offs = 7, out_offs = 9, full = True\<rparr>" 5 0]
  by simp

text \<open>
  The flag \<open>full\<close> says that an entry has been overwritten, not that the ring is full: after
  additions of nonempty entries to a new ring it is set exactly when there were more than ten.
  With ten entries, every slot in use, it is still false.
\<close>

theorem full_iff_overwritten:
  assumes "list_all nonempty es"
    and "aesd_circular_buffer_init (Some junk) = Inr r0"
    and "add_seq aesd_circular_buffer_add_entry (Some r0) es = Inr (Some r)"
  shows "full r \<longleftrightarrow> MAX_OPS < length es"
  using full_add_seq [of r0 es r] assms ring.invar_start ring.entries_start
  by (auto simp: aesd_circular_buffer_init_def)

theorem full_iff_overwritten_witness:
  "\<exists>r0 r. aesd_circular_buffer_init
      (Some \<lparr>entry = [], in_offs = 7, out_offs = 9, full = True\<rparr>) = Inr r0 \<and>
    add_seq aesd_circular_buffer_add_entry (Some r0)
      (replicate 10 \<lparr>buffptr = 100, entry_size = 4\<rparr>) = Inr (Some r) \<and>
    length (ring_entries r) = MAX_OPS \<and> \<not> full r"
proof -
  let ?es = "replicate 10 \<lparr>buffptr = 100, entry_size = 4\<rparr>"
  let ?junk = "\<lparr>entry = [], in_offs = 7, out_offs = 9, full = True\<rparr>"
  have nz: "list_all nonempty ?es" by (simp add: list_all_length)
  obtain r where r: "add_seq aesd_circular_buffer_add_entry
      (Some \<lparr>entry = replicate MAX_OPS zero_entry, in_offs = 0, out_offs = 0, full = False\<rparr>) ?es
        = Inr (Some r)" "ring_entries r = last_n MAX_OPS ?es"
    using ring.history [OF nz] by blast
  moreover have init: "aesd_circular_buffer_init (Some ?junk) =
      Inr \<lparr>entry = replicate MAX_OPS zero_entry, in_offs = 0, out_offs = 0, full = False\<rparr>"
    by (simp add: aesd_circular_buffer_init_def)
  ultimately show ?thesis
    using full_iff_overwritten [OF nz init r(1)] by (intro exI conjI) auto
qed

text \<open>
  The ring is only right for nonempty entries: when the first of eleven entries has size
  zero, the eleventh addition does not see a full ring. It replaces the empty entry, leaves
  \<open>out_offs\<close> and \<open>full\<close> alone, and the newest entry is read before the nine older ones.
\<close>

theorem zero_size_entry_breaks_order:
  assumes "length es = 9" and "list_all nonempty es" and "nonempty e" and "entry_size z = 0"
  shows "\<exists>r0 r. aesd_circular_buffer_init (Some junk) = Inr r0 \<and>
    add_seq aesd_circular_buffer_add_entry (Some r0) (z # es @ [e]) = Inr (Some r) \<and>
    entry r = e # es \<and> out_offs r = 0 \<and> \<not> full r \<and>
    aesd_circular_buffer_find_entry_offset_for_fpos (Some r) 0 (Some old) = Inr (Some 0, Some 0)"
proof -
  let ?r0 = "\<lparr>entry = replicate MAX_OPS zero_entry, in_offs = 0, out_offs = 0, full = False\<rparr>"
  let ?r1 = "\<lparr>entry = z # replicate 9 zero_entry, in_offs = 1, out_offs = 0, full = False\<rparr>"
  have "replicate MAX_OPS zero_entry = zero_entry # replicate 9 zero_entry"
    by (simp flip: replicate_Suc)
  then have r1: "aesd_circular_buffer_add_entry (Some ?r0) (Some z) = Inr (Some ?r1)"
    by (simp add: add_entry_eq next_offs_def)
  obtain r2 where r2: "add_seq aesd_circular_buffer_add_entry (Some ?r1) es = Inr (Some r2)"
      "entry r2 = z # es" "unat (in_offs r2) = 0" "out_offs r2 = 0" "\<not> full r2"
    using add_seq_fill [of "[z]" es ?r1] assms(1) by auto
  let ?r = "r2\<lparr>entry := e # es, in_offs := next_offs (in_offs r2)\<rparr>"
  have "aesd_circular_buffer_add_entry (Some r2) (Some e) = Inr (Some ?r)"
    using r2 assms(4) by (simp add: add_entry_eq unat_eq_zero)
  moreover have "aesd_circular_buffer_find_entry_offset_for_fpos (Some ?r) 0 (Some old) = Inr (Some 0, Some 0)"
    using r2 assms(3) by (simp add: aesd_circular_buffer_find_entry_offset_for_fpos_def find_loop.simps [of _ 0 0 0 0] word_gt_0)
  ultimately show ?thesis
    using r1 r2 by (simp add: aesd_circular_buffer_init_def add_seq_append)
qed

theorem zero_size_entry_breaks_order_witness:
  "\<exists>r0 r. aesd_circular_buffer_init
      (Some \<lparr>entry = [], in_offs = 7, out_offs = 9, full = True\<rparr>) = Inr r0 \<and>
    add_seq aesd_circular_buffer_add_entry (Some r0)
      (\<lparr>buffptr = 16, entry_size = 0\<rparr> # replicate 9 \<lparr>buffptr = 100, entry_size = 4\<rparr>
        @ [\<lparr>buffptr = 200, entry_size = 5\<rparr>]) = Inr (Some r) \<and>
    entry r ! 0 = \<lparr>buffptr = 200, entry_size = 5\<rparr> \<and>
    aesd_circular_buffer_find_entry_offset_for_fpos (Some r) 0 (Some 0) = Inr (Some 0, Some 0)"
proof -
  have nz: "list_all nonempty (replicate 9 \<lparr>buffptr = 100, entry_size = 4\<rparr>)"
    by (simp add: list_all_length)
  show ?thesis
    using zero_size_entry_breaks_order [OF _ nz, of "\<lparr>buffptr = 200, entry_size = 5\<rparr>"
        "\<lparr>buffptr = 16, entry_size = 0\<rparr>"
        "\<lparr>entry = [], in_offs = 7, out_offs = 9, full = True\<rparr>" 0]
    by auto
qed

text \<open>
  \<open>AESD_CIRCULAR_BUFFER_FOREACH\<close> runs its body once for each of the ten slots, in slot order
  (which is not the order of age once the ring has wrapped), and stops although its index is
  a \<open>uint8_t\<close>.
\<close>

theorem foreach_visits_every_slot:
  assumes "length (entry b) = MAX_OPS"
  shows "AESD_CIRCULAR_BUFFER_FOREACH body b s = fold body (entry b) s"
  using foreach_loop_fold [of b 0 body s] assms by (simp add: AESD_CIRCULAR_BUFFER_FOREACH_def)

theorem foreach_visits_every_slot_witness:
  "AESD_CIRCULAR_BUFFER_FOREACH (\<lambda>e ps. buffptr e # ps)
    \<lparr>entry = replicate 10 zero_entry, in_offs = 0, out_offs = 0, full = False\<rparr> [] = replicate 10 0"
  using foreach_visits_every_slot
    [of "\<lparr>entry = replicate 10 zero_entry, in_offs = 0, out_offs = 0, full = False\<rparr>"
      "\<lambda>e ps. buffptr e # ps" "[]"]
  by (simp add: eval_nat_numeral)

text \<open>
  NULL arguments: an addition with a NULL ring or a NULL entry changes nothing and the
  search with a NULL output pointer returns NULL, but the search on a NULL ring faults, for its
  test comes after the ring has been read.
\<close>

theorem null_arguments:
  "aesd_circular_buffer_add_entry None e = Inr None \<and>
   aesd_circular_buffer_add_entry r None = Inr r \<and>
   aesd_circular_buffer_find_entry_offset_for_fpos (Some b) off None = Inr (None, None) \<and>
   aesd_circular_buffer_find_entry_offset_for_fpos None off rtn = Inl Null_Deref"
  by (cases r) (simp_all add: aesd_circular_buffer_add_entry_def aesd_circular_buffer_find_entry_offset_for_fpos_def)

end
