(* ===== verification/Kernel_Memory.thy ===== *)
theory Kernel_Memory imports Main Aesd_Prelude begin

text \<open>
  The memory the driver works on: a finite map from block addresses to the bytes of the block,
  and what the C of the driver does with it (\<open>memcpy\<close>, an array read through a pointer).

  The allocator, the mutex and the copies to and from user space are the kernel's, not the
  repository's. Where the driver depends on their answer the answer is a parameter: the record
  \<open>kernel\<close> gives, for one call of the driver, whether taking the mutex was interrupted, the
  address \<open>kmalloc\<close> and \<open>krealloc\<close> return, and the bytes of memory nobody has written yet.
  \<open>alloc_ok\<close> states the documented behaviour the driver relies on: a block that is not the
  failure NULL is new, and \<open>krealloc\<close> may keep the block where it is.
\<close>

type_synonym heap = "ptr \<rightharpoonup> byte list"

record kernel =
  lock_interrupted :: bool
  kmalloc_ptr :: "heap \<Rightarrow> size_t \<Rightarrow> ptr"
  krealloc_ptr :: "heap \<Rightarrow> ptr \<Rightarrow> size_t \<Rightarrow> ptr"
  uninit :: "nat \<Rightarrow> byte"

text \<open>What \<open>kmalloc(0)\<close> returns: not NULL, and no block.\<close>

abbreviation (input) ZERO_SIZE_PTR :: ptr where "ZERO_SIZE_PTR \<equiv> 16"

definition heap_ok :: "heap \<Rightarrow> bool" where
  "heap_ok h \<longleftrightarrow> h NULL = None \<and> h ZERO_SIZE_PTR = None"

definition fresh_ptr :: "heap \<Rightarrow> ptr \<Rightarrow> bool" where
  "fresh_ptr h p \<longleftrightarrow> h p = None \<and> p \<noteq> NULL \<and> p \<noteq> ZERO_SIZE_PTR"

definition alloc_ok :: "kernel \<Rightarrow> bool" where
  "alloc_ok k \<longleftrightarrow>
     (\<forall>h n. kmalloc_ptr k h n = NULL \<or> fresh_ptr h (kmalloc_ptr k h n)) \<and>
     (\<forall>h p n. krealloc_ptr k h p n = NULL \<or> krealloc_ptr k h p n = p \<or> fresh_ptr h (krealloc_ptr k h p n))"

section \<open>Allocation\<close>

definition uninit_block :: "kernel \<Rightarrow> size_t \<Rightarrow> byte list" where
  "uninit_block k n = map (uninit k) [0..<unat n]"

definition kmalloc :: "kernel \<Rightarrow> size_t \<Rightarrow> heap \<Rightarrow> ptr \<times> heap" where
  "kmalloc k n h =
     (if n = 0 then (ZERO_SIZE_PTR, h)
      else let p = kmalloc_ptr k h n in
           if p = NULL then (NULL, h) else (p, h(p \<mapsto> uninit_block k n)))"

definition kfree :: "ptr \<Rightarrow> heap \<Rightarrow> heap outcome" where
  "kfree p h =
     (if p = NULL \<or> p = ZERO_SIZE_PTR then Inr h
      else if h p = None then Inl Bad_Free else Inr (h(p := None)))"

text \<open>
  \<open>krealloc\<close> keeps the old bytes up to the shorter of the two sizes; when the block moves, the
  old one is freed. On failure the old block stays.
\<close>

definition krealloc :: "kernel \<Rightarrow> ptr \<Rightarrow> size_t \<Rightarrow> heap \<Rightarrow> (ptr \<times> heap) outcome" where
  "krealloc k p n h =
     (if p = NULL \<or> p = ZERO_SIZE_PTR then Inr (kmalloc k n h)
      else if n = 0 then bindR (kfree p h) (\<lambda>h'. Inr (ZERO_SIZE_PTR, h'))
      else case h p of
        None \<Rightarrow> Inl Dead_Block
      | Some old \<Rightarrow>
          let q = krealloc_ptr k h p n in
          if q = NULL then Inr (NULL, h)
          else Inr (q, (h(p := None))(q \<mapsto>
            take (unat n) old @ drop (length old) (uninit_block k n))))"

section \<open>Access\<close>

definition load :: "ptr \<Rightarrow> nat \<Rightarrow> nat \<Rightarrow> heap \<Rightarrow> byte list outcome" where
  "load p off n h =
     (if n = 0 then Inr []
      else case h p of
        None \<Rightarrow> Inl Dead_Block
      | Some bs \<Rightarrow> if off + n \<le> length bs then Inr (take n (drop off bs)) else Inl Out_Of_Bounds)"

definition store :: "ptr \<Rightarrow> nat \<Rightarrow> byte list \<Rightarrow> heap \<Rightarrow> heap outcome" where
  "store p off new h =
     (if new = [] then Inr h
      else case h p of
        None \<Rightarrow> Inl Dead_Block
      | Some bs \<Rightarrow>
          if off + length new \<le> length bs
          then Inr (h(p \<mapsto> take off bs @ new @ drop (off + length new) bs))
          else Inl Out_Of_Bounds)"

definition memcpy :: "ptr \<Rightarrow> nat \<Rightarrow> ptr \<Rightarrow> nat \<Rightarrow> nat \<Rightarrow> heap \<Rightarrow> heap outcome" where
  "memcpy dst doff src soff n h = bindR (load src soff n h) (\<lambda>bs. store dst doff bs h)"

section \<open>User space\<close>

text \<open>
  A user pointer is given by what can be reached through it: for a source the bytes that can be
  read, for a destination the number of bytes that can be written. Both copies return the number
  of bytes not copied.
\<close>

definition copy_from_user :: "ptr \<Rightarrow> byte list \<Rightarrow> size_t \<Rightarrow> heap \<Rightarrow> (nat \<times> heap) outcome" where
  "copy_from_user dst src n h =
     bindR (store dst 0 (take (unat n) src) h) (\<lambda>h'. Inr (unat n - length src, h'))"

definition copy_to_user :: "nat \<Rightarrow> byte list \<Rightarrow> nat \<times> byte list" where
  "copy_to_user room src = (length src - room, take room src)"

section \<open>Facts\<close>

lemma alloc_ok_kmalloc: "alloc_ok k \<Longrightarrow> kmalloc_ptr k h n \<noteq> NULL \<Longrightarrow> fresh_ptr h (kmalloc_ptr k h n)"
  unfolding alloc_ok_def by metis

lemma alloc_ok_krealloc:
  "alloc_ok k \<Longrightarrow> krealloc_ptr k h p n \<noteq> NULL \<Longrightarrow> krealloc_ptr k h p n \<noteq> p \<Longrightarrow>
    fresh_ptr h (krealloc_ptr k h p n)"
  unfolding alloc_ok_def by metis

lemma length_uninit_block [simp]: "length (uninit_block k n) = unat n"
  by (simp add: uninit_block_def)

lemma load_whole [heap_simps]: "h p = Some bs \<Longrightarrow> load p 0 (length bs) h = Inr bs"
  by (simp add: load_def)

lemma load_range [heap_simps]:
  "h p = Some bs \<Longrightarrow> off + n \<le> length bs \<Longrightarrow> load p off n h = Inr (take n (drop off bs))"
  by (simp add: load_def)

lemma store_prefix [heap_simps]:
  "h p = Some bs \<Longrightarrow> length bs = length new \<Longrightarrow> store p 0 new h = Inr (h(p \<mapsto> new))"
  by (auto simp: store_def fun_upd_idem)

lemma store_append [heap_simps]:
  "h p = Some (xs @ junk) \<Longrightarrow> length junk = length new \<Longrightarrow>
    store p (length xs) new h = Inr (h(p \<mapsto> xs @ new))"
  by (auto simp: store_def fun_upd_idem)

lemma kfree_live [heap_simps]:
  "h p \<noteq> None \<Longrightarrow> heap_ok h \<Longrightarrow> kfree p h = Inr (h(p := None))"
  by (auto simp: kfree_def heap_ok_def)

lemma heap_ok_live: "heap_ok h \<Longrightarrow> h p \<noteq> None \<Longrightarrow> p \<noteq> NULL \<and> p \<noteq> ZERO_SIZE_PTR"
  by (metis heap_ok_def)

lemma heap_ok_upd: "heap_ok h \<Longrightarrow> fresh_ptr h p \<Longrightarrow> heap_ok (h(p := v))"
  by (auto simp: heap_ok_def fresh_ptr_def)

lemma heap_ok_live_upd: "heap_ok h \<Longrightarrow> h p \<noteq> None \<Longrightarrow> heap_ok (h(p := v))"
  by (auto simp: heap_ok_def)

end
