(* ===== verification/Aesd_Driver.thy ===== *)
theory Aesd_Driver imports Main Aesd_Prelude Circular_Buffer Kernel_Memory begin

text \<open>
  The character device driver, \<^verbatim>\<open>aesd-char-driver/main.c\<close> with \<^verbatim>\<open>aesdchar.h\<close> and
  \<^verbatim>\<open>aesd_ioctl.h\<close>: the device, the file operations, each as one definition from the call to
  its return, and the module's entry and exit. This theory holds the definitions only; what they
  satisfy is in the theories that import it.

  A handler returns the value the C returns, the file position it leaves and the new state, or a
  fault. \<open>me\<close> is the calling task. The mutex is its owner.
\<close>

section \<open>State\<close>

record aesd_dev =
  buffer :: aesd_circular_buffer
  dev_entry :: aesd_buffer_entry \<comment> \<open>the field \<open>entry\<close>: the write command under way\<close>
  lock :: "tid option"

record kstate =
  heap :: heap
  dev :: aesd_dev

record open_file =
  f_pos :: loff_t
  private_data :: ptr

record aesd_seekto =
  write_cmd :: uint32_t
  write_cmd_offset :: uint32_t

section \<open>The mutex\<close>

text \<open>Whether the call returns nonzero (interrupted), and the state with the mutex taken otherwise.\<close>

definition mutex_lock_interruptible :: "kernel \<Rightarrow> tid \<Rightarrow> kstate \<Rightarrow> (bool \<times> kstate) outcome" where
  "mutex_lock_interruptible k me s =
     (if lock_interrupted k then Inr (True, s)
      else case lock (dev s) of
        None \<Rightarrow> Inr (False, s\<lparr>dev := (dev s)\<lparr>lock := Some me\<rparr>\<rparr>)
      | Some _ \<Rightarrow> Inl Would_Block)"

definition mutex_unlock :: "tid \<Rightarrow> kstate \<Rightarrow> kstate outcome" where
  "mutex_unlock me s =
     (if lock (dev s) = Some me then Inr (s\<lparr>dev := (dev s)\<lparr>lock := None\<rparr>\<rparr>) else Inl Bad_Unlock)"

section \<open>Open and release\<close>

text \<open>\<open>container_of\<close> is the address of the \<open>cdev\<close> less its offset in the structure.\<close>

definition aesd_open :: "64 word \<Rightarrow> 64 word \<Rightarrow> open_file \<Rightarrow> 64 word \<times> open_file" where
  "aesd_open i_cdev cdev_offset filp =
     (let d = i_cdev - cdev_offset in
      if d = 0 then (- ENODEV, filp) else (0, filp\<lparr>private_data := unat d\<rparr>))"

definition aesd_release :: "open_file \<Rightarrow> 64 word \<times> open_file" where
  "aesd_release filp = (0, filp)"

section \<open>Read\<close>

text \<open>
  The part of \<open>aesd_read\<close> under the mutex, up to the label \<open>out\<close>. \<open>room\<close> is the number of bytes
  that can be written through \<open>buf\<close>; the third component of the result is what was.
\<close>

definition read_locked ::
  "nat \<Rightarrow> size_t \<Rightarrow> loff_t \<Rightarrow> kstate \<Rightarrow> (ssize_t \<times> loff_t \<times> byte list) outcome" where
  "read_locked room count pos s =
     bindR (aesd_circular_buffer_find_entry_offset_for_fpos (Some (buffer (dev s))) pos (Some 0))
       (\<lambda>(found, entry_offset).
          case (found, entry_offset) of
            (Some v, Some off) \<Rightarrow>
              let e = entry (buffer (dev s)) ! v;
                  bytes_to_read = min count (entry_size e - off)
              in bindR (load (buffptr e) (unat off) (unat bytes_to_read) (heap s))
                   (\<lambda>src. let (bytes_not_copied, copied) = copy_to_user room src in
                      if bytes_not_copied \<noteq> 0 then Inr (- EFAULT, pos, copied)
                      else Inr (bytes_to_read, pos + bytes_to_read, copied))
          | _ \<Rightarrow> Inr (0, pos, []))"

definition aesd_read ::
  "kernel \<Rightarrow> tid \<Rightarrow> open_file \<Rightarrow> nat \<Rightarrow> size_t \<Rightarrow> loff_t \<Rightarrow> kstate \<Rightarrow>
   (ssize_t \<times> loff_t \<times> byte list \<times> kstate) outcome" where
  "aesd_read k me filp room count pos s =
     (if private_data filp = NULL then Inl Null_Deref
      else bindR (mutex_lock_interruptible k me s) (\<lambda>(interrupted, s1).
        if interrupted then Inr (- ERESTARTSYS, pos, [], s1)
        else bindR (read_locked room count pos s1) (\<lambda>(retval, pos', copied).
          bindR (mutex_unlock me s1) (\<lambda>s2. Inr (retval, pos', copied, s2)))))"

section \<open>Write\<close>

text \<open>
  Joining the new bytes to the write command under way: the branch \<open>else\<close> of the test for NULL.
  \<open>None\<close> is the return through \<open>-ENOMEM\<close>. The first \<open>memcpy\<close> reads through
  \<open>dev->entry.buffptr\<close>, the pointer that was given to \<open>krealloc\<close>.
\<close>

definition append_pending ::
  "kernel \<Rightarrow> ptr \<Rightarrow> size_t \<Rightarrow> aesd_buffer_entry \<Rightarrow> heap \<Rightarrow> (ptr option \<times> heap) outcome" where
  "append_pending k new_buff count e h =
     bindR (krealloc k (buffptr e) (entry_size e + count) h) (\<lambda>(combined_buff, h1).
       if combined_buff = NULL then bindR (kfree new_buff h1) (\<lambda>h2. Inr (None, h2))
       else bindR (memcpy combined_buff 0 (buffptr e) 0 (esize e) h1) (\<lambda>h2.
            bindR (memcpy combined_buff (esize e) new_buff 0 (unat count) h2) (\<lambda>h3.
            bindR (kfree new_buff h3) (\<lambda>h4. Inr (Some combined_buff, h4)))))"

text \<open>The end of the write: the size, the test of the last byte, and the ring.\<close>

definition finish_write ::
  "size_t \<Rightarrow> loff_t \<Rightarrow> ptr \<Rightarrow> kstate \<Rightarrow> (ssize_t \<times> loff_t \<times> kstate) outcome" where
  "finish_write count pos p s =
     (let e = \<lparr>buffptr = p, entry_size = entry_size (dev_entry (dev s)) + count\<rparr> in
      bindR (load p (unat (entry_size e - 1)) 1 (heap s)) (\<lambda>c.
        if c = [newline] then
          bindR (aesd_circular_buffer_add_entry (Some (buffer (dev s))) (Some e)) (\<lambda>b.
            Inr (count, pos + count,
                 s\<lparr>dev := (dev s)\<lparr>buffer := the b, dev_entry := \<lparr>buffptr = NULL, entry_size = 0\<rparr>\<rparr>\<rparr>))
        else Inr (count, pos + count, s\<lparr>dev := (dev s)\<lparr>dev_entry := e\<rparr>\<rparr>)))"

text \<open>The part of \<open>aesd_write\<close> under the mutex, up to the label \<open>out\<close>.\<close>

definition write_locked ::
  "kernel \<Rightarrow> byte list \<Rightarrow> size_t \<Rightarrow> loff_t \<Rightarrow> kstate \<Rightarrow> (ssize_t \<times> loff_t \<times> kstate) outcome" where
  "write_locked k buf count pos s =
     (let (new_buff, h1) = kmalloc k count (heap s) in
      if new_buff = NULL then Inr (- ENOMEM, pos, s\<lparr>heap := h1\<rparr>)
      else bindR (copy_from_user new_buff buf count h1) (\<lambda>(bytes_not_copied, h2).
        if bytes_not_copied \<noteq> 0
        then bindR (kfree new_buff h2) (\<lambda>h3. Inr (- EFAULT, pos, s\<lparr>heap := h3\<rparr>))
        else if buffptr (dev_entry (dev s)) = NULL
        then finish_write count pos new_buff (s\<lparr>heap := h2\<rparr>)
        else bindR (append_pending k new_buff count (dev_entry (dev s)) h2) (\<lambda>(joined, h3).
          case joined of
            None \<Rightarrow> Inr (- ENOMEM, pos, s\<lparr>heap := h3\<rparr>)
          | Some combined_buff \<Rightarrow> finish_write count pos combined_buff (s\<lparr>heap := h3\<rparr>))))"

text \<open>An interrupted \<open>aesd_write\<close> goes to \<open>out\<close> too, and unlocks.\<close>

definition aesd_write ::
  "kernel \<Rightarrow> tid \<Rightarrow> open_file \<Rightarrow> byte list \<Rightarrow> size_t \<Rightarrow> loff_t \<Rightarrow> kstate \<Rightarrow>
   (ssize_t \<times> loff_t \<times> kstate) outcome" where
  "aesd_write k me filp buf count pos s =
     (if private_data filp = NULL then Inl Null_Deref
      else bindR (mutex_lock_interruptible k me s) (\<lambda>(interrupted, s1).
        bindR (if interrupted then Inr (- ERESTARTSYS, pos, s1) else write_locked k buf count pos s1)
          (\<lambda>(retval, pos', s2). bindR (mutex_unlock me s2) (\<lambda>s3. Inr (retval, pos', s3)))))"

section \<open>Seek\<close>

text \<open>
  \<open>get_buffer_size\<close>: the sizes of all ten slots. An interrupted lock goes to \<open>out\<close>, and unlocks.
\<close>

definition get_buffer_size :: "kernel \<Rightarrow> tid \<Rightarrow> kstate \<Rightarrow> (ssize_t \<times> kstate) outcome" where
  "get_buffer_size k me s =
     bindR (mutex_lock_interruptible k me s) (\<lambda>(interrupted, s1).
       let buffer_size =
         (if interrupted then - ENOMEM
          else foldl (\<lambda>n i. n + entry_size (entry (buffer (dev s1)) ! i)) 0 [0..<MAX_OPS])
       in bindR (mutex_unlock me s1) (\<lambda>s2. Inr (buffer_size, s2)))"

abbreviation (input) SEEK_SET :: int where "SEEK_SET \<equiv> 0"
abbreviation (input) SEEK_CUR :: int where "SEEK_CUR \<equiv> 1"
abbreviation (input) SEEK_END :: int where "SEEK_END \<equiv> 2"

definition aesd_llseek ::
  "kernel \<Rightarrow> tid \<Rightarrow> loff_t \<Rightarrow> int \<Rightarrow> open_file \<Rightarrow> kstate \<Rightarrow> (loff_t \<times> open_file \<times> kstate) outcome" where
  "aesd_llseek k me off_set whence filp s =
     (if private_data filp = NULL then Inl Null_Deref
      else bindR (get_buffer_size k me s) (\<lambda>(dev_size, s1).
        let newpos =
          (if whence = SEEK_SET then Some off_set
           else if whence = SEEK_CUR then Some (f_pos filp + off_set)
           else if whence = SEEK_END then Some (dev_size + off_set)
           else None)
        in case newpos of
             None \<Rightarrow> Inr (- EINVAL, filp, s1)
           | Some p \<Rightarrow>
               if sint p < 0 \<or> sint p > sint dev_size then Inr (- EINVAL, filp, s1)
               else Inr (p, filp\<lparr>f_pos := p\<rparr>, s1)))"

section \<open>The seek command\<close>

text \<open>The encoding of the kernel's \<open>_IOWR\<close>: direction, size, type and number.\<close>

definition IOWR :: "nat \<Rightarrow> nat \<Rightarrow> nat \<Rightarrow> uint32_t" where
  "IOWR type nr sz = of_nat (3 * 2 ^ 30 + sz * 2 ^ 16 + type * 2 ^ 8 + nr)"

definition AESDCHAR_IOCSEEKTO :: uint32_t where
  "AESDCHAR_IOCSEEKTO = IOWR 0x16 1 8"

text \<open>
  \<open>arg\<close> is the structure the user pointer leads to, \<open>None\<close> when it cannot be copied whole. The
  sum runs over the slots of the ring from slot zero. The handler takes no lock.
\<close>

definition aesd_ioctl ::
  "uint32_t \<Rightarrow> aesd_seekto option \<Rightarrow> open_file \<Rightarrow> kstate \<Rightarrow> (64 word \<times> open_file) outcome" where
  "aesd_ioctl cmd arg filp s =
     (if cmd = AESDCHAR_IOCSEEKTO then
        case arg of
          None \<Rightarrow> Inr (- EFAULT, filp)
        | Some seekto \<Rightarrow>
            if unat (write_cmd seekto) \<ge> MAX_OPS then Inr (- EINVAL, filp)
            else if private_data filp = NULL then Inl Null_Deref
            else
              let slots = entry (buffer (dev s));
                  newpos = foldl (\<lambda>p i. p + entry_size (slots ! i)) 0 [0..<unat (write_cmd seekto)]
              in if ucast (write_cmd_offset seekto) \<ge> entry_size (slots ! unat (write_cmd seekto))
                 then Inr (- EINVAL, filp)
                 else Inr (0, filp\<lparr>f_pos := newpos + ucast (write_cmd_offset seekto)\<rparr>)
      else Inr (- ENOTTY, filp))"

end
