(* ===== verification/Driver_Log.thy ===== *)
theory Driver_Log imports Main Aesd_Prelude Circular_Buffer Kernel_Memory Aesd_Driver begin

text \<open>
  What the device promises: a log of the last ten write commands and the command under way
  (\<open>cmd_log\<close>), with the operations on it; the invariant of the driver's state, and the log that a
  state stands for. The invariant says that every entry the device refers to is a live block of
  the size the entry records and that no block is referred to twice.
\<close>

section \<open>The abstract device\<close>

record cmd_log =
  cmds :: "byte list list"
  pending :: "byte list"

text \<open>A write whose last byte is a newline completes the command.\<close>

definition log_write :: "byte list \<Rightarrow> cmd_log \<Rightarrow> cmd_log" where
  "log_write data l =
     (let p = pending l @ data in
      if last p = newline then \<lparr>cmds = last_n MAX_OPS (cmds l @ [p]), pending = []\<rparr>
      else l\<lparr>pending := p\<rparr>)"

text \<open>A read ends at the end of the command that holds the position, if not before.\<close>

definition log_read :: "nat \<Rightarrow> nat \<Rightarrow> cmd_log \<Rightarrow> byte list" where
  "log_read count pos l =
     (case locate length (cmds l) pos of None \<Rightarrow> [] | Some (c, k) \<Rightarrow> take count (drop k c))"

definition contents :: "cmd_log \<Rightarrow> byte list" where
  "contents l = concat (cmds l)"

section \<open>Invariant\<close>

definition block_of :: "heap \<Rightarrow> aesd_buffer_entry \<Rightarrow> byte list" where
  "block_of h e = (case h (buffptr e) of Some bs \<Rightarrow> bs | None \<Rightarrow> [])"

definition holds :: "heap \<Rightarrow> aesd_buffer_entry \<Rightarrow> bool" where
  "holds h e \<longleftrightarrow> (case h (buffptr e) of Some bs \<Rightarrow> length bs = esize e | None \<Rightarrow> False)"

abbreviation ring_of :: "kstate \<Rightarrow> aesd_buffer_entry list" where
  "ring_of s \<equiv> ring_entries (buffer (dev s))"

definition owned_pending :: "kstate \<Rightarrow> ptr list" where
  "owned_pending s =
     (if buffptr (dev_entry (dev s)) = NULL then [] else [buffptr (dev_entry (dev s))])"

definition owned :: "kstate \<Rightarrow> ptr list" where
  "owned s = map buffptr (ring_of s) @ owned_pending s"

definition pending_ok :: "kstate \<Rightarrow> bool" where
  "pending_ok s \<longleftrightarrow>
     (if buffptr (dev_entry (dev s)) = NULL then entry_size (dev_entry (dev s)) = 0
      else holds (heap s) (dev_entry (dev s)) \<and> nonempty (dev_entry (dev s)))"

definition drv_inv :: "kstate \<Rightarrow> bool" where
  "drv_inv s \<longleftrightarrow>
     heap_ok (heap s) \<and> ring_inv (buffer (dev s)) \<and> list_all (holds (heap s)) (ring_of s) \<and>
     pending_ok s \<and> distinct (owned s)"

definition drv_abs :: "kstate \<Rightarrow> cmd_log" where
  "drv_abs s =
     \<lparr>cmds = map (block_of (heap s)) (ring_of s),
      pending = (if buffptr (dev_entry (dev s)) = NULL then []
                 else block_of (heap s) (dev_entry (dev s)))\<rparr>"

text \<open>The bytes the device stores, completed or not.\<close>

definition stored :: "kstate \<Rightarrow> nat" where
  "stored s = sum_list (map esize (ring_of s)) + esize (dev_entry (dev s))"

section \<open>Facts\<close>

lemma holds_iff: "holds h e \<longleftrightarrow> (\<exists>bs. h (buffptr e) = Some bs \<and> length bs = esize e)"
  by (auto simp: holds_def split: option.splits)

lemma holds_block: "holds h e \<Longrightarrow> h (buffptr e) = Some (block_of h e)"
  by (auto simp: holds_def block_of_def split: option.splits)

lemma length_block_of: "holds h e \<Longrightarrow> length (block_of h e) = esize e"
  by (auto simp: holds_def block_of_def split: option.splits)

lemma holds_upd_other: "buffptr e \<noteq> p \<Longrightarrow> holds (h(p := v)) e = holds h e"
  by (simp add: holds_def)

lemma block_of_upd_other: "buffptr e \<noteq> p \<Longrightarrow> block_of (h(p := v)) e = block_of h e"
  by (simp add: block_of_def)

lemma drv_invD:
  assumes "drv_inv s"
  shows "heap_ok (heap s)" and "ring_inv (buffer (dev s))" and "pending_ok s"
    and "\<And>e. e \<in> set (ring_of s) \<Longrightarrow> holds (heap s) e" and "distinct (owned s)"
    and "distinct (map buffptr (ring_of s))"
  using assms by (auto simp: drv_inv_def list_all_iff owned_def)

text \<open>The mutex plays no part in the invariant or in the log.\<close>

lemma drv_inv_lock [simp]: "drv_inv (s\<lparr>dev := (dev s)\<lparr>lock := x\<rparr>\<rparr>) = drv_inv s"
  by (simp add: drv_inv_def pending_ok_def owned_def owned_pending_def)

lemma drv_abs_lock [simp]: "drv_abs (s\<lparr>dev := (dev s)\<lparr>lock := x\<rparr>\<rparr>) = drv_abs s"
  by (simp add: drv_abs_def)

lemma locate_cmds:
  assumes "drv_inv s"
  shows "locate length (cmds (drv_abs s)) pos
    = map_option (apfst (block_of (heap s))) (locate esize (ring_of s) pos)"
proof -
  have "locate (length \<circ> block_of (heap s)) (ring_of s) pos = locate esize (ring_of s) pos"
    using drv_invD(4) [OF assms] by (intro locate_cong) (simp add: length_block_of)
  then show ?thesis by (simp add: drv_abs_def locate_map)
qed

lemma length_contents:
  assumes "drv_inv s"
  shows "length (contents (drv_abs s)) = sum_list (map esize (ring_of s))"
proof -
  have "map (length \<circ> block_of (heap s)) (ring_of s) = map esize (ring_of s)"
    using drv_invD(4) [OF assms] by (simp add: length_block_of)
  then show ?thesis by (simp only: contents_def drv_abs_def length_concat cmd_log.simps map_map)
qed

lemma cmds_nonempty: "drv_inv s \<Longrightarrow> c \<in> set (cmds (drv_abs s)) \<Longrightarrow> c \<noteq> []"
proof -
  assume inv: "drv_inv s" and "c \<in> set (cmds (drv_abs s))"
  then obtain e where e: "e \<in> set (ring_of s)" "c = block_of (heap s) e"
    by (auto simp: drv_abs_def)
  then have "length c = esize e" "nonempty e"
    using drv_invD(4) [OF inv] by (auto simp: length_block_of ring_entries_nonempty)
  then show "c \<noteq> []" by (auto simp: unat_eq_zero)
qed

text \<open>The bytes of a read are the next bytes of the contents.\<close>

lemma log_read_prefix:
  "\<exists>rest. drop pos (contents l) = log_read count pos l @ rest"
proof (cases "locate length (cmds l) pos")
  case None
  then show ?thesis by (simp add: log_read_def)
next
  case (Some ck)
  obtain c k where ck: "ck = (c, k)" by (cases ck)
  from Some ck obtain zss where "drop pos (contents l) = drop k c @ concat zss"
    using locate_drop_concat unfolding contents_def by blast
  then have "drop pos (contents l) = take count (drop k c) @ drop count (drop k c) @ concat zss"
    by (metis append_assoc append_take_drop_id)
  with Some ck show ?thesis by (auto simp: log_read_def)
qed

lemma log_read_nonempty:
  assumes "pos < length (contents l)" and "0 < count"
  shows "log_read count pos l \<noteq> []"
proof -
  have "locate length (cmds l) pos \<noteq> None"
    using assms(1) by (simp add: locate_None_iff contents_def length_concat)
  then obtain c k where ck: "locate length (cmds l) pos = Some (c, k)" by auto
  then have "k < length c" using locate_SomeD by fastforce
  with ck assms(2) show ?thesis by (simp add: log_read_def)
qed

lemma log_read_past_end: "length (contents l) \<le> pos \<Longrightarrow> log_read count pos l = []"
  using locate_None_iff [of length "cmds l" pos]
  by (simp add: contents_def length_concat log_read_def)

end
