(* ===== verification/Driver_Read.thy ===== *)
theory Driver_Read imports Main Driver_Log begin

text \<open>
  \<open>aesd_read\<close> against the log: one call, the errors, and the loop of a user program that reads
  until the driver returns zero.
\<close>

section \<open>One read\<close>

text \<open>The state while \<open>me\<close> holds the mutex.\<close>

abbreviation locked :: "tid \<Rightarrow> kstate \<Rightarrow> kstate" where
  "locked me s \<equiv> s\<lparr>dev := (dev s)\<lparr>lock := Some me\<rparr>\<rparr>"

lemma lock_free:
  "\<not> lock_interrupted k \<Longrightarrow> lock (dev s) = None \<Longrightarrow>
    mutex_lock_interruptible k me s = Inr (False, locked me s)"
  by (simp add: mutex_lock_interruptible_def)

lemma lock_interrupted_eq: "lock_interrupted k \<Longrightarrow> mutex_lock_interruptible k me s = Inr (True, s)"
  by (simp add: mutex_lock_interruptible_def)

lemma unlock_locked: "lock (dev s) = None \<Longrightarrow> mutex_unlock me (locked me s) = Inr s"
  by (simp add: mutex_unlock_def)

lemmas lock_simps = lock_free lock_interrupted_eq unlock_locked

text \<open>What the locked part finds: nothing, or a live block and the bytes wanted from it.\<close>

lemma read_locked_miss:
  assumes inv: "drv_inv s" and fits: "stored s < 2 ^ 63"
    and miss: "locate esize (ring_of s) (unat pos) = None"
  shows "read_locked room count pos s = Inr (0, pos, [])"
proof -
  have "aesd_circular_buffer_find_entry_offset_for_fpos (Some (buffer (dev s))) pos (Some 0)
      = Inr (None, Some 0)"
    using inv fits miss by (intro ring.find_miss) (simp_all add: drv_inv_def stored_def)
  then show ?thesis by (simp add: read_locked_def)
qed

lemma read_locked_hit:
  assumes inv: "drv_inv s" and fits: "stored s < 2 ^ 63"
    and hit: "locate esize (ring_of s) (unat pos) = Some (e, i)"
  shows "read_locked room count pos s =
    (let src = take (unat count) (drop i (block_of (heap s) e)) in
     if length src \<le> room then Inr (of_nat (length src), pos + of_nat (length src), src)
     else Inr (- EFAULT, pos, take room src))"
proof -
  obtain v byte where
    find: "aesd_circular_buffer_find_entry_offset_for_fpos (Some (buffer (dev s))) pos (Some 0)
      = Inr (Some v, Some byte)" and v: "entry (buffer (dev s)) ! v = e" and byte: "unat byte = i"
    using ring.find_hit [of "buffer (dev s)" pos e i 0] inv fits hit
    by (auto simp: drv_inv_def stored_def)
  from locate_SomeD [OF hit] have e: "e \<in> set (ring_of s)" and i: "i < esize e" by auto
  let ?bs = "block_of (heap s) e"
  have h: "heap s (buffptr e) = Some ?bs" and len: "length ?bs = esize e"
    using drv_invD(4) [OF inv e] by (auto simp: holds_block length_block_of)
  let ?n = "min count (entry_size e - byte)"
  have sub: "unat (entry_size e - byte) = esize e - i"
    using i byte by (simp add: unat_sub word_le_nat_alt)
  define src where "src = take (unat count) (drop i ?bs)"
  have n: "unat ?n = length src"
    using sub len by (simp add: src_def min_def word_le_nat_alt)
  have "take (unat ?n) (drop i ?bs) = src"
    unfolding n src_def by (simp add: min_def)
  moreover have "i + unat ?n \<le> length ?bs"
    using i len n by (simp add: src_def)
  ultimately have load: "load (buffptr e) i (unat ?n) (heap s) = Inr src"
    using h by (simp add: load_range)
  have n': "?n = of_nat (length src)"
    unfolding n [symmetric] by simp
  show ?thesis
    using load unfolding read_locked_def find n' src_def [symmetric]
    by (cases "length src \<le> room") (simp_all add: v byte copy_to_user_def Let_def n')
qed

text \<open>One locked read is the log's read, with the copy to user space deciding the outcome.\<close>

lemma read_locked_log:
  assumes inv: "drv_inv s" and fits: "stored s < 2 ^ 63"
  shows "read_locked room count pos s =
    (let src = log_read (unat count) (unat pos) (drv_abs s) in
     if length src \<le> room then Inr (of_nat (length src), pos + of_nat (length src), src)
     else Inr (- EFAULT, pos, take room src))"
proof (cases "locate esize (ring_of s) (unat pos)")
  case None
  with read_locked_miss [OF inv fits None] show ?thesis
    by (simp add: log_read_def locate_cmds [OF inv])
next
  case (Some ei)
  obtain e i where ei: "ei = (e, i)" by (cases ei)
  with Some have "locate esize (ring_of s) (unat pos) = Some (e, i)" by simp
  from read_locked_hit [OF inv fits this] this show ?thesis
    by (simp add: log_read_def locate_cmds [OF inv] Let_def)
qed

lemma aesd_read_eq:
  assumes "\<not> lock_interrupted k" and "lock (dev s) = None" and "private_data filp \<noteq> NULL"
  shows "aesd_read k me filp room count pos s =
    bindR (read_locked room count pos (locked me s))
      (\<lambda>(retval, pos', copied). Inr (retval, pos', copied, s))"
  using assms by (auto simp: aesd_read_def lock_simps intro!: arg_cong [of _ _ "bindR _"])

lemma stored_locked [simp]: "stored (s\<lparr>dev := (dev s)\<lparr>lock := x\<rparr>\<rparr>) = stored s"
  by (simp add: stored_def)

lemma aesd_read_log:
  assumes "drv_inv s" and "stored s < 2 ^ 63" and "\<not> lock_interrupted k"
    and "lock (dev s) = None" and "private_data filp \<noteq> NULL"
  shows "aesd_read k me filp room count pos s =
    (let src = log_read (unat count) (unat pos) (drv_abs s) in
     if length src \<le> room then Inr (of_nat (length src), pos + of_nat (length src), src, s)
     else Inr (- EFAULT, pos, take room src, s))"
  using read_locked_log [of "locked me s" room count pos] assms
  by (simp add: aesd_read_eq Let_def)

section \<open>Properties of reads\<close>

text \<open>
  C7. A read of an open device returns the bytes of the log from the file position on, as many as
  asked for but never past the end of the command that holds the position; it advances the
  position by what it returns, returns zero at the end of the contents, and leaves the device
  as it was. When user space cannot take them all it returns \<open>-EFAULT\<close> and the position stays.
\<close>

theorem aesd_read_refines_log:
  assumes "drv_inv s" and "stored s < 2 ^ 63" and "\<not> lock_interrupted k"
    and "lock (dev s) = None" and "private_data filp \<noteq> NULL"
  shows "aesd_read k me filp room count pos s =
    (let src = log_read (unat count) (unat pos) (drv_abs s) in
     if length src \<le> room then Inr (of_nat (length src), pos + of_nat (length src), src, s)
     else Inr (- EFAULT, pos, take room src, s))"
  using assms by (rule aesd_read_log)

text \<open>A device with two commands, for the examples.\<close>

definition example_kernel :: kernel where
  "example_kernel = \<lparr>lock_interrupted = False, kmalloc_ptr = \<lambda>h _. if h 300 = None then 300 else 0,
     krealloc_ptr = \<lambda>_ p _. p, uninit = \<lambda>_. CHR ''?''\<rparr>"

definition example_state :: kstate where
  "example_state =
     \<lparr>heap = [100 \<mapsto> ''ab'' @ [newline], 200 \<mapsto> ''cde'' @ [newline]],
      dev = \<lparr>buffer = \<lparr>entry = [\<lparr>buffptr = 100, entry_size = 3\<rparr>, \<lparr>buffptr = 200, entry_size = 4\<rparr>]
                 @ replicate 8 zero_entry, in_offs = 2, out_offs = 0, full = False\<rparr>,
             dev_entry = zero_entry, lock = None\<rparr>\<rparr>"

lemma example_ring:
  "ring_of example_state = [\<lparr>buffptr = 100, entry_size = 3\<rparr>, \<lparr>buffptr = 200, entry_size = 4\<rparr>]"
  by (simp add: example_state_def ring_entries_def)

lemma example_inv: "drv_inv example_state"
  unfolding drv_inv_def owned_def example_ring
  by (simp add: example_state_def heap_ok_def ring_inv_def ring_filling_def holds_def
      pending_ok_def owned_pending_def)

lemma example_stored: "stored example_state = 7"
  unfolding stored_def example_ring by (simp add: example_state_def)

lemma example_abs:
  "drv_abs example_state = \<lparr>cmds = [''ab'' @ [newline], ''cde'' @ [newline]], pending = []\<rparr>"
  unfolding drv_abs_def example_ring by (simp add: example_state_def block_of_def)

theorem aesd_read_refines_log_witness:
  "aesd_read example_kernel 1 \<lparr>f_pos = 4, private_data = 5000\<rparr> 100 100 4 example_state =
    Inr (3, 7, ''de'' @ [newline], example_state)"
  using aesd_read_refines_log [OF example_inv, of example_kernel
      "\<lparr>f_pos = 4, private_data = 5000\<rparr>" 1 100 100 4]
  by (simp add: example_stored example_abs log_read_def Let_def)
    (simp add: example_kernel_def example_state_def)

end
