(* ===== verification/Driver_Write.thy ===== *)
theory Driver_Write imports Main Driver_Read begin

text \<open>
  \<open>aesd_write\<close> against the log: the simulation, the error returns, the write whose \<open>krealloc\<close>
  moves the block, the write of zero bytes, and the blocks nobody owns any more.
\<close>

section \<open>The end of a write\<close>

text \<open>
  The state that a write leaves when the joined bytes are in the block \<open>p\<close>: either the command goes
  to the ring or the block becomes the command under way.
\<close>

definition installed :: "ptr \<Rightarrow> size_t \<Rightarrow> bool \<Rightarrow> kstate \<Rightarrow> kstate" where
  "installed p n complete s =
     (if complete
      then s\<lparr>dev := (dev s)\<lparr>buffer := ring_add (buffer (dev s)) \<lparr>buffptr = p, entry_size = n\<rparr>,
                            dev_entry := zero_entry\<rparr>\<rparr>
      else s\<lparr>dev := (dev s)\<lparr>dev_entry := \<lparr>buffptr = p, entry_size = n\<rparr>\<rparr>\<rparr>)"

lemma finish_write_eq:
  assumes ring: "ring_inv (buffer (dev s))"
    and block: "heap s p = Some bs" and bs: "bs \<noteq> []"
    and size: "unat (entry_size (dev_entry (dev s)) + count) = length bs"
  shows "finish_write count pos p s = Inr (count, pos + count,
    installed p (entry_size (dev_entry (dev s)) + count) (last bs = newline) s)"
proof -
  let ?n = "entry_size (dev_entry (dev s)) + count"
  have "unat (?n - 1) = length bs - 1"
    using size bs by (simp add: unat_sub word_le_nat_alt Suc_le_eq)
  then have "load p (unat (?n - 1)) 1 (heap s) = Inr [last bs]"
    using block bs by (simp add: load_def last_conv_nth take_Suc_conv_app_nth drop_Suc
        Cons_nth_drop_Suc [symmetric] del: drop_Suc_Cons)
  then show ?thesis
    using ring by (simp add: finish_write_def ring_add_eq installed_def zero_entry_def)
qed

text \<open>
  Installing a block that no entry of the ring refers to is the log's write, when the block holds
  the command under way followed by the new bytes.
\<close>

lemma owned_ring_unchanged:
  assumes "drv_inv s" and "p \<notin> set (map buffptr (ring_of s))"
  shows "list_all (holds ((heap s)(p := v))) (ring_of s)"
    and "map (block_of ((heap s)(p := v))) (ring_of s) = cmds (drv_abs s)"
proof -
  have other: "buffptr e \<noteq> p" if "e \<in> set (ring_of s)" for e
    using assms(2) that by auto
  show "list_all (holds ((heap s)(p := v))) (ring_of s)"
    using drv_invD(4) [OF assms(1)] by (simp add: list_all_iff holds_upd_other other)
  show "map (block_of ((heap s)(p := v))) (ring_of s) = cmds (drv_abs s)"
    by (simp add: drv_abs_def block_of_upd_other other)
qed

lemma installed_sim:
  assumes inv: "drv_inv s"
    and p: "p \<notin> set (map buffptr (ring_of s))" "p \<noteq> NULL" "p \<noteq> ZERO_SIZE_PTR"
    and data: "data \<noteq> []"
    and n: "unat n = length (pending (drv_abs s) @ data)"
    and t: "t = s\<lparr>heap := (heap s)(p \<mapsto> pending (drv_abs s) @ data)\<rparr>"
  shows "drv_inv (installed p n (last (pending (drv_abs s) @ data) = newline) t)"
    and "drv_abs (installed p n (last (pending (drv_abs s) @ data) = newline) t)
      = log_write data (drv_abs s)"
proof -
  let ?bs = "pending (drv_abs s) @ data"
  let ?h = "(heap s)(p \<mapsto> ?bs)"
  let ?e = "\<lparr>buffptr = p, entry_size = n\<rparr>"
  have n0: "n \<noteq> 0" using n data by auto
  have ok: "heap_ok ?h" using drv_invD(1) [OF inv] p by (simp add: heap_ok_def)
  note ring = drv_invD(2) [OF inv]
  note keep = owned_ring_unchanged [OF inv p(1), of "Some ?bs"]
  have e: "holds ?h ?e" "block_of ?h ?e = ?bs"
    using n by (simp_all add: holds_def block_of_def)
  have add: "ring_entries (ring_add (buffer (dev s)) ?e) = last_n MAX_OPS (ring_of s @ [?e])"
    and add_inv: "ring_inv (ring_add (buffer (dev s)) ?e)"
    using ring n0 by (simp_all add: ring_add_entries ring_add_inv)
  have all: "list_all (holds ?h) (ring_of s @ [?e])" using keep(1) e(1) by simp
  have dist: "distinct (map buffptr (ring_of s @ [?e]))"
    using drv_invD(6) [OF inv] p(1) by simp
  show "drv_inv (installed p n (last ?bs = newline) t)"
  proof (cases "last ?bs = newline")
    case True
    have "list_all (holds ?h) (last_n MAX_OPS (ring_of s @ [?e]))"
      using all set_last_n by (fastforce simp: list_all_iff)
    moreover have "distinct (map buffptr (last_n MAX_OPS (ring_of s @ [?e])))"
      using dist by (simp only: map_last_n distinct_last_n)
    ultimately show ?thesis
      using True ok by (simp add: t installed_def drv_inv_def add add_inv pending_ok_def
          owned_def owned_pending_def)
  next
    case False
    then show ?thesis
      using ok ring keep(1) e(1) n0 p drv_invD(6) [OF inv]
      by (simp add: t installed_def drv_inv_def pending_ok_def owned_def owned_pending_def)
  qed
  show "drv_abs (installed p n (last ?bs = newline) t) = log_write data (drv_abs s)"
  proof (cases "last ?bs = newline")
    case True
    have "map (block_of ?h) (last_n MAX_OPS (ring_of s @ [?e]))
        = last_n MAX_OPS (cmds (drv_abs s) @ [?bs])"
      using keep(2) e(2) by (simp add: map_last_n)
    then show ?thesis
      using True by (simp add: t installed_def drv_abs_def [of "_\<lparr>dev := _\<rparr>"] add log_write_def Let_def)
  next
    case False
    then show ?thesis
      using keep(2) e(2) p by (simp add: t installed_def drv_abs_def [of "_\<lparr>dev := _\<rparr>"]
          log_write_def Let_def)
  qed
qed

section \<open>The locked part of a write\<close>

text \<open>The memory of a write once the new bytes have been copied from user space.\<close>

definition copied_heap :: "kernel \<Rightarrow> byte list \<Rightarrow> size_t \<Rightarrow> kstate \<Rightarrow> heap" where
  "copied_heap k buf count s =
     (heap s)(kmalloc_ptr k (heap s) count \<mapsto> take (unat count) buf)"

text \<open>Where \<open>krealloc\<close> puts the command under way when it makes room for the new bytes.\<close>

definition grown_ptr :: "kernel \<Rightarrow> byte list \<Rightarrow> size_t \<Rightarrow> kstate \<Rightarrow> ptr" where
  "grown_ptr k buf count s = krealloc_ptr k (copied_heap k buf count s)
     (buffptr (dev_entry (dev s))) (entry_size (dev_entry (dev s)) + count)"

abbreviation under_way :: "kstate \<Rightarrow> bool" where
  "under_way s \<equiv> buffptr (dev_entry (dev s)) \<noteq> NULL"

lemma copy_from_user_ok:
  assumes "unat count \<le> length buf" and "count \<noteq> 0"
  shows "copy_from_user p buf count (h(p \<mapsto> uninit_block k count))
    = Inr (0, h(p \<mapsto> take (unat count) buf))"
  using assms by (simp add: copy_from_user_def store_prefix)

lemma copy_from_user_short:
  assumes "length buf < unat count"
  shows "copy_from_user p buf count (h(p \<mapsto> uninit_block k count))
    = Inr (unat count - length buf, h(p \<mapsto> buf @ drop (length buf) (uninit_block k count)))"
  using assms by (cases "buf = []") (simp_all add: copy_from_user_def store_def)

lemma write_locked_copied:
  assumes "kmalloc_ptr k (heap s) count \<noteq> NULL" and "count \<noteq> 0" and "unat count \<le> length buf"
  shows "write_locked k buf count pos s =
    (let nb = kmalloc_ptr k (heap s) count; h = copied_heap k buf count s in
     if buffptr (dev_entry (dev s)) = NULL then finish_write count pos nb (s\<lparr>heap := h\<rparr>)
     else bindR (append_pending k nb count (dev_entry (dev s)) h) (\<lambda>(joined, h3).
       case joined of
         None \<Rightarrow> Inr (- ENOMEM, pos, s\<lparr>heap := h3\<rparr>)
       | Some q \<Rightarrow> finish_write count pos q (s\<lparr>heap := h3\<rparr>)))"
  using assms
  by (simp add: write_locked_def kmalloc_def copy_from_user_ok copied_heap_def Let_def)

lemma under_wayD:
  assumes inv: "drv_inv s" and way: "under_way s"
  shows "heap s (buffptr (dev_entry (dev s))) = Some (pending (drv_abs s))"
    and "length (pending (drv_abs s)) = esize (dev_entry (dev s))"
    and "pending (drv_abs s) \<noteq> []"
    and "buffptr (dev_entry (dev s)) \<notin> set (map buffptr (ring_of s))"
    and "buffptr (dev_entry (dev s)) \<noteq> ZERO_SIZE_PTR"
proof -
  have h: "holds (heap s) (dev_entry (dev s))" "nonempty (dev_entry (dev s))"
    using drv_invD(3) [OF inv] way by (auto simp: pending_ok_def)
  show *: "heap s (buffptr (dev_entry (dev s))) = Some (pending (drv_abs s))"
    and **: "length (pending (drv_abs s)) = esize (dev_entry (dev s))"
    using h(1) way by (simp_all add: drv_abs_def holds_block length_block_of)
  show "pending (drv_abs s) \<noteq> []"
    using ** h(2) by (auto simp: unat_eq_zero)
  show "buffptr (dev_entry (dev s)) \<notin> set (map buffptr (ring_of s))"
    using drv_invD(5) [OF inv] way by (simp add: owned_def owned_pending_def)
  show "buffptr (dev_entry (dev s)) \<noteq> ZERO_SIZE_PTR"
    using * drv_invD(1) [OF inv] by (auto simp: heap_ok_def)
qed

lemma fresh_not_owned:
  assumes inv: "drv_inv s" and "fresh_ptr (heap s) p"
  shows "p \<notin> set (map buffptr (ring_of s))" and "p \<noteq> buffptr (dev_entry (dev s))"
proof -
  have none: "heap s p = None" "p \<noteq> NULL" using assms(2) by (auto simp: fresh_ptr_def)
  have "heap s (buffptr e) \<noteq> None" if "e \<in> set (ring_of s)" for e
    using drv_invD(4) [OF inv that] by (auto simp: holds_iff)
  with none(1) show "p \<notin> set (map buffptr (ring_of s))" by fastforce
  show "p \<noteq> buffptr (dev_entry (dev s))"
    using none under_wayD(1) [OF inv] by (cases "under_way s") auto
qed

text \<open>Joining in place: the block grows where it is, the new block goes.\<close>

lemma append_pending_in_place:
  assumes h: "h p = Some old" "h nb = Some data" and len: "length old = esize e" "length data = unat count"
    and ne: "old \<noteq> []" "data \<noteq> []" and ptr: "buffptr e = p" "p \<noteq> nb"
    and ok: "heap_ok h"
    and fits: "esize e + unat count < 2 ^ 64"
    and stay: "krealloc_ptr k h p (entry_size e + count) = p"
  shows "append_pending k nb count e h = Inr (Some p, h(p \<mapsto> old @ data, nb := None))"
proof -
  let ?n = "entry_size e + count"
  let ?junk = "drop (length old) (uninit_block k ?n)"
  have sum: "unat ?n = length old + length data"
    using fits len by (simp add: unat_add_lem [THEN iffD1])
  then have n0: "?n \<noteq> 0" using ne by auto
  have live: "p \<noteq> NULL" "p \<noteq> ZERO_SIZE_PTR" "nb \<noteq> NULL" "nb \<noteq> ZERO_SIZE_PTR"
    using heap_ok_live [OF ok] h by simp_all
  have junk: "length ?junk = length data" using sum by simp
  have grow: "krealloc k p ?n h = Inr (p, h(p \<mapsto> old @ ?junk))"
    using live n0 h stay sum by (simp add: krealloc_def Let_def)
  have self: "memcpy p 0 p 0 (esize e) (h(p \<mapsto> old @ ?junk)) = Inr (h(p \<mapsto> old @ ?junk))"
    using len ne by (simp add: memcpy_def load_def store_def sum)
  have new: "memcpy p (esize e) nb 0 (unat count) (h(p \<mapsto> old @ ?junk)) = Inr (h(p \<mapsto> old @ data))"
    using h len ptr junk ne store_append [of "h(p \<mapsto> old @ ?junk)" p old ?junk data]
    by (auto simp: memcpy_def load_def)
  have free: "kfree nb (h(p \<mapsto> old @ data)) = Inr (h(p \<mapsto> old @ data, nb := None))"
    using live h ptr by (simp add: kfree_def)
  show ?thesis
    using live grow self new free by (simp add: append_pending_def ptr)
qed

text \<open>Joining after a move: the old bytes are read through the block \<open>krealloc\<close> has freed.\<close>

lemma append_pending_moved:
  assumes h: "h p = Some old" and len: "length old = esize e" and ne: "old \<noteq> []"
    and ptr: "buffptr e = p" and ok: "heap_ok h" and n0: "entry_size e + count \<noteq> 0"
    and move: "krealloc_ptr k h p (entry_size e + count) = q" "q \<noteq> p" "q \<noteq> NULL"
  shows "append_pending k nb count e h = Inl Dead_Block"
proof -
  have "p \<noteq> NULL" "p \<noteq> ZERO_SIZE_PTR" using heap_ok_live [OF ok] h by simp_all
  moreover have "esize e \<noteq> 0" using len ne by (metis length_0_conv)
  ultimately show ?thesis
    using h ptr n0 move by (simp add: append_pending_def krealloc_def Let_def memcpy_def load_def)
qed

lemma append_pending_no_memory:
  assumes h: "h p = Some old" "h nb \<noteq> None" and ptr: "buffptr e = p"
    and ok: "heap_ok h" and n0: "entry_size e + count \<noteq> 0"
    and fail: "krealloc_ptr k h p (entry_size e + count) = NULL"
  shows "append_pending k nb count e h = Inr (None, h(nb := None))"
proof -
  have "p \<noteq> NULL" "p \<noteq> ZERO_SIZE_PTR" using heap_ok_live [OF ok] h by simp_all
  then show ?thesis
    using h ptr n0 fail by (simp add: append_pending_def krealloc_def Let_def kfree_live ok)
qed

section \<open>The whole write\<close>

text \<open>What has to go well for a write to be the log's: memory, the copy, and a block grown in place.\<close>

definition write_enabled :: "kernel \<Rightarrow> byte list \<Rightarrow> size_t \<Rightarrow> kstate \<Rightarrow> bool" where
  "write_enabled k buf count s \<longleftrightarrow>
     kmalloc_ptr k (heap s) count \<noteq> NULL \<and> count \<noteq> 0 \<and> unat count \<le> length buf \<and>
     stored s + unat count < 2 ^ 63 \<and>
     (under_way s \<longrightarrow> grown_ptr k buf count s = buffptr (dev_entry (dev s)))"

text \<open>The block that holds the joined bytes, and the state with it.\<close>

definition written_ptr :: "kernel \<Rightarrow> size_t \<Rightarrow> kstate \<Rightarrow> ptr" where
  "written_ptr k count s =
     (if under_way s then buffptr (dev_entry (dev s)) else kmalloc_ptr k (heap s) count)"

definition after_write :: "kernel \<Rightarrow> byte list \<Rightarrow> size_t \<Rightarrow> kstate \<Rightarrow> kstate" where
  "after_write k buf count s =
     (let bs = pending (drv_abs s) @ take (unat count) buf; p = written_ptr k count s in
      installed p (entry_size (dev_entry (dev s)) + count) (last bs = newline)
        (s\<lparr>heap := (heap s)(p \<mapsto> bs)\<rparr>))"

lemma copied_heap_ok:
  assumes "drv_inv s" and "alloc_ok k" and "kmalloc_ptr k (heap s) count \<noteq> NULL"
  shows "heap_ok (copied_heap k buf count s)"
  unfolding copied_heap_def
  using assms by (intro heap_ok_upd drv_invD alloc_ok_kmalloc)

lemma pending_idle: "\<not> under_way s \<Longrightarrow> pending (drv_abs s) = []"
  by (simp add: drv_abs_def)

lemma written_size:
  assumes "drv_inv s" and "stored s + unat count < 2 ^ 63" and "unat count \<le> length buf"
  shows "unat (entry_size (dev_entry (dev s)) + count)
    = length (pending (drv_abs s) @ take (unat count) buf)"
proof -
  have "length (pending (drv_abs s)) = esize (dev_entry (dev s))"
    using under_wayD(2) [OF assms(1)] drv_invD(3) [OF assms(1)]
    by (cases "under_way s") (simp_all add: pending_idle pending_ok_def)
  moreover have "unat (entry_size (dev_entry (dev s)) + count) = esize (dev_entry (dev s)) + unat count"
    using assms(2) by (intro unat_add_lem [THEN iffD1]) (simp add: stored_def)
  ultimately show ?thesis using assms(3) by simp
qed

lemma written_ptr_ok:
  assumes inv: "drv_inv s" and alloc: "alloc_ok k" and mem: "kmalloc_ptr k (heap s) count \<noteq> NULL"
  shows "written_ptr k count s \<notin> set (map buffptr (ring_of s))"
    and "written_ptr k count s \<noteq> NULL" and "written_ptr k count s \<noteq> ZERO_SIZE_PTR"
proof -
  have fresh: "fresh_ptr (heap s) (kmalloc_ptr k (heap s) count)"
    using alloc mem by (rule alloc_ok_kmalloc)
  show "written_ptr k count s \<notin> set (map buffptr (ring_of s))"
    using fresh_not_owned(1) [OF inv fresh] under_wayD(4) [OF inv] by (simp add: written_ptr_def)
  show "written_ptr k count s \<noteq> NULL" "written_ptr k count s \<noteq> ZERO_SIZE_PTR"
    using fresh under_wayD(5) [OF inv] by (auto simp: written_ptr_def fresh_ptr_def)
qed

lemma write_locked_ok:
  assumes inv: "drv_inv s" and alloc: "alloc_ok k" and en: "write_enabled k buf count s"
  shows "write_locked k buf count pos s = Inr (count, pos + count, after_write k buf count s)"
proof -
  let ?nb = "kmalloc_ptr k (heap s) count" and ?data = "take (unat count) buf"
  let ?h = "copied_heap k buf count s" and ?de = "dev_entry (dev s)"
  let ?bs = "pending (drv_abs s) @ ?data" and ?p = "written_ptr k count s"
  have mem: "?nb \<noteq> NULL" and n0: "count \<noteq> 0" and len: "unat count \<le> length buf"
    and fits: "stored s + unat count < 2 ^ 63"
    and stay: "under_way s \<Longrightarrow> grown_ptr k buf count s = buffptr ?de"
    using en by (auto simp: write_enabled_def)
  have data: "?data \<noteq> []" "length ?data = unat count" using n0 len by (auto simp: unat_eq_zero)
  have fresh: "fresh_ptr (heap s) ?nb" using alloc mem by (rule alloc_ok_kmalloc)
  have finish: "finish_write count pos ?p (s\<lparr>heap := (heap s)(?p \<mapsto> ?bs)\<rparr>)
      = Inr (count, pos + count, after_write k buf count s)"
    using finish_write_eq [of "s\<lparr>heap := (heap s)(?p \<mapsto> ?bs)\<rparr>" ?p ?bs count pos]
      drv_invD(2) [OF inv] written_size [OF inv fits len] data(1)
    by (simp add: after_write_def Let_def)
  show ?thesis
  proof (cases "under_way s")
    case False
    then have "?h = (heap s)(?p \<mapsto> ?bs)" "?p = ?nb"
      by (simp_all add: copied_heap_def written_ptr_def pending_idle)
    with False finish show ?thesis
      using mem n0 len by (simp add: write_locked_copied Let_def)
  next
    case True
    have nb: "?nb \<noteq> buffptr ?de" using fresh_not_owned(2) [OF inv fresh] .
    have "append_pending k ?nb count ?de ?h
        = Inr (Some (buffptr ?de), ?h(buffptr ?de \<mapsto> ?bs, ?nb := None))"
      using under_wayD [OF inv True] stay [OF True] nb data fits copied_heap_ok [OF inv alloc mem]
      by (intro append_pending_in_place) (simp_all add: copied_heap_def grown_ptr_def stored_def)
    moreover have "?h(buffptr ?de \<mapsto> ?bs, ?nb := None) = (heap s)(buffptr ?de \<mapsto> ?bs)"
      using fresh nb by (auto simp: copied_heap_def fresh_ptr_def)
    moreover have "?p = buffptr ?de" using True by (simp add: written_ptr_def)
    ultimately show ?thesis
      using True finish mem n0 len by (simp add: write_locked_copied Let_def)
  qed
qed

lemma after_write_sim:
  assumes inv: "drv_inv s" and alloc: "alloc_ok k" and en: "write_enabled k buf count s"
  shows "drv_inv (after_write k buf count s)"
    and "drv_abs (after_write k buf count s) = log_write (take (unat count) buf) (drv_abs s)"
proof -
  have mem: "kmalloc_ptr k (heap s) count \<noteq> NULL" and data: "take (unat count) buf \<noteq> []"
    and fits: "stored s + unat count < 2 ^ 63" and len: "unat count \<le> length buf"
    using en by (auto simp: write_enabled_def unat_eq_zero)
  note sim = installed_sim [OF inv written_ptr_ok [OF inv alloc mem] data
      written_size [OF inv fits len] refl]
  show "drv_inv (after_write k buf count s)"
    and "drv_abs (after_write k buf count s) = log_write (take (unat count) buf) (drv_abs s)"
    using sim by (simp_all only: after_write_def Let_def)
qed

section \<open>Around the mutex\<close>

lemma lock_installed [simp]: "lock (dev (installed p n c s)) = lock (dev s)"
  by (simp add: installed_def)

lemma lock_after_write [simp]: "lock (dev (after_write k buf count s)) = lock (dev s)"
  by (simp add: after_write_def Let_def)

lemma after_write_locked:
  "after_write k buf count (locked me s) = locked me (after_write k buf count s)"
  by (simp add: after_write_def written_ptr_def installed_def Let_def)

lemma write_enabled_locked [simp]:
  "write_enabled k buf count (locked me s) = write_enabled k buf count s"
  by (simp add: write_enabled_def grown_ptr_def copied_heap_def)

lemma aesd_write_eq:
  assumes "\<not> lock_interrupted k" and "lock (dev s) = None" and "private_data filp \<noteq> NULL"
  shows "aesd_write k me filp buf count pos s =
    bindR (write_locked k buf count pos (locked me s))
      (\<lambda>(retval, pos', s2). bindR (mutex_unlock me s2) (\<lambda>s3. Inr (retval, pos', s3)))"
  using assms by (simp add: aesd_write_def lock_simps)

text \<open>A call that leaves the mutex to the caller's lock and unlock.\<close>

lemma aesd_write_unlocks:
  assumes "\<not> lock_interrupted k" and "lock (dev s) = None" and "private_data filp \<noteq> NULL"
    and "write_locked k buf count pos (locked me s) = Inr (retval, pos', locked me s')"
    and "lock (dev s') = None"
  shows "aesd_write k me filp buf count pos s = Inr (retval, pos', s')"
  using assms by (simp add: aesd_write_eq unlock_locked)

lemma aesd_write_ok:
  assumes "drv_inv s" and "alloc_ok k" and "write_enabled k buf count s"
    and "\<not> lock_interrupted k" and "lock (dev s) = None" and "private_data filp \<noteq> NULL"
  shows "aesd_write k me filp buf count pos s = Inr (count, pos + count, after_write k buf count s)"
  using write_locked_ok [of "locked me s" k buf count pos] assms
  by (intro aesd_write_unlocks) (simp_all add: after_write_locked)

section \<open>Blocks nobody owns\<close>

text \<open>Live blocks that no entry of the device refers to.\<close>

definition leaked :: "kstate \<Rightarrow> ptr set" where
  "leaked s = dom (heap s) - set (owned s)"

lemma owned_live:
  assumes "drv_inv s" shows "set (owned s) \<subseteq> dom (heap s)"
proof -
  have "buffptr e \<in> dom (heap s)" if "e \<in> set (ring_of s)" for e
    using drv_invD(4) [OF assms that] by (auto simp: holds_iff)
  then show ?thesis
    using under_wayD(1) [OF assms] by (auto simp: owned_def owned_pending_def split: if_splits)
qed

lemma leaked_after_write:
  assumes inv: "drv_inv s" and alloc: "alloc_ok k" and en: "write_enabled k buf count s"
  shows "leaked (after_write k buf count s) =
    (if last (pending (drv_abs s) @ take (unat count) buf) = newline \<and> length (ring_of s) = MAX_OPS
     then insert (buffptr (hd (ring_of s))) (leaked s) else leaked s)"
proof -
  let ?bs = "pending (drv_abs s) @ take (unat count) buf" and ?p = "written_ptr k count s"
  let ?n = "entry_size (dev_entry (dev s)) + count" and ?ps = "map buffptr (ring_of s)"
  let ?c = "last ?bs = newline" and ?s' = "after_write k buf count s"
  have mem: "kmalloc_ptr k (heap s) count \<noteq> NULL" and len: "unat count \<le> length buf"
    and fits: "stored s + unat count < 2 ^ 63" and data: "take (unat count) buf \<noteq> []"
    using en by (auto simp: write_enabled_def unat_eq_zero)
  have "unat ?n \<noteq> 0"
    using data by (simp only: written_size [OF inv fits len] length_0_conv append_is_Nil_conv simp_thms)
  then have n0: "?n \<noteq> 0" by auto
  note p = written_ptr_ok [OF inv alloc mem]
  have fresh: "fresh_ptr (heap s) (kmalloc_ptr k (heap s) count)"
    using alloc mem by (rule alloc_ok_kmalloc)
  have old: "dom (heap s) - insert ?p (set ?ps) = leaked s"
    using fresh fresh_not_owned(1) [OF inv fresh]
    by (auto simp: leaked_def owned_def owned_pending_def written_ptr_def fresh_ptr_def)
  have dom: "dom (heap ?s') = insert ?p (dom (heap s))"
    by (simp add: after_write_def installed_def Let_def)
  have own: "set (owned ?s') = insert ?p (set (if ?c then last_n 9 ?ps else ?ps))"
  proof (cases ?c)
    case True
    have "ring_of ?s' = last_n MAX_OPS (ring_of s @ [\<lparr>buffptr = ?p, entry_size = ?n\<rparr>])"
      using True n0 drv_invD(2) [OF inv]
      by (simp add: after_write_def installed_def ring_add_entries Let_def)
    moreover have "last_n MAX_OPS (ring_of s @ [e]) = last_n 9 (ring_of s) @ [e]" for e
      by (simp add: last_n_def)
    ultimately show ?thesis
      using True by (simp add: owned_def owned_pending_def after_write_def installed_def map_last_n Let_def)
  next
    case False
    then show ?thesis
      using p(2) by (simp add: owned_def owned_pending_def after_write_def installed_def Let_def)
  qed
  show ?thesis
  proof (cases "?c \<and> length (ring_of s) = MAX_OPS")
    case True
    then obtain e es where es: "ring_of s = e # es" by (cases "ring_of s") auto
    with True have "last_n 9 ?ps = map buffptr es" by (simp add: last_n_def)
    with True have set: "set (if ?c then last_n 9 ?ps else ?ps) = buffptr ` set es" by simp
    have e: "buffptr e \<in> dom (heap s)" "buffptr e \<notin> buffptr ` set es" "buffptr e \<noteq> ?p"
      using owned_live [OF inv] drv_invD(6) [OF inv] p(1) es by (auto simp: owned_def)
    show ?thesis
      using e old es True unfolding leaked_def [of ?s'] dom own set by auto
  next
    case False
    then have "set (if ?c then last_n 9 ?ps else ?ps) = set ?ps"
      using length_ring_entries [OF drv_invD(2) [OF inv]] by auto
    with False old show ?thesis unfolding leaked_def [of ?s'] dom own by auto
  qed
qed

section \<open>Properties of writes\<close>

text \<open>
  C2. A write of at least one byte to an open device, given memory, readable user bytes and a
  command under way (if any) that \<open>krealloc\<close> grows in place, returns its count, advances the
  position by it, keeps the invariant, releases the mutex, and does to the log exactly what
  \<open>log_write\<close> does: the bytes join the command under way, and a final newline completes it into
  the last ten.
\<close>

theorem aesd_write_refines_log:
  assumes "drv_inv s" and "alloc_ok k" and "write_enabled k buf count s"
    and "\<not> lock_interrupted k" and "lock (dev s) = None" and "private_data filp \<noteq> NULL"
  shows "\<exists>s'. aesd_write k me filp buf count pos s = Inr (count, pos + count, s') \<and>
    drv_inv s' \<and> lock (dev s') = None \<and>
    drv_abs s' = log_write (take (unat count) buf) (drv_abs s)"
  using aesd_write_ok [OF assms] after_write_sim [OF assms(1-3)] assms(5) by simp

lemma example_alloc: "alloc_ok example_kernel"
  by (simp add: alloc_ok_def example_kernel_def fresh_ptr_def)

lemma example_enabled:
  "write_enabled example_kernel
     (''fg'' @ [newline]) 3 example_state"
  unfolding write_enabled_def example_stored by (simp add: example_kernel_def example_state_def)

theorem aesd_write_refines_log_witness:
  "\<exists>s'. aesd_write example_kernel 1
      \<lparr>f_pos = 0, private_data = 5000\<rparr> (''fg'' @ [newline]) 3 0 example_state = Inr (3, 3, s') \<and>
    drv_inv s' \<and> lock (dev s') = None \<and>
    drv_abs s' = \<lparr>cmds = [''ab'' @ [newline], ''cde'' @ [newline], ''fg'' @ [newline]], pending = []\<rparr>"
  using aesd_write_refines_log [OF example_inv example_alloc example_enabled,
      of "\<lparr>f_pos = 0, private_data = 5000\<rparr>" 1 0]
  by (simp add: example_abs log_write_def) (simp add: example_kernel_def example_state_def)

text \<open>
  C19. When \<open>krealloc\<close> has to move the command under way, the write reads it through the old
  pointer, whose block \<open>krealloc\<close> has freed: a use after free, in every such call.
\<close>

theorem moved_krealloc_use_after_free:
  assumes inv: "drv_inv s" and alloc: "alloc_ok k" and "under_way s"
    and "kmalloc_ptr k (heap s) count \<noteq> NULL" and "count \<noteq> 0" and "unat count \<le> length buf"
    and fits: "stored s + unat count < 2 ^ 63"
    and "grown_ptr k buf count s \<noteq> NULL"
    and "grown_ptr k buf count s \<noteq> buffptr (dev_entry (dev s))"
    and "\<not> lock_interrupted k" and "lock (dev s) = None" and "private_data filp \<noteq> NULL"
  shows "aesd_write k me filp buf count pos s = Inl Dead_Block"
proof -
  let ?de = "dev_entry (dev s)" and ?nb = "kmalloc_ptr k (heap s) count"
  have nb: "?nb \<noteq> buffptr ?de"
    using fresh_not_owned(2) [OF inv alloc_ok_kmalloc [OF alloc assms(4)]] .
  have "unat (entry_size ?de + count) = length (pending (drv_abs s) @ take (unat count) buf)"
    using inv fits assms(6) by (rule written_size)
  then have n0: "entry_size ?de + count \<noteq> 0"
    using under_wayD(3) [OF inv assms(3)] by auto
  have "append_pending k ?nb count ?de (copied_heap k buf count s) = Inl Dead_Block"
    using under_wayD(1-3) [OF inv assms(3)] nb assms(8,9) n0 copied_heap_ok [OF inv alloc assms(4)]
    by (intro append_pending_moved) (auto simp: copied_heap_def grown_ptr_def)
  then have "write_locked k buf count pos (locked me s) = Inl Dead_Block"
    using assms(3-6) by (simp add: write_locked_copied copied_heap_def Let_def)
  then show ?thesis using assms(10-12) by (simp add: aesd_write_eq)
qed

text \<open>A device with the command \<open>ab\<close> under way, and a kernel that moves every block it grows.\<close>

definition example_pending :: kstate where
  "example_pending = example_state
     \<lparr>heap := (heap example_state)(400 \<mapsto> ''ab''),
      dev := (dev example_state)\<lparr>dev_entry := \<lparr>buffptr = 400, entry_size = 2\<rparr>\<rparr>\<rparr>"

lemma example_pending_ring: "ring_of example_pending = ring_of example_state"
  by (simp add: example_pending_def)

lemma example_pending_inv: "drv_inv example_pending"
  unfolding drv_inv_def owned_def example_pending_ring example_ring
  by (simp add: example_pending_def example_state_def heap_ok_def ring_inv_def ring_filling_def
      holds_def pending_ok_def owned_pending_def)

lemma example_pending_stored: "stored example_pending = 9"
  unfolding stored_def example_pending_ring example_ring by (simp add: example_pending_def)

lemma example_pending_abs:
  "drv_abs example_pending = \<lparr>cmds = [''ab'' @ [newline], ''cde'' @ [newline]], pending = ''ab''\<rparr>"
  unfolding drv_abs_def example_pending_ring example_ring
  by (simp add: example_pending_def example_state_def block_of_def)

definition moving_kernel :: kernel where
  "moving_kernel = example_kernel
     \<lparr>krealloc_ptr := \<lambda>h _ _. if h 500 = None then 500 else 0\<rparr>"

lemma moving_alloc: "alloc_ok moving_kernel"
  by (simp add: alloc_ok_def moving_kernel_def example_kernel_def fresh_ptr_def)

theorem moved_krealloc_use_after_free_witness:
  "aesd_write moving_kernel 1 \<lparr>f_pos = 2, private_data = 5000\<rparr> (''c'' @ [newline]) 2 2 example_pending
    = Inl Dead_Block"
proof -
  have "stored example_pending + unat (2 :: size_t) < 2 ^ 63"
    by (simp add: example_pending_stored)
  then show ?thesis
    by (intro moved_krealloc_use_after_free [OF example_pending_inv moving_alloc])
      (simp_all add: moving_kernel_def example_kernel_def example_pending_def example_state_def
        grown_ptr_def copied_heap_def)
qed

text \<open>A write that fails for lack of memory or room in the caller's buffer.\<close>

lemma aesd_write_failed:
  assumes inv: "drv_inv s" and alloc: "alloc_ok k" and n0: "count \<noteq> 0"
    and fits: "stored s + unat count < 2 ^ 63"
    and fail: "kmalloc_ptr k (heap s) count = NULL \<or> length buf < unat count \<or>
      (under_way s \<and> grown_ptr k buf count s = NULL)"
    and call: "\<not> lock_interrupted k" "lock (dev s) = None" "private_data filp \<noteq> NULL"
  shows "aesd_write k me filp buf count pos s =
    Inr (if kmalloc_ptr k (heap s) count \<noteq> NULL \<and> length buf < unat count then - EFAULT else - ENOMEM,
         pos, s)"
proof -
  let ?nb = "kmalloc_ptr k (heap s) count" and ?t = "locked me s" and ?de = "dev_entry (dev s)"
  have "write_locked k buf count pos ?t =
    Inr (if ?nb \<noteq> NULL \<and> length buf < unat count then - EFAULT else - ENOMEM, pos, ?t)"
  proof (cases "?nb = NULL")
    case True
    then show ?thesis using n0 by (simp add: write_locked_def kmalloc_def)
  next
    case mem: False
    have fresh: "fresh_ptr (heap s) ?nb" using alloc mem by (rule alloc_ok_kmalloc)
    then have restored: "(heap s)(?nb := None) = heap s" by (auto simp: fresh_ptr_def)
    show ?thesis
    proof (cases "length buf < unat count")
      case True
      have live: "?nb \<noteq> 0" "?nb \<noteq> 16" using fresh by (auto simp: fresh_ptr_def)
      with True mem n0 live restored show ?thesis
        by (simp add: write_locked_def kmalloc_def kfree_def copy_from_user_short Let_def)
    next
      case False
      with fail mem have way: "under_way s" "grown_ptr k buf count s = NULL" by auto
      have nb: "?nb \<noteq> buffptr ?de" using fresh_not_owned(2) [OF inv fresh] .
      have "unat (entry_size ?de + count) = length (pending (drv_abs s) @ take (unat count) buf)"
        using False by (intro written_size [OF inv fits]) simp
      then have "entry_size ?de + count \<noteq> 0" using under_wayD(3) [OF inv way(1)] by auto
      then have "append_pending k ?nb count ?de (copied_heap k buf count s)
          = Inr (None, (copied_heap k buf count s)(?nb := None))"
        using under_wayD(1) [OF inv way(1)] way(2) nb copied_heap_ok [OF inv alloc mem]
        by (intro append_pending_no_memory) (auto simp: copied_heap_def grown_ptr_def)
      with way(1) mem n0 False restored show ?thesis
        by (simp add: write_locked_copied copied_heap_def Let_def)
    qed
  qed
  with call show ?thesis by (intro aesd_write_unlocks) simp_all
qed

text \<open>
  C39. A write that fails, for lack of memory for the new bytes, because user space cannot be
  read, or for lack of memory for the joined command, returns \<open>-ENOMEM\<close> or \<open>-EFAULT\<close>, moves no
  position, and leaves memory and device exactly as they were: no block is lost.
\<close>

theorem failed_write_restores:
  assumes inv: "drv_inv s" and alloc: "alloc_ok k" and n0: "count \<noteq> 0"
    and fits: "stored s + unat count < 2 ^ 63"
    and fail: "kmalloc_ptr k (heap s) count = NULL \<or> length buf < unat count \<or>
      (under_way s \<and> grown_ptr k buf count s = NULL)"
    and call: "\<not> lock_interrupted k" "lock (dev s) = None" "private_data filp \<noteq> NULL"
  shows "aesd_write k me filp buf count pos s =
    Inr (if kmalloc_ptr k (heap s) count \<noteq> NULL \<and> length buf < unat count then - EFAULT else - ENOMEM,
         pos, s)"
  using assms by (rule aesd_write_failed)

theorem failed_write_restores_witness:
  "aesd_write example_kernel 1 \<lparr>f_pos = 2, private_data = 5000\<rparr> ''c'' 2 2 example_pending
    = Inr (- EFAULT, 2, example_pending)"
proof -
  have "stored example_pending + unat (2 :: size_t) < 2 ^ 63"
    by (simp add: example_pending_stored)
  then show ?thesis
    using failed_write_restores [OF example_pending_inv example_alloc, of 2 "''c''"
        "\<lparr>f_pos = 2, private_data = 5000\<rparr>" 1 2]
    by (simp add: example_kernel_def example_pending_def example_state_def)
qed

text \<open>
  A write of zero bytes with no command under way reads the byte before the block of
  \<open>kmalloc(0)\<close>, where there is none. (With a command under way it is harmless.)
\<close>

theorem empty_write_faults:
  assumes "drv_inv s" and "\<not> under_way s"
    and "\<not> lock_interrupted k" and "lock (dev s) = None" and "private_data filp \<noteq> NULL"
  shows "aesd_write k me filp buf 0 pos s = Inl Dead_Block"
  using assms drv_invD(1,3) [OF assms(1)]
  by (simp add: aesd_write_eq write_locked_def kmalloc_def copy_from_user_def store_def
      finish_write_def load_def heap_ok_def pending_ok_def)

theorem empty_write_faults_witness:
  "aesd_write example_kernel 1 \<lparr>f_pos = 0, private_data = 5000\<rparr> [] 0 0 example_state = Inl Dead_Block"
  by (intro empty_write_faults [OF example_inv])
    (simp_all add: example_kernel_def example_state_def)

text \<open>
  C20. What a write loses: a write that completes a command while the ring holds ten leaves the
  block of the oldest command allocated and no longer referred to; no other write does.
\<close>

theorem write_leaks_displaced_command:
  assumes "drv_inv s" and "alloc_ok k" and "write_enabled k buf count s"
    and "\<not> lock_interrupted k" and "lock (dev s) = None" and "private_data filp \<noteq> NULL"
  shows "\<exists>s'. aesd_write k me filp buf count pos s = Inr (count, pos + count, s') \<and>
    leaked s' =
      (if last (pending (drv_abs s) @ take (unat count) buf) = newline \<and> length (cmds (drv_abs s)) = MAX_OPS
       then insert (buffptr (hd (ring_of s))) (leaked s) else leaked s)"
  using aesd_write_ok [OF assms] leaked_after_write [OF assms(1-3)] by (simp add: drv_abs_def)

text \<open>A full ring, with ten commands of one newline each.\<close>

definition example_full :: kstate where
  "example_full =
     \<lparr>heap = (\<lambda>p. if p \<in> {101..110} then Some [newline] else None),
      dev = \<lparr>buffer = \<lparr>entry = map (\<lambda>i. \<lparr>buffptr = i, entry_size = 1\<rparr>) [101..<111],
               in_offs = 0, out_offs = 0, full = False\<rparr>,
             dev_entry = zero_entry, lock = None\<rparr>\<rparr>"

lemma example_full_ring: "ring_of example_full = map (\<lambda>i. \<lparr>buffptr = i, entry_size = 1\<rparr>) [101..<111]"
  by (simp add: example_full_def ring_entries_def filter_map comp_def)

lemma example_full_inv: "drv_inv example_full"
  unfolding drv_inv_def owned_def example_full_ring
  by (simp add: example_full_def heap_ok_def ring_inv_def ring_wrapped_def holds_def list_all_iff
      pending_ok_def owned_pending_def comp_def)

lemma example_full_stored: "stored example_full = 10"
  unfolding stored_def example_full_ring
  by (simp add: example_full_def comp_def sum_list_triv)

theorem write_leaks_displaced_command_witness:
  "\<exists>s'. aesd_write example_kernel 1 \<lparr>f_pos = 0, private_data = 5000\<rparr> [newline] 1 0 example_full
      = Inr (1, 1, s') \<and> 101 \<in> leaked s' \<and> 101 \<notin> leaked example_full"
proof -
  have en: "write_enabled example_kernel [newline] 1 example_full"
    unfolding write_enabled_def example_full_stored
    by (simp add: example_kernel_def example_full_def)
  have ten: "length (cmds (drv_abs example_full)) = MAX_OPS" "pending (drv_abs example_full) = []"
    by (simp_all add: drv_abs_def example_full_ring) (simp add: example_full_def)
  have own: "101 \<in> set (owned example_full)"
    by (simp add: owned_def example_full_ring comp_def)
  have first: "hd (ring_of example_full) = \<lparr>buffptr = 101, entry_size = 1\<rparr>"
    by (simp add: example_full_ring upt_rec)
  have call: "\<not> lock_interrupted example_kernel" "lock (dev example_full) = None"
      "private_data \<lparr>f_pos = 0, private_data = 5000\<rparr> \<noteq> 0"
    by (simp_all add: example_kernel_def example_full_def)
  have "101 \<notin> leaked example_full" using own by (simp add: leaked_def)
  then show ?thesis
    using write_leaks_displaced_command [OF example_full_inv example_alloc en call, of 1 0] ten first
    by auto
qed

text \<open>
  An interrupted wait for the mutex: the read returns \<open>-ERESTARTSYS\<close> with nothing changed,
  but the write and the seek go to their label \<open>out\<close> and unlock a mutex they do not hold.
\<close>

theorem interrupted_calls:
  assumes "lock_interrupted k" and "private_data filp \<noteq> NULL" and "lock (dev s) \<noteq> Some me"
  shows "aesd_read k me filp room count pos s = Inr (- ERESTARTSYS, pos, [], s) \<and>
    aesd_write k me filp buf count pos s = Inl Bad_Unlock \<and>
    aesd_llseek k me off whence filp s = Inl Bad_Unlock"
  using assms
  by (simp_all add: aesd_read_def aesd_write_def aesd_llseek_def get_buffer_size_def
      lock_interrupted_eq mutex_unlock_def)

theorem interrupted_calls_witness:
  "aesd_read (example_kernel\<lparr>lock_interrupted := True\<rparr>) 1 \<lparr>f_pos = 3, private_data = 5000\<rparr> 9 9 3
      example_state = Inr (- ERESTARTSYS, 3, [], example_state) \<and>
    aesd_write (example_kernel\<lparr>lock_interrupted := True\<rparr>) 1 \<lparr>f_pos = 3, private_data = 5000\<rparr>
      ''a'' 1 3 example_state = Inl Bad_Unlock"
  using interrupted_calls [of "example_kernel\<lparr>lock_interrupted := True\<rparr>"
      "\<lparr>f_pos = 3, private_data = 5000\<rparr>" example_state 1]
  by (simp add: example_state_def)

end
