(* ===== verification/Driver_Seek.thy ===== *)
theory Driver_Seek imports Main Driver_Write begin

text \<open>
  \<open>get_buffer_size\<close>, \<open>aesd_llseek\<close> and \<open>aesd_ioctl\<close> against the log. The seek by whence is right;
  the seek to a write command counts slots of the ring and not commands, which is the same thing
  only until the ring wraps.
\<close>

section \<open>Sizes\<close>

lemma get_buffer_size_eq:
  assumes "drv_inv s" and "stored s < 2 ^ 63"
    and "\<not> lock_interrupted k" and "lock (dev s) = None"
  shows "get_buffer_size k me s = Inr (of_nat (length (contents (drv_abs s))), s)"
proof -
  let ?es = "entry (buffer (dev s))"
  have len: "length ?es = MAX_OPS" using drv_invD(2) [OF assms(1)] by (simp add: ring_inv_def)
  have "foldl (\<lambda>n i. n + entry_size (?es ! i)) 0 [0..<MAX_OPS] = sum_list (map entry_size ?es)"
    using foldl_index_sum [of MAX_OPS ?es entry_size 0] len by simp
  also have "\<dots> = of_nat (length (contents (drv_abs s)))"
  proof -
    have "unat (sum_list (map entry_size ?es)) = length (contents (drv_abs s))"
      using unat_sum_list [of "map entry_size ?es"] assms(2)
      by (simp add: length_contents [OF assms(1)] sum_ring_entries stored_def comp_def)
    then show ?thesis by (rule unat_eqD)
  qed
  finally show ?thesis
    using assms(3,4) by (simp add: get_buffer_size_def lock_simps)
qed

section \<open>Seek by whence\<close>

text \<open>The position asked for, as a number: from the start, the current position or the end.\<close>

definition seek_target :: "int \<Rightarrow> int \<Rightarrow> int \<Rightarrow> int \<Rightarrow> int option" where
  "seek_target whence off cur sz =
     (if whence = SEEK_SET then Some off
      else if whence = SEEK_CUR then Some (cur + off)
      else if whence = SEEK_END then Some (sz + off)
      else None)"

text \<open>A sum that leaves the signed range comes out negative, which the handler refuses.\<close>

lemma seek_in_range:
  fixes a b :: "64 word"
  assumes "0 \<le> sint a" and "0 \<le> n" and "n < 2 ^ 63"
  shows "(sint (a + b) < 0 \<or> sint (a + b) > n) \<longleftrightarrow> \<not> (0 \<le> sint a + sint b \<and> sint a + sint b \<le> n)"
  using sint_add_cases [OF assms(1), of b] assms(2,3) by auto

lemma word_of_int_sint_add: "a + b = word_of_int (sint a + sint (b :: 64 word))"
  by simp

text \<open>
  C28. \<open>aesd_llseek\<close> on an open device moves the file to the position asked for, counted from the
  start, from the current position or from the end of the stored commands, when that lies between
  zero and the size of the contents (both included), and returns it; otherwise, and for any other
  whence, it returns \<open>-EINVAL\<close> and the file stays where it is. The 64-bit sums cannot be made to
  wrap into the range. The device is unchanged and the mutex released.
\<close>

theorem aesd_llseek_spec:
  assumes inv: "drv_inv s" and fits: "stored s < 2 ^ 63"
    and call: "\<not> lock_interrupted k" "lock (dev s) = None" "private_data filp \<noteq> NULL"
    and cur: "0 \<le> sint (f_pos filp)"
  shows "aesd_llseek k me off whence filp s =
    (case seek_target whence (sint off) (sint (f_pos filp)) (int (length (contents (drv_abs s)))) of
       None \<Rightarrow> Inr (- EINVAL, filp, s)
     | Some t \<Rightarrow>
         if 0 \<le> t \<and> t \<le> int (length (contents (drv_abs s)))
         then Inr (word_of_int t, filp\<lparr>f_pos := word_of_int t\<rparr>, s)
         else Inr (- EINVAL, filp, s))"
proof -
  let ?n = "length (contents (drv_abs s))"
  have small: "?n < 2 ^ 63" using fits by (simp add: length_contents [OF inv] stored_def)
  then have unat: "unat (of_nat ?n :: 64 word) = ?n"
    by (simp add: unat_of_nat)
  with small have n: "sint (of_nat ?n :: 64 word) = int ?n"
    using sint_small [of "of_nat ?n"] by simp
  have n2: "int ?n < 2 ^ 63" using small by simp
  have body: "(if sint p < 0 \<or> sint p > sint (of_nat ?n :: 64 word) then Inr (- EINVAL, filp, s)
      else Inr (p, filp\<lparr>f_pos := p\<rparr>, s)) =
    (if 0 \<le> t \<and> t \<le> int ?n then Inr (word_of_int t, filp\<lparr>f_pos := word_of_int t\<rparr>, s)
      else Inr (- EINVAL, filp, s))"
    if "p = word_of_int t" "(sint p < 0 \<or> sint p > int ?n) \<longleftrightarrow> \<not> (0 \<le> t \<and> t \<le> int ?n)" for p t
    using that n by simp
  note here = call get_buffer_size_eq [OF inv fits] aesd_llseek_def seek_target_def
  consider "whence = SEEK_SET" | "whence = SEEK_CUR" | "whence = SEEK_END"
    | "whence \<noteq> SEEK_SET" "whence \<noteq> SEEK_CUR" "whence \<noteq> SEEK_END" by blast
  then show ?thesis
  proof cases
    case 1
    show ?thesis using body [of off "sint off"] by (simp add: 1 here not_le not_less)
  next
    case 2
    show ?thesis
      using body [of "f_pos filp + off" "sint (f_pos filp) + sint off"] seek_in_range [OF cur _ n2]
      by (simp add: 2 here)
  next
    case 3
    show ?thesis
      using body [of "of_nat ?n + off" "int ?n + sint off"] seek_in_range [of "of_nat ?n" "int ?n" off] n2
      by (simp add: 3 here n)
  next
    case 4
    then show ?thesis by (simp add: here)
  qed
qed

theorem aesd_llseek_spec_witness:
  "aesd_llseek example_kernel 1 (- 3) 2 \<lparr>f_pos = 1, private_data = 5000\<rparr> example_state
    = Inr (4, \<lparr>f_pos = 4, private_data = 5000\<rparr>, example_state)"
proof -
  have len: "length (contents (drv_abs example_state)) = 7"
    by (simp add: example_abs contents_def)
  show ?thesis
    using aesd_llseek_spec [OF example_inv, of example_kernel "\<lparr>f_pos = 1, private_data = 5000\<rparr>" 1 "- 3" 2]
    unfolding len example_stored
    by (simp add: seek_target_def) (simp add: example_kernel_def example_state_def)
qed

section \<open>Seek to a write command\<close>

lemma unat_ucast_32_64 [simp]: "unat (ucast (w :: 32 word) :: 64 word) = unat w"
proof -
  have "unat w < 2 ^ 64" using unsigned_less [of w, where ?'a = nat] by simp
  then show ?thesis by (simp add: unsigned_ucast_eq take_bit_nat_eq_self)
qed

text \<open>What the handler does with a command and an offset, in terms of the slots.\<close>

lemma aesd_ioctl_slots:
  assumes "length (entry (buffer (dev s))) = MAX_OPS" and "private_data filp \<noteq> NULL"
    and "c = unat (write_cmd st)"
  shows "aesd_ioctl AESDCHAR_IOCSEEKTO (Some st) filp s =
    (if c < MAX_OPS \<and> unat (write_cmd_offset st) < esize (entry (buffer (dev s)) ! c)
     then Inr (0, filp\<lparr>f_pos := sum_list (map entry_size (take c (entry (buffer (dev s)))))
                       + ucast (write_cmd_offset st)\<rparr>)
     else Inr (- EINVAL, filp))"
  using assms foldl_index_sum [of c "entry (buffer (dev s))" entry_size 0]
  by (auto simp: aesd_ioctl_def Let_def word_le_nat_alt not_less)

lemma slots_in_order:
  assumes "ring_inv b" and "out_offs b = 0"
  shows "entry b = ring_entries b @ replicate (MAX_OPS - length (ring_entries b)) zero_entry"
  using assms(1)
proof (cases b rule: ring_invE)
  case wrapped
  then show ?thesis using assms(2) by (simp add: ring_entries_wrapped)
next
  case (filling xs)
  then have "ring_entries b = xs" by (intro ring_entries_filling) simp_all
  with filling show ?thesis by simp
qed

text \<open>The position of a byte of a command: the bytes of the commands before it, then its offset.\<close>

definition cmd_pos :: "cmd_log \<Rightarrow> nat \<Rightarrow> nat \<Rightarrow> nat" where
  "cmd_pos l c off = sum_list (map length (take c (cmds l))) + off"

lemma log_read_cmd_pos:
  assumes "c < length (cmds l)" and "off < length (cmds l ! c)"
  shows "log_read count (cmd_pos l c off) l = take count (drop off (cmds l ! c))"
proof -
  have "cmds l = take c (cmds l) @ cmds l ! c # drop (Suc c) (cmds l)"
    using assms(1) by (rule id_take_nth_drop)
  then have "locate length (cmds l) (cmd_pos l c off) = Some (cmds l ! c, off)"
    unfolding cmd_pos_def
    using locate_append [of off length "cmds l ! c" "take c (cmds l)" "drop (Suc c) (cmds l)"] assms(2)
    by metis
  then show ?thesis by (simp add: log_read_def)
qed

lemma cmd_pos_bound:
  assumes "c < length (cmds l)" and "off < length (cmds l ! c)"
  shows "cmd_pos l c off < length (contents l)"
proof -
  have "contents l = concat (take c (cmds l)) @ cmds l ! c @ concat (drop (Suc c) (cmds l))"
    unfolding contents_def by (subst id_take_nth_drop [OF assms(1)]) simp
  then show ?thesis using assms(2) by (simp add: cmd_pos_def length_concat)
qed

lemma length_cmds: "drv_inv s \<Longrightarrow> i < length (ring_of s) \<Longrightarrow>
    length (cmds (drv_abs s) ! i) = esize (ring_of s ! i)"
  using drv_invD(4) by (simp add: drv_abs_def length_block_of)

lemma aesd_ioctl_in_order:
  assumes inv: "drv_inv s" and fits: "stored s < 2 ^ 63" and order: "out_offs (buffer (dev s)) = 0"
    and pd: "private_data filp \<noteq> NULL"
    and c: "c = unat (write_cmd st)" and off: "off = unat (write_cmd_offset st)"
  shows "aesd_ioctl AESDCHAR_IOCSEEKTO (Some st) filp s =
    (if c < length (cmds (drv_abs s)) \<and> off < length (cmds (drv_abs s) ! c)
     then Inr (0, filp\<lparr>f_pos := of_nat (cmd_pos (drv_abs s) c off)\<rparr>)
     else Inr (- EINVAL, filp))"
proof -
  let ?slots = "entry (buffer (dev s))" and ?es = "ring_of s" and ?l = "drv_abs s"
  have ring: "ring_inv (buffer (dev s))" using inv by (rule drv_invD)
  have len: "length ?slots = MAX_OPS" using ring by (simp add: ring_inv_def)
  have slots: "?slots = ?es @ replicate (MAX_OPS - length ?es) zero_entry"
    using ring order by (rule slots_in_order)
  have n: "length ?es \<le> MAX_OPS" "length (cmds ?l) = length ?es"
    using ring by (simp_all add: length_ring_entries drv_abs_def)
  show ?thesis
  proof (cases "c < length ?es")
    case True
    then have slot: "?slots ! c = ?es ! c" "take c ?slots = take c ?es"
      unfolding slots by (simp_all add: nth_append)
    have "sum_list (map entry_size (take c ?es)) + ucast (write_cmd_offset st) = of_nat (cmd_pos ?l c off)"
    proof -
      have sizes: "map length (take c (cmds ?l)) = map esize (take c ?es)"
        using True n length_cmds [OF inv] by (intro nth_equalityI) simp_all
      have "sum_list (map esize (take c ?es)) \<le> sum_list (map esize ?es)"
        using sum_list_take_drop [of c "map esize ?es"] by (simp add: take_map)
      then have "unat (sum_list (map entry_size (take c ?es))) = sum_list (map esize (take c ?es))"
        using fits unat_sum_list [of "map entry_size (take c ?es)"] by (simp add: stored_def comp_def)
      then have "sum_list (map entry_size (take c ?es)) = of_nat (sum_list (map esize (take c ?es)))"
        by (rule unat_eqD)
      moreover have "ucast (write_cmd_offset st) = (of_nat off :: 64 word)"
        unfolding off by (rule unat_eqD) simp
      ultimately show ?thesis by (simp add: cmd_pos_def sizes)
    qed
    with True n slot show ?thesis
      by (simp add: aesd_ioctl_slots [OF len pd c] off length_cmds [OF inv])
  next
    case False
    then have "esize (?slots ! c) = 0" if "c < MAX_OPS"
      using that unfolding slots by (simp add: nth_append)
    with False n show ?thesis
      by (auto simp: aesd_ioctl_slots [OF len pd c])
  qed
qed

section \<open>Properties of the seek command\<close>

text \<open>
  Until the ring has wrapped, \<open>AESDCHAR_IOCSEEKTO\<close> does what its header says: a write command
  and an offset inside it put the file at that byte of the contents, where the next read returns
  the rest of that command, and a command not stored or an offset past its end gives \<open>-EINVAL\<close>
  with the file unmoved.
\<close>

theorem seek_command_before_wrap:
  assumes inv: "drv_inv s" and fits: "stored s < 2 ^ 63" and order: "out_offs (buffer (dev s)) = 0"
    and call: "\<not> lock_interrupted k" "lock (dev s) = None" "private_data filp \<noteq> NULL"
    and c: "c = unat (write_cmd st)" and off: "off = unat (write_cmd_offset st)"
    and room: "unat count \<le> room"
  shows "if c < length (cmds (drv_abs s)) \<and> off < length (cmds (drv_abs s) ! c)
    then \<exists>filp'. aesd_ioctl AESDCHAR_IOCSEEKTO (Some st) filp s = Inr (0, filp') \<and>
      (let src = take (unat count) (drop off (cmds (drv_abs s) ! c)) in
       aesd_read k me filp' room count (f_pos filp') s =
         Inr (of_nat (length src), f_pos filp' + of_nat (length src), src, s))
    else aesd_ioctl AESDCHAR_IOCSEEKTO (Some st) filp s = Inr (- EINVAL, filp)"
proof (cases "c < length (cmds (drv_abs s)) \<and> off < length (cmds (drv_abs s) ! c)")
  case False
  with aesd_ioctl_in_order [OF inv fits order call(3) c off] show ?thesis by simp
next
  case True
  let ?l = "drv_abs s" and ?pos = "cmd_pos (drv_abs s) c off"
  let ?filp = "filp\<lparr>f_pos := of_nat ?pos\<rparr>" and ?src = "take (unat count) (drop off (cmds ?l ! c))"
  have "?pos < length (contents ?l)" using True by (intro cmd_pos_bound) simp_all
  then have "?pos < 2 ^ 64" using fits by (simp add: length_contents [OF inv] stored_def)
  then have pos: "unat (of_nat ?pos :: 64 word) = ?pos" by (simp add: unat_of_nat)
  have "log_read (unat count) ?pos ?l = ?src" using True by (intro log_read_cmd_pos) simp_all
  then have "aesd_read k me ?filp room count (f_pos ?filp) s =
      Inr (of_nat (length ?src), f_pos ?filp + of_nat (length ?src), ?src, s)"
    using aesd_read_log [OF inv fits call(1,2), of ?filp] call(3) room pos by (simp add: Let_def)
  with True show ?thesis
    by (simp add: aesd_ioctl_in_order [OF inv fits order call(3) c off] Let_def)
qed

theorem seek_command_before_wrap_witness:
  "\<exists>filp'. aesd_ioctl AESDCHAR_IOCSEEKTO (Some \<lparr>write_cmd = 1, write_cmd_offset = 2\<rparr>)
      \<lparr>f_pos = 0, private_data = 5000\<rparr> example_state = Inr (0, filp') \<and>
    aesd_read example_kernel 1 filp' 100 100 (f_pos filp') example_state =
      Inr (2, f_pos filp' + 2, ''e'' @ [newline], example_state)"
proof -
  have s: "stored example_state < 2 ^ 63" "out_offs (buffer (dev example_state)) = 0"
      "\<not> lock_interrupted example_kernel" "lock (dev example_state) = None"
    by (simp_all only: example_stored) (simp_all add: example_state_def example_kernel_def)
  have c: "1 = unat (write_cmd \<lparr>write_cmd = 1, write_cmd_offset = 2\<rparr>)"
      "2 = unat (write_cmd_offset \<lparr>write_cmd = 1, write_cmd_offset = 2\<rparr>)"
      "unat (100 :: size_t) \<le> 100" "private_data \<lparr>f_pos = 0, private_data = 5000\<rparr> \<noteq> 0"
    by simp_all
  have l: "1 < length (cmds (drv_abs example_state)) \<and> 2 < length (cmds (drv_abs example_state) ! 1)"
    and src: "take (unat (100 :: size_t)) (drop 2 (cmds (drv_abs example_state) ! 1)) = ''e'' @ [newline]"
    by (simp_all add: example_abs)
  show ?thesis
    using seek_command_before_wrap [OF example_inv s(1-4) c(4) c(1) c(2) c(3), of 1]
    unfolding src Let_def if_P [OF l] by simp
qed

text \<open>
  C24. After the ring has wrapped the seek command is off: slot \<open>c\<close> then holds the stored command
  number \<open>(c + 10 - out_offs) mod 10\<close>, and it is that command's length that decides whether the
  offset is accepted, while the position is the sum of the first \<open>c\<close> slots.
\<close>

theorem seek_command_after_wrap:
  assumes inv: "drv_inv s" and full: "length (cmds (drv_abs s)) = MAX_OPS"
    and pd: "private_data filp \<noteq> NULL" and c: "c = unat (write_cmd st)" "c < MAX_OPS"
    and j: "j = (c + MAX_OPS - unat (out_offs (buffer (dev s)))) mod MAX_OPS"
  shows "aesd_ioctl AESDCHAR_IOCSEEKTO (Some st) filp s =
    (if unat (write_cmd_offset st) < length (cmds (drv_abs s) ! j)
     then Inr (0, filp\<lparr>f_pos := sum_list (map entry_size (take c (entry (buffer (dev s)))))
                       + ucast (write_cmd_offset st)\<rparr>)
     else Inr (- EINVAL, filp))"
proof -
  let ?b = "buffer (dev s)" and ?o = "unat (out_offs (buffer (dev s)))"
  have ring: "ring_inv ?b" using inv by (rule drv_invD)
  then have len: "length (entry ?b) = MAX_OPS" and o: "?o < MAX_OPS" by (simp_all add: ring_inv_def)
  have ten: "length (ring_of s) = MAX_OPS" using full by (simp add: drv_abs_def)
  have "list_all nonempty (rotate ?o (entry ?b))"
    using ten len by (intro list_all_if_length_filter) (simp add: ring_entries_def)
  then have rot: "ring_of s = rotate ?o (entry ?b)"
    by (simp add: ring_entries_def list_all_iff)
  have "j < MAX_OPS" by (simp add: j)
  have "(?o + j) mod MAX_OPS = (?o + (c + MAX_OPS - ?o)) mod MAX_OPS"
    unfolding j by (rule mod_add_right_eq)
  also have "?o + (c + MAX_OPS - ?o) = c + MAX_OPS" using o by simp
  finally have "(?o + j) mod MAX_OPS = c" using c(2) by simp
  then have "ring_of s ! j = entry ?b ! c"
    using len \<open>j < MAX_OPS\<close> by (simp add: rot nth_rotate)
  then have "length (cmds (drv_abs s) ! j) = esize (entry ?b ! c)"
    using length_cmds [OF inv, of j] ten \<open>j < MAX_OPS\<close> by simp
  then show ?thesis
    using c by (simp add: aesd_ioctl_slots [OF len pd c(1)])
qed

text \<open>
  The full ring of the earlier example after one more command, of five bytes: command zero is now
  in slot one, and the newest command in slot zero.
\<close>

definition example_wrapped :: kstate where
  "example_wrapped =
     \<lparr>heap = (\<lambda>p. if p \<in> {102..110} then Some [newline]
              else if p = 300 then Some (''abcd'' @ [newline]) else None),
      dev = \<lparr>buffer = \<lparr>entry = \<lparr>buffptr = 300, entry_size = 5\<rparr>
                   # map (\<lambda>i. \<lparr>buffptr = i, entry_size = 1\<rparr>) [102..<111],
               in_offs = 1, out_offs = 1, full = True\<rparr>,
             dev_entry = zero_entry, lock = None\<rparr>\<rparr>"

lemma example_wrapped_ring:
  "ring_of example_wrapped = map (\<lambda>i. \<lparr>buffptr = i, entry_size = 1\<rparr>) [102..<111]
     @ [\<lparr>buffptr = 300, entry_size = 5\<rparr>]"
  by (simp add: example_wrapped_def ring_entries_def filter_map comp_def)

lemma example_wrapped_inv: "drv_inv example_wrapped"
  unfolding drv_inv_def owned_def example_wrapped_ring
  by (simp add: example_wrapped_def heap_ok_def ring_inv_def ring_wrapped_def holds_def list_all_iff
      pending_ok_def owned_pending_def comp_def)

lemma example_wrapped_cmds:
  "cmds (drv_abs example_wrapped) = replicate 9 [newline] @ [''abcd'' @ [newline]]"
proof -
  have "map (\<lambda>i. block_of (heap example_wrapped) \<lparr>buffptr = i, entry_size = 1\<rparr>) [102..<111]
      = map (\<lambda>_. [newline]) [102..<111]"
    by (intro map_cong) (auto simp: block_of_def example_wrapped_def)
  also have "\<dots> = replicate 9 [newline]" by (simp add: eval_nat_numeral)
  finally have "map (\<lambda>i. block_of (heap example_wrapped) \<lparr>buffptr = i, entry_size = 1\<rparr>) [102..<111]
      = replicate 9 [newline]" .
  moreover have "block_of (heap example_wrapped) \<lparr>buffptr = 300, entry_size = 5\<rparr> = ''abcd'' @ [newline]"
    by (simp add: block_of_def example_wrapped_def)
  ultimately show ?thesis by (simp add: drv_abs_def example_wrapped_ring comp_def)
qed

theorem seek_command_after_wrap_witness:
  "aesd_ioctl AESDCHAR_IOCSEEKTO (Some \<lparr>write_cmd = 9, write_cmd_offset = 2\<rparr>)
      \<lparr>f_pos = 7, private_data = 5000\<rparr> example_wrapped
      = Inr (- EINVAL, \<lparr>f_pos = 7, private_data = 5000\<rparr>) \<and>
    length (cmds (drv_abs example_wrapped) ! 9) = 5 \<and>
    aesd_ioctl AESDCHAR_IOCSEEKTO (Some \<lparr>write_cmd = 0, write_cmd_offset = 2\<rparr>)
      \<lparr>f_pos = 7, private_data = 5000\<rparr> example_wrapped
      = Inr (0, \<lparr>f_pos = 2, private_data = 5000\<rparr>) \<and>
    length (cmds (drv_abs example_wrapped) ! 0) = 1"
proof -
  let ?filp = "\<lparr>f_pos = 7, private_data = 5000\<rparr>"
  let ?a = "\<lparr>write_cmd = 9, write_cmd_offset = 2\<rparr>" and ?b = "\<lparr>write_cmd = 0, write_cmd_offset = 2\<rparr>"
  have n: "length (cmds (drv_abs example_wrapped)) = MAX_OPS" by (simp add: example_wrapped_cmds)
  have pd: "private_data ?filp \<noteq> 0" by simp
  have c: "9 = unat (write_cmd ?a)" "9 < MAX_OPS" "0 = unat (write_cmd ?b)" "0 < MAX_OPS" by simp_all
  have j: "8 = (9 + MAX_OPS - unat (out_offs (buffer (dev example_wrapped)))) mod MAX_OPS"
      "9 = (0 + MAX_OPS - unat (out_offs (buffer (dev example_wrapped)))) mod MAX_OPS"
    by (simp_all add: example_wrapped_def)
  have len: "length (cmds (drv_abs example_wrapped) ! 8) = 1"
      "length (cmds (drv_abs example_wrapped) ! 9) = 5" "length (cmds (drv_abs example_wrapped) ! 0) = 1"
    by (simp_all add: example_wrapped_cmds nth_append)
  show ?thesis
    using seek_command_after_wrap [OF example_wrapped_inv n pd c(1,2) j(1)]
      seek_command_after_wrap [OF example_wrapped_inv n pd c(3,4) j(2)]
    by (simp add: len)
qed

text \<open>
  The other arguments of \<open>aesd_ioctl\<close>: the command number is \<open>0xC0081601\<close>, any other number is
  \<open>-ENOTTY\<close>, an argument that cannot be copied is \<open>-EFAULT\<close>, a write command of ten or more is
  \<open>-EINVAL\<close>; in all three cases the file is not moved.
\<close>

theorem seek_command_errors:
  "AESDCHAR_IOCSEEKTO = 0xC0081601 \<and>
   (cmd = AESDCHAR_IOCSEEKTO \<or> aesd_ioctl cmd arg filp s = Inr (- ENOTTY, filp)) \<and>
   aesd_ioctl AESDCHAR_IOCSEEKTO None filp s = Inr (- EFAULT, filp) \<and>
   (unat (write_cmd st) < MAX_OPS \<or>
    aesd_ioctl AESDCHAR_IOCSEEKTO (Some st) filp s = Inr (- EINVAL, filp))"
  by (auto simp: aesd_ioctl_def AESDCHAR_IOCSEEKTO_def IOWR_def)

end
