(* ===== verification/Driver_Module.thy ===== *)
theory Driver_Module imports Main Driver_Seek begin

text \<open>
  The entry and the exit of the kernel module, \<open>aesd_init_module\<close> and \<open>aesd_cleanup_module\<close>, with
  \<open>aesd_setup_cdev\<close>: which kernel objects they register and release, in which order, and which
  blocks they free. What the kernel answers to each registration is a parameter
  (\<open>module_env\<close>).
\<close>

section \<open>Kernel objects\<close>

text \<open>In the order in which the module registers them.\<close>

datatype resource = Region | Cdev | Class | Node

fun stage :: "resource \<Rightarrow> nat" where
  "stage Region = 0"
| "stage Cdev = 1"
| "stage Class = 2"
| "stage Node = 3"

instantiation resource :: linorder
begin

definition less_eq_resource :: "resource \<Rightarrow> resource \<Rightarrow> bool" where
  "less_eq_resource a b \<longleftrightarrow> stage a \<le> stage b"

definition less_resource :: "resource \<Rightarrow> resource \<Rightarrow> bool" where
  "less_resource a b \<longleftrightarrow> stage a < stage b"

instance
proof
  fix x y :: resource
  assume "x \<le> y" and "y \<le> x"
  then show "x = y"
    by (cases x; cases y) (simp_all add: less_eq_resource_def)
qed (auto simp: less_eq_resource_def less_resource_def)

end

text \<open>A pointer the kernel returns: a valid one, NULL, or an error number in disguise.\<close>

datatype kptr = Valid_Ptr | Null_Ptr | Err_Ptr int

record module_env =
  region_result :: int        \<comment> \<open>\<open>alloc_chrdev_region\<close>\<close>
  region_dev :: uint32_t      \<comment> \<open>the number it stores on success\<close>
  cdev_add_result :: int
  class_create_result :: kptr
  device_create_result :: kptr

record module_state =
  kst :: kstate
  registered :: "resource set"
  devno :: uint32_t           \<comment> \<open>the registered device number\<close>
  aesd_major :: uint32_t

abbreviation aesd_minor :: uint32_t where "aesd_minor \<equiv> 0"

text \<open>The kernel's macros on device numbers, with 20 bits of minor number.\<close>

definition MAJOR :: "uint32_t \<Rightarrow> uint32_t" where
  "MAJOR d = drop_bit 20 d"

definition MKDEV :: "uint32_t \<Rightarrow> uint32_t \<Rightarrow> uint32_t" where
  "MKDEV ma mi = or (push_bit 20 ma) mi"

section \<open>Entry\<close>

definition register :: "resource \<Rightarrow> module_state \<Rightarrow> module_state" where
  "register r m = m\<lparr>registered := insert r (registered m)\<rparr>"

definition release :: "resource \<Rightarrow> module_state \<Rightarrow> module_state" where
  "release r m = m\<lparr>registered := registered m - {r}\<rparr>"

text \<open>\<open>unregister_chrdev_region\<close> releases the numbers it is given.\<close>

definition unregister_region :: "uint32_t \<Rightarrow> module_state \<Rightarrow> module_state" where
  "unregister_region d m = (if d = devno m then release Region m else m)"

definition aesd_setup_cdev :: "module_env \<Rightarrow> module_state \<Rightarrow> int \<times> module_state" where
  "aesd_setup_cdev env m =
     (let err = cdev_add_result env in (err, if err = 0 then register Cdev m else m))"

definition zero_dev :: "aesd_circular_buffer \<Rightarrow> aesd_dev" where
  "zero_dev b = \<lparr>buffer = b, dev_entry = zero_entry, lock = None\<rparr>"

text \<open>
  \<open>memset\<close> of the device, \<open>mutex_init\<close> and \<open>aesd_circular_buffer_init\<close>; the last two find the
  device already zero.
\<close>

definition init_device :: "kstate \<Rightarrow> kstate" where
  "init_device s =
     (let zeroed = \<lparr>entry = replicate MAX_OPS zero_entry, in_offs = 0, out_offs = 0, full = False\<rparr> in
      case aesd_circular_buffer_init (Some zeroed) of
        Inr b \<Rightarrow> s\<lparr>dev := zero_dev b\<rparr>
      | Inl _ \<Rightarrow> s)"

definition aesd_init_module :: "module_env \<Rightarrow> module_state \<Rightarrow> int \<times> module_state" where
  "aesd_init_module env m =
     (let result = region_result env;
          d = (if result < 0 then 0 else region_dev env);
          m0 = m\<lparr>aesd_major := MAJOR d\<rparr>
      in if result < 0 then (result, m0)
      else
        let m1 = register Region (m0\<lparr>devno := d, kst := init_device (kst m0)\<rparr>);
            (result, m2) = aesd_setup_cdev env m1
        in if result \<noteq> 0 then (result, unregister_region d m2)
        else case class_create_result env of
          Err_Ptr e \<Rightarrow> (e, unregister_region d (release Cdev m2))
        | _ \<Rightarrow>
            let m3 = register Class m2 in
            if device_create_result env = Null_Ptr
            then (- 1, unregister_region d (release Cdev (release Class m3)))
            else (0, if device_create_result env = Valid_Ptr then register Node m3 else m3))"

section \<open>Exit\<close>

text \<open>The loop over the slots.\<close>

fun free_slots :: "aesd_buffer_entry list \<Rightarrow> heap \<Rightarrow> heap outcome" where
  "free_slots [] h = Inr h"
| "free_slots (e # es) h =
     (if buffptr e \<noteq> NULL then bindR (kfree (buffptr e) h) (free_slots es) else free_slots es h)"

definition aesd_cleanup_module :: "module_state \<Rightarrow> module_state outcome" where
  "aesd_cleanup_module m =
     (let d = MKDEV (aesd_major m) aesd_minor;
          m1 = release Cdev (release Class (release Node m))
      in bindR (free_slots (take MAX_OPS (entry (buffer (dev (kst m))))) (heap (kst m))) (\<lambda>h.
           Inr (unregister_region d (m1\<lparr>kst := (kst m)\<lparr>heap := h\<rparr>\<rparr>))))"

section \<open>Facts\<close>

lemma MKDEV_MAJOR: "take_bit 20 d = 0 \<Longrightarrow> MKDEV (MAJOR d) 0 = d"
  using bits_ident [of 20 d] by (simp add: MKDEV_def MAJOR_def)

lemma init_device_ok:
  assumes "heap_ok (heap s)"
  shows "drv_inv (init_device s)" and "drv_abs (init_device s) = \<lparr>cmds = [], pending = []\<rparr>"
    and "lock (dev (init_device s)) = None" and "heap (init_device s) = heap s"
proof -
  let ?b = "\<lparr>entry = replicate MAX_OPS zero_entry, in_offs = 0, out_offs = 0, full = False\<rparr>"
  have s: "init_device s = s\<lparr>dev := zero_dev ?b\<rparr>"
    by (simp add: init_device_def aesd_circular_buffer_init_def)
  show "drv_inv (init_device s)"
    using assms ring.invar_start unfolding s drv_inv_def owned_def
    by (simp add: ring.entries_start zero_dev_def pending_ok_def owned_pending_def)
  show "drv_abs (init_device s) = \<lparr>cmds = [], pending = []\<rparr>"
    unfolding s drv_abs_def by (simp add: zero_dev_def ring.entries_start)
  show "lock (dev (init_device s)) = None" and "heap (init_device s) = heap s"
    unfolding s by (simp_all add: zero_dev_def)
qed

lemma free_slots_ok:
  assumes "heap_ok h" and "list_all (\<lambda>e. nonempty e \<or> e = zero_entry) es"
    and "distinct (map buffptr (filter nonempty es))"
    and "list_all (holds h) (filter nonempty es)"
  shows "free_slots es h = Inr (h |` (- set (map buffptr (filter nonempty es))))"
  using assms
proof (induction es arbitrary: h)
  case Nil
  then show ?case by simp
next
  case (Cons e es)
  show ?case
  proof (cases "nonempty e")
    case False
    with Cons show ?thesis by simp
  next
    case True
    let ?p = "buffptr e" and ?fs = "filter nonempty es"
    have live: "h ?p \<noteq> None" using Cons.prems(4) True by (auto simp: holds_iff)
    then have p: "?p \<noteq> NULL" using heap_ok_live [OF Cons.prems(1)] by blast
    have ok: "heap_ok (h(?p := None))" using Cons.prems(1) live by (rule heap_ok_live_upd)
    have "holds (h(?p := None)) x" if "x \<in> set ?fs" for x
    proof -
      have "?p \<notin> buffptr ` set ?fs" using Cons.prems(3) True by simp
      then have "buffptr x \<noteq> ?p" using that by (metis imageI)
      then show ?thesis using Cons.prems(4) True that by (simp add: list_all_iff holds_upd_other)
    qed
    then have held: "list_all (holds (h(?p := None))) ?fs" by (simp add: list_all_iff)
    have "list_all (\<lambda>e. nonempty e \<or> e = zero_entry) es" "distinct (map buffptr ?fs)"
      using Cons.prems(2,3) True by simp_all
    from Cons.IH [OF ok this held] have "free_slots es (h(?p := None))
        = Inr ((h(?p := None)) |` (- set (map buffptr ?fs)))" .
    moreover have "(h(?p := None)) |` (- set (map buffptr ?fs))
        = h |` (- set (map buffptr (filter nonempty (e # es))))"
      using True by (auto simp: restrict_map_def)
    ultimately show ?thesis
      using p kfree_live [OF live Cons.prems(1)] by simp
  qed
qed

lemma distinct_filter_rotate:
  "distinct (map f (filter P (rotate n xs))) = distinct (map f (filter P xs))"
proof -
  have "distinct (map f (filter P (b @ a))) = distinct (map f (filter P (a @ b)))" for a b
    by (simp add: Int_commute conj_comms)
  then show ?thesis by (metis rotate_drop_take append_take_drop_id)
qed

lemma slots_nonempty_or_zero:
  "ring_inv b \<Longrightarrow> list_all (\<lambda>e. nonempty e \<or> e = zero_entry) (entry b)"
  by (cases b rule: ring_invE) (auto simp: list_all_iff)

section \<open>Properties of the module\<close>

text \<open>
  C38. Loading the module is all or nothing, up to the device node: when it returns an error every
  object registered on the way has been released again, and when it returns zero the region, the
  character device and the class are registered and the device is an empty log with its mutex
  free. The node exists exactly when \<open>device_create\<close> gave a valid pointer.
\<close>

theorem init_module_outcome:
  assumes "registered m = {}" and "heap_ok (heap (kst m))"
    and "\<And>e. class_create_result env = Err_Ptr e \<Longrightarrow> e \<noteq> 0"
    and "aesd_init_module env m = (result, m')"
  shows "if result \<noteq> 0 then registered m' = {}
    else registered m' = {Region, Cdev, Class} \<union>
        (if device_create_result env = Valid_Ptr then {Node} else {}) \<and>
      drv_inv (kst m') \<and> drv_abs (kst m') = \<lparr>cmds = [], pending = []\<rparr> \<and>
      lock (dev (kst m')) = None \<and> heap (kst m') = heap (kst m)"
  using assms init_device_ok [OF assms(2)]
  by (auto simp: aesd_init_module_def aesd_setup_cdev_def register_def release_def
      unregister_region_def Let_def split: if_splits kptr.splits)

text \<open>A kernel that grants everything, with major number 240, and a machine before the load.\<close>

definition example_env :: module_env where
  "example_env = \<lparr>region_result = 0, region_dev = 0xF000000, cdev_add_result = 0,
     class_create_result = Valid_Ptr, device_create_result = Valid_Ptr\<rparr>"

definition example_module :: module_state where
  "example_module = \<lparr>kst = example_full\<lparr>heap := Map.empty\<rparr>, registered = {}, devno = 0, aesd_major = 0\<rparr>"

theorem init_module_outcome_witness:
  "\<exists>m'. aesd_init_module example_env example_module = (0, m') \<and>
    registered m' = {Region, Cdev, Class, Node} \<and> drv_inv (kst m') \<and>
    drv_abs (kst m') = \<lparr>cmds = [], pending = []\<rparr>"
proof -
  obtain r m' where run: "aesd_init_module example_env example_module = (r, m')" by fastforce
  have zero: "r = 0"
    using run by (simp add: aesd_init_module_def aesd_setup_cdev_def example_env_def Let_def)
  have "if r \<noteq> 0 then registered m' = {}
    else registered m' = {Region, Cdev, Class} \<union>
        (if device_create_result example_env = Valid_Ptr then {Node} else {}) \<and>
      drv_inv (kst m') \<and> drv_abs (kst m') = \<lparr>cmds = [], pending = []\<rparr> \<and>
      lock (dev (kst m')) = None \<and> heap (kst m') = heap (kst example_module)"
    by (rule init_module_outcome [OF _ _ _ run])
      (simp_all add: example_module_def heap_ok_def example_env_def)
  with run zero show ?thesis by (auto simp: example_env_def)
qed

text \<open>
  \<open>device_create\<close> fails with an error pointer, which is not NULL and so passes the test of
  \<open>aesd_init_module\<close>: the module then reports success without a device node.
\<close>

theorem missing_node_reported_as_success:
  assumes "device_create_result env = Err_Ptr e" and "class_create_result env = Valid_Ptr"
    and "0 \<le> region_result env" and "cdev_add_result env = 0" and "Node \<notin> registered m"
  shows "\<exists>m'. aesd_init_module env m = (0, m') \<and> Node \<notin> registered m' \<and> Class \<in> registered m'"
  using assms by (auto simp: aesd_init_module_def aesd_setup_cdev_def register_def Let_def)

theorem missing_node_reported_as_success_witness:
  "\<exists>m'. aesd_init_module (example_env\<lparr>device_create_result := Err_Ptr (- 12)\<rparr>) example_module
      = (0, m') \<and> Node \<notin> registered m' \<and> Class \<in> registered m'"
  by (rule missing_node_reported_as_success [of _ "- 12"])
    (simp_all add: example_env_def example_module_def)

text \<open>
  C37. Unloading a module whose device is well formed faults nowhere (no block is freed twice),
  releases every kernel object, and frees exactly the blocks of the stored commands: what stays
  allocated is what earlier writes had lost and the block of a command still under way.
\<close>

theorem cleanup_module_frees_ring:
  assumes inv: "drv_inv (kst m)" and minor: "take_bit 20 (devno m) = 0"
    and major: "aesd_major m = MAJOR (devno m)"
  shows "\<exists>m'. aesd_cleanup_module m = Inr m' \<and> registered m' = {} \<and>
    dom (heap (kst m')) = leaked (kst m) \<union> set (owned_pending (kst m))"
proof -
  let ?s = "kst m" and ?h = "heap (kst m)"
  let ?b = "buffer (dev ?s)" and ?fs = "filter nonempty (entry (buffer (dev (kst m))))"
  have ring: "ring_inv ?b" and ok: "heap_ok ?h" using drv_invD [OF inv] by simp_all
  have set: "set (map buffptr ?fs) = set (map buffptr (ring_of ?s))"
    by (simp add: set_ring_entries)
  have dist: "distinct (map buffptr ?fs)"
    using drv_invD(6) [OF inv] by (simp add: ring_entries_def distinct_filter_rotate)
  have held: "list_all (holds ?h) ?fs"
    using drv_invD(4) [OF inv] by (simp add: list_all_iff set_ring_entries)
  have "take MAX_OPS (entry ?b) = entry ?b" using ring by (simp add: ring_inv_def)
  then have free: "free_slots (take MAX_OPS (entry ?b)) ?h
      = Inr (?h |` (- set (map buffptr (ring_of ?s))))"
    using free_slots_ok [OF ok slots_nonempty_or_zero [OF ring] dist held] set by simp
  have all: "registered m - {Node} - {Class} - {Cdev} - {Region} = {}"
    using resource.exhaust by blast
  have "dom (?h |` (- set (map buffptr (ring_of ?s)))) = leaked ?s \<union> set (owned_pending ?s)"
    using owned_live [OF inv] drv_invD(5) [OF inv]
    unfolding dom_restrict leaked_def owned_def set_append distinct_append by blast
  then show ?thesis
    using MKDEV_MAJOR [OF minor] all
    by (simp add: aesd_cleanup_module_def free major unregister_region_def release_def Let_def)
qed

theorem cleanup_module_frees_ring_witness:
  "\<exists>m'. aesd_cleanup_module (example_module\<lparr>kst := example_pending, devno := 0xF000000,
        aesd_major := 0xF0, registered := {Region, Cdev, Class, Node}\<rparr>) = Inr m' \<and>
    registered m' = {} \<and> 400 \<in> dom (heap (kst m'))"
proof -
  let ?m = "example_module\<lparr>kst := example_pending, devno := 0xF000000,
        aesd_major := 0xF0, registered := {Region, Cdev, Class, Node}\<rparr>"
  have "400 \<in> set (owned_pending (kst ?m))" by (simp add: owned_pending_def example_pending_def)
  moreover have "drv_inv (kst ?m)" using example_pending_inv by simp
  ultimately show ?thesis
    using cleanup_module_frees_ring [of ?m] by (auto simp: MAJOR_def take_bit_eq_mod)
qed

end
