(* ===== verification/Aesd_Socket.thy ===== *)
theory Aesd_Socket imports Main Aesd_Driver begin

text \<open>
  The request handling of \<^verbatim>\<open>server/aesdsocket.c\<close>: \<open>handle_client\<close> from the lock of \<open>file_mutex\<close> to
  its return, the process end through \<open>cleanup\<close>, and one turn of \<open>timestamp_thread\<close>.

  The system calls on \<open>DATA_FILE\<close> are a parameter, a record of operations on a state of type \<open>'w\<close>:
  with \<open>USE_AESD_CHAR_DEVICE\<close> they end in the driver, otherwise in a file system. A call that fails
  returns -1. What a client does is a parameter too (\<open>client\<close>): the successive results of \<open>recv\<close>,
  and what \<open>send\<close> gets through to it.
\<close>

section \<open>The system calls\<close>

datatype open_flags =
    RDWR_CREAT          \<comment> \<open>\<open>O_RDWR | O_CREAT\<close>\<close>
  | WRONLY_CREAT_APPEND \<comment> \<open>\<open>O_WRONLY | O_CREAT | O_APPEND\<close>\<close>
  | RDONLY              \<comment> \<open>\<open>O_RDONLY\<close>\<close>

record 'w file_ops =
  sys_open :: "open_flags \<Rightarrow> 'w \<Rightarrow> (int \<times> 'w) outcome"
  sys_write :: "int \<Rightarrow> byte list \<Rightarrow> 'w \<Rightarrow> (int \<times> 'w) outcome"
  sys_ioctl :: "int \<Rightarrow> uint32_t \<Rightarrow> aesd_seekto \<Rightarrow> 'w \<Rightarrow> (int \<times> 'w) outcome"
  sys_lseek :: "int \<Rightarrow> int \<Rightarrow> int \<Rightarrow> 'w \<Rightarrow> (int \<times> 'w) outcome"
  sys_read :: "int \<Rightarrow> nat \<Rightarrow> 'w \<Rightarrow> (int \<times> byte list \<times> 'w) outcome"
  sys_close :: "int \<Rightarrow> 'w \<Rightarrow> 'w"
  sys_unlink :: "'w \<Rightarrow> 'w"

text \<open>
  A client: \<open>recvs\<close> are the bytes of each \<open>recv\<close> that returns some (at most 1024 of them), after
  which \<open>recv\<close> returns zero or an error. \<open>stale\<close> is what the 1024 bytes of \<open>buffer\<close> hold before
  the first \<open>recv\<close>. \<open>takes sent bs\<close> is the part of \<open>bs\<close> that \<open>send\<close> delivers to a client that has
  got \<open>sent\<close> so far, or \<open>None\<close> when the client is gone, and \<open>send\<close> raises \<open>SIGPIPE\<close>.
\<close>

record client =
  recvs :: "byte list list"
  stale :: "byte list"
  takes :: "byte list \<Rightarrow> byte list \<Rightarrow> byte list option"

definition BUFFER_SIZE :: nat where "BUFFER_SIZE = 1024"

definition client_ok :: "client \<Rightarrow> bool" where
  "client_ok cl \<longleftrightarrow> length (stale cl) = BUFFER_SIZE \<and>
     (\<forall>c \<in> set (recvs cl). c \<noteq> [] \<and> length c \<le> BUFFER_SIZE)"

record 'w server =
  data_file :: 'w
  file_mutex :: "tid option"
  sent :: "byte list" \<comment> \<open>to the client being served\<close>

text \<open>How a connection ends: served, closed by the client, or with the end of the whole server.\<close>

datatype client_end = Replied | Hung_Up | Server_Exits | Server_Killed

section \<open>Parsing the seek command\<close>

definition seek_prefix :: "byte list" where
  "seek_prefix = ''AESDCHAR_IOCSEEKTO:''"

text \<open>\<open>recv\<close> leaves the rest of the buffer as it was.\<close>

definition recv_into :: "byte list \<Rightarrow> byte list \<Rightarrow> byte list" where
  "recv_into chunk buf = chunk @ drop (length chunk) buf"

text \<open>The string that starts at a pointer; without a terminator the reader runs off the array.\<close>

definition c_string :: "byte list \<Rightarrow> byte list outcome" where
  "c_string bs =
     (if CHR 0x00 \<in> set bs then Inr (takeWhile (\<lambda>c. c \<noteq> CHR 0x00) bs) else Inl Out_Of_Bounds)"

definition is_space :: "byte \<Rightarrow> bool" where
  "is_space c \<longleftrightarrow> c \<in> {CHR 0x20, CHR 0x09, CHR 0x0A, CHR 0x0B, CHR 0x0C, CHR 0x0D}"

definition is_digit :: "byte \<Rightarrow> bool" where
  "is_digit c \<longleftrightarrow> of_char c \<ge> (48 :: nat) \<and> of_char c \<le> (57 :: nat)"

definition digits_value :: "byte list \<Rightarrow> nat" where
  "digits_value ds = foldl (\<lambda>n c. 10 * n + (of_char c - 48)) 0 ds"

text \<open>
  The conversion \<open>%u\<close>: white space, a sign, digits. The C standard leaves undefined what happens
  when the result cannot be represented in the object, here a number of 32 bits without a sign.
\<close>

definition scan_sign :: "byte list \<Rightarrow> bool \<times> byte list" where
  "scan_sign s =
     (case s of
        [] \<Rightarrow> (False, [])
      | c # cs \<Rightarrow> if c = CHR ''-'' then (True, cs) else if c = CHR ''+'' then (False, cs) else (False, s))"

definition scan_u :: "byte list \<Rightarrow> (uint32_t \<times> byte list) option outcome" where
  "scan_u s =
     (let (negative, s1) = scan_sign (dropWhile is_space s);
          ds = takeWhile is_digit s1;
          n = digits_value ds
      in if ds = [] then Inr None
         else if n \<ge> 2 ^ 32 \<or> negative \<and> n \<noteq> 0 then Inl Bad_Conversion
         else Inr (Some (of_nat n, dropWhile is_digit s1)))"

text \<open>\<open>sscanf(s, "%u,%u", ...)\<close>, when it converts both.\<close>

definition sscanf_u_u :: "byte list \<Rightarrow> (uint32_t \<times> uint32_t) option outcome" where
  "sscanf_u_u s =
     bindR (scan_u s) (\<lambda>r.
       case r of
         Some (a, c # s1) \<Rightarrow>
           if c = CHR '','' then bindR (scan_u s1) (\<lambda>q. Inr (map_option (\<lambda>(b, _). (a, b)) q)) else Inr None
       | _ \<Rightarrow> Inr None)"

section \<open>The mutex and the end of the process\<close>

definition lock_file_mutex :: "tid \<Rightarrow> 'w server \<Rightarrow> 'w server outcome" where
  "lock_file_mutex me s =
     (case file_mutex s of None \<Rightarrow> Inr (s\<lparr>file_mutex := Some me\<rparr>) | Some _ \<Rightarrow> Inl Would_Block)"

definition unlock_file_mutex :: "tid \<Rightarrow> 'w server \<Rightarrow> 'w server outcome" where
  "unlock_file_mutex me s =
     (if file_mutex s = Some me then Inr (s\<lparr>file_mutex := None\<rparr>) else Inl Bad_Unlock)"

text \<open>
  \<open>cleanup\<close>: what remains of it in the model is the unlink, in the build without the character
  device; \<open>exit\<close> follows, so it does not return.
\<close>

definition cleanup :: "bool \<Rightarrow> 'w file_ops \<Rightarrow> 'w server \<Rightarrow> 'w server" where
  "cleanup char_device ops s =
     (if char_device then s else s\<lparr>data_file := sys_unlink ops (data_file s)\<rparr>)"

definition unlock_and_cleanup ::
  "bool \<Rightarrow> 'w file_ops \<Rightarrow> tid \<Rightarrow> 'w server \<Rightarrow> (client_end \<times> 'w server) outcome" where
  "unlock_and_cleanup char_device ops me s =
     bindR (unlock_file_mutex me s) (\<lambda>s1. Inr (Server_Exits, cleanup char_device ops s1))"

section \<open>Serving a client\<close>

text \<open>
  What one received chunk does to the file: \<open>None\<close> when the server gives up, otherwise whether the
  chunk was a seek command.
\<close>

definition store_chunk ::
  "'w file_ops \<Rightarrow> byte list \<Rightarrow> byte list \<Rightarrow> int \<Rightarrow> 'w server \<Rightarrow> (bool option \<times> 'w server) outcome" where
  "store_chunk ops chunk buf fd s =
     (if take 19 buf = seek_prefix then
        bindR (c_string (drop 19 buf)) (\<lambda>txt.
        bindR (sscanf_u_u txt) (\<lambda>numbers.
          case numbers of
            None \<Rightarrow> Inr (None, s)
          | Some (a, b) \<Rightarrow>
              bindR (sys_ioctl ops fd AESDCHAR_IOCSEEKTO \<lparr>write_cmd = a, write_cmd_offset = b\<rparr> (data_file s))
                (\<lambda>(seek_val, w).
                  if seek_val = -1 then Inr (None, s\<lparr>data_file := w\<rparr>)
                  else Inr (Some True, s\<lparr>data_file := w\<rparr>))))
      else bindR (sys_write ops fd chunk (data_file s)) (\<lambda>(_, w). Inr (Some False, s\<lparr>data_file := w\<rparr>)))"

text \<open>
  The loop that reads the file and sends what it reads, until \<open>read\<close> returns zero or less; the
  result tells whether the client was there to the end.
\<close>

partial_function (option) send_loop ::
  "'w file_ops \<Rightarrow> client \<Rightarrow> int \<Rightarrow> 'w server \<Rightarrow> (bool \<times> 'w server) outcome option" where
  "send_loop ops cl fd s =
     (case sys_read ops fd BUFFER_SIZE (data_file s) of
        Inl e \<Rightarrow> Some (Inl e)
      | Inr (n, bs, w) \<Rightarrow>
          if n \<le> 0 then Some (Inr (True, s\<lparr>data_file := w\<rparr>))
          else (case takes cl (sent s) bs of
              None \<Rightarrow> Some (Inr (False, s\<lparr>data_file := w\<rparr>))
            | Some arrived \<Rightarrow> send_loop ops cl fd (s\<lparr>data_file := w, sent := sent s @ arrived\<rparr>)))"

text \<open>The reply to a chunk with a newline: rewind unless a seek command was given, send, close, unlock.\<close>

definition send_reply ::
  "bool \<Rightarrow> 'w file_ops \<Rightarrow> tid \<Rightarrow> client \<Rightarrow> bool \<Rightarrow> int \<Rightarrow> 'w server \<Rightarrow> (client_end \<times> 'w server) outcome option" where
  "send_reply char_device ops me cl seekset fd s =
     (case (if seekset then Inr (0, data_file s) else sys_lseek ops fd 0 SEEK_SET (data_file s)) of
        Inl e \<Rightarrow> Some (Inl e)
      | Inr (r, w) \<Rightarrow>
          let s1 = s\<lparr>data_file := w\<rparr> in
          if r = -1 then
            Some (unlock_and_cleanup char_device ops me (s1\<lparr>data_file := sys_close ops fd (data_file s1)\<rparr>))
          else
            (case send_loop ops cl fd s1 of
               None \<Rightarrow> None
             | Some (Inl e) \<Rightarrow> Some (Inl e)
             | Some (Inr (present, s2)) \<Rightarrow>
                 if \<not> present then Some (Inr (Server_Killed, s2))
                 else
                   let s3 = s2\<lparr>data_file := sys_close ops fd (data_file s2)\<rparr> in
                   Some (bindR (unlock_file_mutex me s3) (\<lambda>s4. Inr (Replied, s4)))))"

text \<open>
  The loop over \<open>recv\<close>. A chunk without a newline leaves its descriptor open; the end of the
  connection leaves the loop with the mutex still locked.
\<close>

fun client_loop ::
  "bool \<Rightarrow> 'w file_ops \<Rightarrow> tid \<Rightarrow> client \<Rightarrow> byte list list \<Rightarrow> byte list \<Rightarrow> 'w server \<Rightarrow>
   (client_end \<times> 'w server) outcome option" where
  "client_loop char_device ops me cl [] buf s = Some (Inr (Hung_Up, s))"
| "client_loop char_device ops me cl (chunk # chunks) buf s =
     (let buf1 = recv_into chunk buf in
      case sys_open ops RDWR_CREAT (data_file s) of
        Inl e \<Rightarrow> Some (Inl e)
      | Inr (fd, w) \<Rightarrow>
          let s1 = s\<lparr>data_file := w\<rparr> in
          if fd = -1 then Some (unlock_and_cleanup char_device ops me s1)
          else
            (case store_chunk ops chunk buf1 fd s1 of
               Inl e \<Rightarrow> Some (Inl e)
             | Inr (None, s2) \<Rightarrow> Some (unlock_and_cleanup char_device ops me s2)
             | Inr (Some seekset, s2) \<Rightarrow>
                 if newline \<in> set chunk then send_reply char_device ops me cl seekset fd s2
                 else client_loop char_device ops me cl chunks buf1 s2))"

definition handle_client ::
  "bool \<Rightarrow> 'w file_ops \<Rightarrow> tid \<Rightarrow> client \<Rightarrow> 'w server \<Rightarrow> (client_end \<times> 'w server) outcome option" where
  "handle_client char_device ops me cl s =
     (case lock_file_mutex me s of
        Inl e \<Rightarrow> Some (Inl e)
      | Inr s1 \<Rightarrow> client_loop char_device ops me cl (recvs cl) (stale cl) (s1\<lparr>sent := []\<rparr>))"

section \<open>The timestamp thread\<close>

text \<open>
  One turn of the loop, up to the sleep, with the text \<open>strftime\<close> made. When the file cannot be
  opened \<open>cleanup\<close> ends the process, with the mutex locked.
\<close>

definition timestamp_turn ::
  "bool \<Rightarrow> 'w file_ops \<Rightarrow> tid \<Rightarrow> byte list \<Rightarrow> 'w server \<Rightarrow> (unit proc \<times> 'w server) outcome" where
  "timestamp_turn char_device ops me timestamp s =
     bindR (lock_file_mutex me s) (\<lambda>s1.
     bindR (sys_open ops WRONLY_CREAT_APPEND (data_file s1)) (\<lambda>(fd, w).
       if fd = -1 then Inr (Exits 0, cleanup char_device ops (s1\<lparr>data_file := w\<rparr>))
       else
         bindR (sys_write ops fd timestamp w) (\<lambda>(_, w1).
         bindR (unlock_file_mutex me (s1\<lparr>data_file := sys_close ops fd w1\<rparr>)) (\<lambda>s2. Inr (Continues (), s2)))))"

end
