(* ===== verification/Data_File.thy ===== *)
theory Data_File imports Main Aesd_Socket Driver_Seek begin

text \<open>
  What the server relies on of the file behind \<open>DATA_FILE\<close>, as three locales, and what it then does
  for a client. \<open>readable_file\<close> is enough for the loop that sends the file; \<open>chunk_file\<close> adds
  descriptors, the rewind and what a chunk does to the file (\<open>put\<close>); \<open>log_file\<close> is a chunk file
  that is a log of commands and knows the seek command. \<open>pos_of fd\<close> is the position of an
  open descriptor, and \<open>view\<close> what can be seen of the file: nothing of it changes by reading.
\<close>

section \<open>Reading\<close>

locale readable_file =
  fixes ops :: "'w file_ops"
    and ok :: "'w \<Rightarrow> bool"
    and view :: "'w \<Rightarrow> 'v"
    and bytes_of :: "'v \<Rightarrow> byte list"
    and pos_of :: "int \<Rightarrow> 'w \<Rightarrow> nat option"
  assumes read_law: "ok w \<Longrightarrow> pos_of fd w = Some p \<Longrightarrow>
    \<exists>bs w'. sys_read ops fd BUFFER_SIZE w = Inr (int (length bs), bs, w') \<and> ok w' \<and>
      view w' = view w \<and> pos_of fd w' = Some (p + length bs) \<and>
      (\<exists>rest. drop p (bytes_of (view w)) = bs @ rest) \<and> (p < length (bytes_of (view w)) \<longrightarrow> bs \<noteq> [])"
begin

text \<open>
  The loop returns, whatever becomes of the client, and one that takes every byte gets all bytes
  from the position on, once and in order.
\<close>

lemma send_loop_returns:
  assumes "ok (data_file s)" and "pos_of fd (data_file s) = Some p"
  shows "\<exists>there w' bs. send_loop ops cl fd s = Some (Inr (there, s\<lparr>data_file := w', sent := sent s @ bs\<rparr>)) \<and>
    ok w' \<and> view w' = view (data_file s) \<and> pos_of fd w' \<noteq> None \<and>
    ((\<forall>a bs. takes cl a bs = Some bs) \<longrightarrow> there \<and> bs = drop p (bytes_of (view (data_file s))))"
  using assms
proof (induction "length (bytes_of (view (data_file s))) - p" arbitrary: s p rule: less_induct)
  case less
  let ?all = "bytes_of (view (data_file s))"
  obtain bs w rest where r: "sys_read ops fd BUFFER_SIZE (data_file s) = Inr (int (length bs), bs, w)"
    "ok w" "view w = view (data_file s)" "pos_of fd w = Some (p + length bs)" "drop p ?all = bs @ rest"
    "p < length ?all \<longrightarrow> bs \<noteq> []"
    using read_law [OF less.prems] by blast
  show ?case
  proof (cases "bs = [] \<or> takes cl (sent s) bs = None")
    case True
    then have "send_loop ops cl fd s = Some (Inr (bs = [], s\<lparr>data_file := w, sent := sent s @ []\<rparr>))"
      using r(1) by (subst send_loop.simps) auto
    moreover have "bs = [] \<Longrightarrow> drop p ?all = []" using r(6) by simp
    ultimately show ?thesis
      using r True by (intro exI [of _ "bs = []"] exI [of _ w] exI [of _ "[]"]) auto
  next
    case False
    then obtain some where t: "takes cl (sent s) bs = Some some" and bs: "bs \<noteq> []" by auto
    let ?s = "s\<lparr>data_file := w, sent := sent s @ some\<rparr>"
    have p: "p < length ?all" and rest: "drop (p + length bs) ?all = rest"
    proof -
      show "p < length ?all" using bs r(5) by (cases "p < length ?all") auto
      show "drop (p + length bs) ?all = rest"
        using arg_cong [OF r(5), of "drop (length bs)"] by (simp add: add.commute)
    qed
    have "length (bytes_of (view (data_file ?s))) - (p + length bs) < length ?all - p"
      using p bs r(3) by (simp add: diff_less_mono2)
    moreover have "ok (data_file ?s)" "pos_of fd (data_file ?s) = Some (p + length bs)" using r(2,4) by simp_all
    ultimately obtain there w' bs' where
      IH: "send_loop ops cl fd ?s = Some (Inr (there, ?s\<lparr>data_file := w', sent := sent ?s @ bs'\<rparr>))"
      "ok w'" "view w' = view (data_file ?s)" "pos_of fd w' \<noteq> None"
      "(\<forall>a bs. takes cl a bs = Some bs) \<longrightarrow> there \<and> bs' = drop (p + length bs) (bytes_of (view (data_file ?s)))"
      using less.hyps by blast
    have "send_loop ops cl fd s = Some (Inr (there, s\<lparr>data_file := w', sent := sent s @ some @ bs'\<rparr>))"
      using bs t r(1) IH(1) by (subst send_loop.simps) simp
    moreover have "some @ bs' = drop p ?all" if "\<forall>a bs. takes cl a bs = Some bs"
      using that t IH(5) rest r(3,5) by simp
    ultimately show ?thesis
      using IH(2-) r(3) by (intro exI [of _ there] exI [of _ w'] exI [of _ "some @ bs'"]) simp
  qed
qed

lemma send_loop_all:
  assumes "ok (data_file s)" and "pos_of fd (data_file s) = Some p"
    and "\<And>a bs. takes cl a bs = Some bs"
  shows "\<exists>w'. send_loop ops cl fd s = Some (Inr (True,
      s\<lparr>data_file := w', sent := sent s @ drop p (bytes_of (view (data_file s)))\<rparr>)) \<and>
    ok w' \<and> view w' = view (data_file s) \<and> pos_of fd w' \<noteq> None"
  using send_loop_returns [OF assms(1,2), of cl] assms(3) by auto

text \<open>A client that is gone when the first bytes are sent.\<close>

lemma send_loop_gone:
  assumes "ok (data_file s)" and "pos_of fd (data_file s) = Some p"
    and "p < length (bytes_of (view (data_file s)))" and "\<And>bs. bs \<noteq> [] \<Longrightarrow> takes cl (sent s) bs = None"
  shows "\<exists>w'. send_loop ops cl fd s = Some (Inr (False, s\<lparr>data_file := w'\<rparr>))"
proof -
  obtain bs w where "sys_read ops fd BUFFER_SIZE (data_file s) = Inr (int (length bs), bs, w)" "bs \<noteq> []"
    using read_law [OF assms(1,2)] assms(3) by blast
  with assms(4) show ?thesis by (subst send_loop.simps) auto
qed

end

section \<open>A file that takes chunks\<close>

text \<open>What can be seen of the file; what its data are depends on the file.\<close>

record 'd file_view =
  file_data :: 'd
  free_fds :: nat
  space :: nat      \<comment> \<open>how many more bytes may be written\<close>
  in_order :: bool  \<comment> \<open>for a log: its ring has not wrapped\<close>

text \<open>A client that takes every byte it is sent.\<close>

definition reliable :: "client \<Rightarrow> bool" where
  "reliable cl \<longleftrightarrow> (\<forall>a bs. takes cl a bs = Some bs)"

text \<open>Chunks none of which makes the start of the buffer look like a seek command.\<close>

definition buffer_after :: "byte list list \<Rightarrow> byte list \<Rightarrow> byte list" where
  "buffer_after cs buf = foldl (\<lambda>b c. recv_into c b) buf cs"

fun plain_chunks :: "byte list \<Rightarrow> byte list list \<Rightarrow> bool" where
  "plain_chunks buf [] \<longleftrightarrow> True"
| "plain_chunks buf (c # cs) \<longleftrightarrow>
     take 19 (recv_into c buf) \<noteq> seek_prefix \<and> plain_chunks (recv_into c buf) cs"

lemma buffer_after_simps [simp]:
  "buffer_after [] buf = buf" "buffer_after (c # cs) buf = buffer_after cs (recv_into c buf)"
  by (simp_all add: buffer_after_def)

lemma plain_chunks_append [simp]:
  "plain_chunks buf (cs @ ds) \<longleftrightarrow> plain_chunks buf cs \<and> plain_chunks (buffer_after cs buf) ds"
  by (induction buf cs rule: plain_chunks.induct) auto

text \<open>\<open>put bs\<close> is what writing \<open>bs\<close> through a descriptor just opened does to the data.\<close>

locale chunk_file = readable_file ops ok view "\<lambda>v. render (file_data v)" pos_of
  for ops :: "'w file_ops" and ok and view :: "'w \<Rightarrow> 'd file_view" and render pos_of +
  fixes put :: "byte list \<Rightarrow> 'd \<Rightarrow> 'd"
  assumes open_free: "ok w \<Longrightarrow> free_fds (view w) = Suc n \<Longrightarrow>
      \<exists>fd w'. sys_open ops RDWR_CREAT w = Inr (fd, w') \<and> 0 \<le> fd \<and> ok w' \<and>
        view w' = (view w)\<lparr>free_fds := n\<rparr> \<and> pos_of fd w' = Some 0"
    and open_full: "ok w \<Longrightarrow> free_fds (view w) = 0 \<Longrightarrow> sys_open ops RDWR_CREAT w = Inr (-1, w)"
    and write_law: "ok w \<Longrightarrow> pos_of fd w = Some 0 \<Longrightarrow> bs \<noteq> [] \<Longrightarrow> length bs \<le> space (view w) \<Longrightarrow>
      \<exists>n w'. sys_write ops fd bs w = Inr (n, w') \<and> ok w' \<and>
        file_data (view w') = put bs (file_data (view w)) \<and> free_fds (view w') = free_fds (view w) \<and>
        space (view w) \<le> space (view w') + length bs \<and> pos_of fd w' \<noteq> None"
    and rewind_law: "ok w \<Longrightarrow> pos_of fd w = Some p \<Longrightarrow>
      \<exists>w'. sys_lseek ops fd 0 SEEK_SET w = Inr (0, w') \<and> ok w' \<and> view w' = view w \<and> pos_of fd w' = Some 0"
    and close_law: "ok w \<Longrightarrow> pos_of fd w = Some p \<Longrightarrow> ok (sys_close ops fd w) \<and>
      view (sys_close ops fd w) = (view w)\<lparr>free_fds := Suc (free_fds (view w))\<rparr>"
    and ioctl_law: "ok w \<Longrightarrow> pos_of fd w = Some p \<Longrightarrow>
      \<exists>v w'. sys_ioctl ops fd AESDCHAR_IOCSEEKTO st w = Inr (v, w') \<and> ok w' \<and> view w' = view w \<and>
        pos_of fd w' \<noteq> None"
begin

text \<open>Chunk after chunk, each through a descriptor of its own.\<close>

definition put_all :: "byte list list \<Rightarrow> 'd \<Rightarrow> 'd" where
  "put_all cs d = foldl (\<lambda>d c. put c d) d cs"

lemma close_log:
  "ok w \<Longrightarrow> pos_of fd w \<noteq> None \<Longrightarrow> ok (sys_close ops fd w) \<and>
    view (sys_close ops fd w) = (view w)\<lparr>free_fds := Suc (free_fds (view w))\<rparr>"
  using close_law by auto

lemma store_plain:
  assumes "ok (data_file s)" and "pos_of fd (data_file s) = Some 0" and "take 19 buf \<noteq> seek_prefix"
    and "c \<noteq> []" and "length c \<le> space (view (data_file s))"
  shows "\<exists>w'. store_chunk ops c buf fd s = Inr (Some False, s\<lparr>data_file := w'\<rparr>) \<and> ok w' \<and>
    file_data (view w') = put c (file_data (view (data_file s))) \<and>
    free_fds (view w') = free_fds (view (data_file s)) \<and>
    space (view (data_file s)) \<le> space (view w') + length c \<and> pos_of fd w' \<noteq> None"
  using write_law [of "data_file s" fd c] assms by (fastforce simp: store_chunk_def)

lemma reply_from:
  assumes "ok (data_file s)" and "pos_of fd (data_file s) = Some p" and "reliable cl"
    and "file_mutex s = Some me"
  shows "\<exists>w'. send_reply cd ops me cl seekset fd s = Some (Inr (Replied,
      s\<lparr>data_file := w', file_mutex := None,
        sent := sent s @ drop (if seekset then p else 0) (render (file_data (view (data_file s))))\<rparr>)) \<and>
    ok w' \<and> view w' = (view (data_file s))\<lparr>free_fds := Suc (free_fds (view (data_file s)))\<rparr>"
proof -
  let ?q = "if seekset then p else 0"
  obtain w1 where w1: "(if seekset then Inr (0, data_file s) else sys_lseek ops fd 0 SEEK_SET (data_file s))
      = Inr (0, w1)" "ok w1" "view w1 = view (data_file s)" "pos_of fd w1 = Some ?q"
    using rewind_law [OF assms(1,2)] assms(1,2) by (cases seekset) auto
  obtain w2 where w2: "send_loop ops cl fd (s\<lparr>data_file := w1\<rparr>) = Some (Inr (True,
      s\<lparr>data_file := w2, sent := sent s @ drop ?q (render (file_data (view (data_file s))))\<rparr>))"
    "ok w2" "view w2 = view (data_file s)" "pos_of fd w2 \<noteq> None"
    using send_loop_all [of "s\<lparr>data_file := w1\<rparr>" fd ?q cl] w1 assms(3)
    by (auto simp: reliable_def)
  show ?thesis
    using w1(1) w2 assms(4) close_log [OF w2(2,4)]
    by (intro exI [of _ "sys_close ops fd w2"]) (simp add: send_reply_def unlock_file_mutex_def Let_def)
qed

lemma client_loop_plain:
  assumes "ok (data_file s)" and "free_fds (view (data_file s)) = Suc n"
    and "take 19 (recv_into c buf) \<noteq> seek_prefix"
    and "c \<noteq> []" and "length c \<le> space (view (data_file s))"
  shows "\<exists>fd w'. client_loop cd ops me cl (c # cs) buf s =
      (if newline \<in> set c then send_reply cd ops me cl False fd (s\<lparr>data_file := w'\<rparr>)
       else client_loop cd ops me cl cs (recv_into c buf) (s\<lparr>data_file := w'\<rparr>)) \<and>
    ok w' \<and> file_data (view w') = put c (file_data (view (data_file s))) \<and>
    free_fds (view w') = n \<and> space (view (data_file s)) \<le> space (view w') + length c \<and>
    pos_of fd w' \<noteq> None"
proof -
  obtain fd w where w: "sys_open ops RDWR_CREAT (data_file s) = Inr (fd, w)" "0 \<le> fd" "ok w"
    "view w = (view (data_file s))\<lparr>free_fds := n\<rparr>" "pos_of fd w = Some 0"
    using open_free [OF assms(1,2)] by blast
  with store_plain [of "s\<lparr>data_file := w\<rparr>" fd "recv_into c buf" c] assms(3-5) obtain w' where
    "store_chunk ops c (recv_into c buf) fd (s\<lparr>data_file := w\<rparr>) = Inr (Some False, s\<lparr>data_file := w'\<rparr>)"
    "ok w'" "file_data (view w') = put c (file_data (view (data_file s)))"
    "free_fds (view w') = n" "space (view (data_file s)) \<le> space (view w') + length c"
    "pos_of fd w' \<noteq> None"
    by auto
  with w show ?thesis by (intro exI [of _ fd] exI [of _ w']) (simp add: Let_def)
qed

lemma client_loop_collect:
  assumes "ok (data_file s)" and "length cs \<le> free_fds (view (data_file s))"
    and "plain_chunks buf cs" and "\<And>c. c \<in> set cs \<Longrightarrow> c \<noteq> [] \<and> newline \<notin> set c"
    and "length (concat cs) \<le> space (view (data_file s))"
  shows "\<exists>w'. client_loop cd ops me cl (cs @ rest) buf s =
      client_loop cd ops me cl rest (buffer_after cs buf) (s\<lparr>data_file := w'\<rparr>) \<and> ok w' \<and>
    file_data (view w') = put_all cs (file_data (view (data_file s))) \<and>
    free_fds (view w') = free_fds (view (data_file s)) - length cs \<and>
    space (view (data_file s)) \<le> space (view w') + length (concat cs)"
  using assms
proof (induction cs arbitrary: buf s)
  case Nil
  then show ?case by (intro exI [of _ "data_file s"]) (simp add: put_all_def)
next
  case (Cons c cs)
  obtain n where n: "free_fds (view (data_file s)) = Suc n" "length cs \<le> n"
    using Cons.prems(2) by (cases "free_fds (view (data_file s))") auto
  obtain w where w: "client_loop cd ops me cl ((c # cs) @ rest) buf s =
      client_loop cd ops me cl (cs @ rest) (recv_into c buf) (s\<lparr>data_file := w\<rparr>)"
    "ok w" "file_data (view w) = put c (file_data (view (data_file s)))"
    "free_fds (view w) = n" "space (view (data_file s)) \<le> space (view w) + length c"
    using client_loop_plain [OF Cons.prems(1) n(1), of c buf cd me cl "cs @ rest"] Cons.prems(3-5)
    by auto
  let ?s = "s\<lparr>data_file := w\<rparr>"
  obtain w' where "client_loop cd ops me cl (cs @ rest) (recv_into c buf) ?s =
      client_loop cd ops me cl rest (buffer_after cs (recv_into c buf)) (?s\<lparr>data_file := w'\<rparr>)" "ok w'"
    "file_data (view w') = put_all cs (file_data (view w))"
    "free_fds (view w') = n - length cs" "space (view w) \<le> space (view w') + length (concat cs)"
    using Cons.IH [of ?s "recv_into c buf"] w(2,4,5) n(2) Cons.prems(3-5) by auto
  with w n(1) Cons.prems(4) show ?case
    by (intro exI [of _ w']) (simp add: put_all_def)
qed

text \<open>A client that sends chunks without a newline and then one with a newline.\<close>

lemma chunks_replied:
  assumes "ok (data_file s)" and "file_mutex s = None" and "reliable cl"
    and recvs: "recvs cl = cs @ c # rest" and plain: "plain_chunks (stale cl) (cs @ [c])"
    and "\<And>d. d \<in> set cs \<Longrightarrow> d \<noteq> [] \<and> newline \<notin> set d" and "newline \<in> set c"
    and "length cs < free_fds (view (data_file s))" and "length (concat cs @ c) \<le> space (view (data_file s))"
  shows "\<exists>w'. handle_client cd ops me cl s = Some (Inr (Replied,
      s\<lparr>data_file := w', sent := render (put_all (cs @ [c]) (file_data (view (data_file s))))\<rparr>)) \<and>
    ok w' \<and> file_data (view w') = put_all (cs @ [c]) (file_data (view (data_file s))) \<and>
    free_fds (view w') = free_fds (view (data_file s)) - length cs"
proof -
  let ?s = "s\<lparr>file_mutex := Some me, sent := []\<rparr>" and ?v = "view (data_file s)"
  let ?l = "put_all (cs @ [c]) (file_data ?v)"
  obtain w where w: "client_loop cd ops me cl (cs @ c # rest) (stale cl) ?s =
      client_loop cd ops me cl (c # rest) (buffer_after cs (stale cl)) (?s\<lparr>data_file := w\<rparr>)" "ok w"
    "file_data (view w) = put_all cs (file_data ?v)"
    "free_fds (view w) = free_fds ?v - length cs" "space ?v \<le> space (view w) + length (concat cs)"
    using client_loop_collect [of ?s cs "stale cl" cd me cl "c # rest"] assms by auto
  obtain n where n: "free_fds (view w) = Suc n" "Suc n = free_fds ?v - length cs"
    using w(4) assms(8) by (cases "free_fds (view w)") auto
  have "c \<noteq> []" using assms(7) by auto
  obtain fd w1 where w1: "client_loop cd ops me cl (c # rest) (buffer_after cs (stale cl)) (?s\<lparr>data_file := w\<rparr>)
      = send_reply cd ops me cl False fd (?s\<lparr>data_file := w1\<rparr>)" "ok w1"
    "file_data (view w1) = ?l" "free_fds (view w1) = n" "pos_of fd w1 \<noteq> None"
    using client_loop_plain [of "?s\<lparr>data_file := w\<rparr>" n c "buffer_after cs (stale cl)" cd me cl rest]
      w(2,3,5) n(1) plain assms(7,9) \<open>c \<noteq> []\<close> by (auto simp: put_all_def)
  then obtain w2 where "send_reply cd ops me cl False fd (?s\<lparr>data_file := w1\<rparr>) = Some (Inr (Replied,
      s\<lparr>data_file := w2, file_mutex := None, sent := render ?l\<rparr>))"
    "ok w2" "view w2 = (view w1)\<lparr>free_fds := Suc n\<rparr>"
    using reply_from [of "?s\<lparr>data_file := w1\<rparr>" fd _ cl me cd False] assms(3) by auto
  moreover have "s\<lparr>data_file := w2, file_mutex := None, sent := render ?l\<rparr>
      = s\<lparr>data_file := w2, sent := render ?l\<rparr>"
    using assms(2) by (cases s) simp
  ultimately show ?thesis
    using w(1) w1 n(2) assms(2)
    by (intro exI [of _ w2]) (simp add: handle_client_def lock_file_mutex_def recvs)
qed

text \<open>A client that sends a line and is gone before the reply.\<close>

lemma chunks_gone:
  assumes "ok (data_file s)" and "file_mutex s = None"
    and recvs: "recvs cl = cs @ c # rest" and plain: "plain_chunks (stale cl) (cs @ [c])"
    and "\<And>d. d \<in> set cs \<Longrightarrow> d \<noteq> [] \<and> newline \<notin> set d" and "newline \<in> set c"
    and "length cs < free_fds (view (data_file s))" and "length (concat cs @ c) \<le> space (view (data_file s))"
    and gone: "\<And>bs. bs \<noteq> [] \<Longrightarrow> takes cl [] bs = None"
    and reply: "render (put_all (cs @ [c]) (file_data (view (data_file s)))) \<noteq> []"
  shows "\<exists>s'. handle_client cd ops me cl s = Some (Inr (Server_Killed, s'))"
proof -
  let ?s = "s\<lparr>file_mutex := Some me, sent := []\<rparr>" and ?v = "view (data_file s)"
  obtain w where w: "client_loop cd ops me cl (cs @ c # rest) (stale cl) ?s =
      client_loop cd ops me cl (c # rest) (buffer_after cs (stale cl)) (?s\<lparr>data_file := w\<rparr>)" "ok w"
    "file_data (view w) = put_all cs (file_data ?v)"
    "free_fds (view w) = free_fds ?v - length cs" "space ?v \<le> space (view w) + length (concat cs)"
    using client_loop_collect [of ?s cs "stale cl" cd me cl "c # rest"] assms by auto
  obtain n where n: "free_fds (view w) = Suc n" using w(4) assms(7) not0_implies_Suc [of "free_fds (view w)"] by auto
  have "c \<noteq> []" using assms(6) by auto
  obtain fd w1 p where w1: "client_loop cd ops me cl (c # rest) (buffer_after cs (stale cl)) (?s\<lparr>data_file := w\<rparr>)
      = send_reply cd ops me cl False fd (?s\<lparr>data_file := w1\<rparr>)" "ok w1"
    "file_data (view w1) = put_all (cs @ [c]) (file_data ?v)" "pos_of fd w1 = Some p"
    using client_loop_plain [of "?s\<lparr>data_file := w\<rparr>" n c "buffer_after cs (stale cl)" cd me cl rest]
      w(2,3,5) n plain assms(6,8) \<open>c \<noteq> []\<close> by (auto simp: put_all_def)
  obtain w2 where w2: "sys_lseek ops fd 0 SEEK_SET w1 = Inr (0, w2)" "ok w2" "view w2 = view w1"
    "pos_of fd w2 = Some 0"
    using rewind_law [OF w1(2,4)] by blast
  obtain w3 where "send_loop ops cl fd (?s\<lparr>data_file := w2\<rparr>) = Some (Inr (False, ?s\<lparr>data_file := w3\<rparr>))"
    using send_loop_gone [of "?s\<lparr>data_file := w2\<rparr>" fd 0 cl] w2 w1(3) reply gone by auto
  then show ?thesis
    using w(1) w1(1) w2(1) assms(2)
    by (auto simp: handle_client_def lock_file_mutex_def recvs send_reply_def Let_def)
qed

text \<open>A client that closes the connection without having sent a newline.\<close>

lemma chunks_hung_up:
  assumes "ok (data_file s)" and "file_mutex s = None"
    and "plain_chunks (stale cl) (recvs cl)"
    and "\<And>d. d \<in> set (recvs cl) \<Longrightarrow> d \<noteq> [] \<and> newline \<notin> set d"
    and "length (recvs cl) \<le> free_fds (view (data_file s))"
    and "length (concat (recvs cl)) \<le> space (view (data_file s))"
  shows "\<exists>w'. handle_client cd ops me cl s = Some (Inr (Hung_Up,
      s\<lparr>data_file := w', file_mutex := Some me, sent := []\<rparr>)) \<and> ok w' \<and>
    file_data (view w') = put_all (recvs cl) (file_data (view (data_file s))) \<and>
    free_fds (view w') = free_fds (view (data_file s)) - length (recvs cl)"
proof -
  let ?s = "s\<lparr>file_mutex := Some me, sent := []\<rparr>"
  from client_loop_collect [of ?s "recvs cl" "stale cl" cd me cl "[]"] assms obtain w where
    "client_loop cd ops me cl (recvs cl) (stale cl) ?s = Some (Inr (Hung_Up, ?s\<lparr>data_file := w\<rparr>))" "ok w"
    "file_data (view w) = put_all (recvs cl) (file_data (view (data_file s)))"
    "free_fds (view w) = free_fds (view (data_file s)) - length (recvs cl)"
    by auto
  with assms(2) show ?thesis
    by (intro exI [of _ w]) (simp add: handle_client_def lock_file_mutex_def)
qed

text \<open>A client that sends one chunk more than there are descriptors, none with a newline.\<close>

lemma chunks_exhaust:
  assumes "ok (data_file s)" and "file_mutex s = None"
    and recvs: "recvs cl = cs @ c # rest" and "plain_chunks (stale cl) cs"
    and "\<And>d. d \<in> set cs \<Longrightarrow> d \<noteq> [] \<and> newline \<notin> set d"
    and "length cs = free_fds (view (data_file s))"
    and "length (concat cs) \<le> space (view (data_file s))"
  shows "\<exists>s'. handle_client cd ops me cl s = Some (Inr (Server_Exits, s'))"
proof -
  let ?s = "s\<lparr>file_mutex := Some me, sent := []\<rparr>"
  obtain w where w: "client_loop cd ops me cl (cs @ c # rest) (stale cl) ?s =
      client_loop cd ops me cl (c # rest) (buffer_after cs (stale cl)) (?s\<lparr>data_file := w\<rparr>)" "ok w"
    "free_fds (view w) = 0"
    using client_loop_collect [of ?s cs "stale cl" cd me cl "c # rest"] assms by auto
  then show ?thesis
    using open_full [OF w(2,3)] assms(2)
    by (simp add: handle_client_def lock_file_mutex_def recvs unlock_and_cleanup_def
        unlock_file_mutex_def Let_def)
qed

end

section \<open>Any request\<close>

text \<open>
  A client may send anything, and be gone at any moment. The faults its request can end in are
  those of \<open>sscanf\<close>, and need a seek command: the read past the end of \<open>buffer\<close>, when that has no
  terminator, and a number that is none of 32 bits.
\<close>

definition terminated :: "byte list \<Rightarrow> byte list list \<Rightarrow> bool" where
  "terminated buf cs \<longleftrightarrow> 19 < length buf \<and> last buf = CHR 0x00 \<and> (\<forall>c \<in> set cs. length c < length buf)"

definition request_ended ::
  "('w \<Rightarrow> bool) \<Rightarrow> tid \<Rightarrow> byte list \<Rightarrow> byte list list \<Rightarrow> (client_end \<times> 'w server) outcome \<Rightarrow> bool" where
  "request_ended ok me buf cs x \<longleftrightarrow>
     (case x of
        Inl e \<Rightarrow> \<not> plain_chunks buf cs \<and> (e = Out_Of_Bounds \<and> \<not> terminated buf cs \<or> e = Bad_Conversion)
      | Inr (r, s) \<Rightarrow>
          (r = Replied \<or> r = Hung_Up \<longrightarrow> ok (data_file s)) \<and>
          file_mutex s = (if r = Hung_Up \<or> r = Server_Killed then Some me else None))"

lemma terminated_recv:
  assumes "terminated buf (c # cs)"
  shows "terminated (recv_into c buf) cs"
  using assms by (auto simp: terminated_def recv_into_def)

lemma terminated_string:
  assumes "terminated buf cs"
  shows "\<exists>txt. c_string (drop 19 buf) = Inr txt"
proof -
  have "drop 19 buf \<noteq> []" "last (drop 19 buf) = CHR 0x00" using assms by (simp_all add: terminated_def)
  then have "CHR 0x00 \<in> set (drop 19 buf)" by (metis last_in_set)
  then show ?thesis by (simp add: c_string_def)
qed

lemma scan_u_fault: "scan_u s = Inl e \<Longrightarrow> e = Bad_Conversion"
  by (auto simp: scan_u_def Let_def split: prod.splits if_splits)

lemma sscanf_fault: "sscanf_u_u s = Inl e \<Longrightarrow> e = Bad_Conversion"
  by (auto simp: sscanf_u_u_def bindR_def dest: scan_u_fault
      split: sum.splits option.splits prod.splits list.splits if_splits)

lemma c_string_fault: "c_string bs = Inl e \<Longrightarrow> e = Out_Of_Bounds"
  by (simp add: c_string_def split: if_splits)

lemma unlock_and_cleanup_ended:
  "file_mutex s = Some me \<Longrightarrow> request_ended ok me buf cs (unlock_and_cleanup cd ops me s)"
  by (simp add: unlock_and_cleanup_def unlock_file_mutex_def request_ended_def cleanup_def)

context chunk_file
begin

lemma store_chunk_returns:
  assumes "ok (data_file s)" and "pos_of fd (data_file s) = Some 0" and "c \<noteq> []"
    and "length c \<le> space (view (data_file s))"
  shows "(\<exists>e. store_chunk ops c buf fd s = Inl e \<and> take 19 buf = seek_prefix \<and>
      (e = Out_Of_Bounds \<and> (\<forall>cs. \<not> terminated buf cs) \<or> e = Bad_Conversion)) \<or>
    (\<exists>b w'. store_chunk ops c buf fd s = Inr (b, s\<lparr>data_file := w'\<rparr>) \<and> ok w' \<and> pos_of fd w' \<noteq> None \<and>
      space (view (data_file s)) \<le> space (view w') + length c)"
proof (cases "take 19 buf = seek_prefix")
  case False
  from store_plain [OF assms(1,2) False assms(3,4)] show ?thesis by auto
next
  case seek: True
  show ?thesis
  proof (cases "c_string (drop 19 buf)")
    case (Inl e)
    with seek c_string_fault [OF Inl] terminated_string [of buf] show ?thesis
      by (auto simp: store_chunk_def)
  next
    case (Inr str)
    show ?thesis
    proof (cases "sscanf_u_u str")
      case (Inl e)
      with seek \<open>c_string (drop 19 buf) = Inr str\<close> sscanf_fault [OF Inl] show ?thesis
        by (simp add: store_chunk_def)
    next
      case numbers: (Inr q)
      show ?thesis
      proof (cases q)
        case None
        with seek Inr numbers have "store_chunk ops c buf fd s = Inr (None, s\<lparr>data_file := data_file s\<rparr>)"
          by (simp add: store_chunk_def)
        with assms(1,2) show ?thesis by (intro disjI2 exI [of _ None] exI [of _ "data_file s"]) simp
      next
        case (Some ab)
        obtain a b where ab: "ab = (a, b)" by (cases ab)
        obtain v w' where w': "sys_ioctl ops fd AESDCHAR_IOCSEEKTO \<lparr>write_cmd = a, write_cmd_offset = b\<rparr> (data_file s) =
            Inr (v, w')" "ok w'" "view w' = view (data_file s)" "pos_of fd w' \<noteq> None"
          using ioctl_law [OF assms(1,2)] by blast
        with seek Inr numbers Some ab show ?thesis
          by (intro disjI2 exI [of _ "if v = -1 then None else Some True"] exI [of _ w']) (simp add: store_chunk_def)
      qed
    qed
  qed
qed

lemma reply_returns:
  assumes "ok (data_file s)" and "pos_of fd (data_file s) = Some p" and "file_mutex s = Some me"
  shows "\<exists>x. send_reply cd ops me cl seekset fd s = Some x \<and> request_ended ok me buf cs x"
proof -
  obtain w1 p1 where w1: "(if seekset then Inr (0, data_file s) else sys_lseek ops fd 0 SEEK_SET (data_file s))
      = Inr (0, w1)" "ok w1" "pos_of fd w1 = Some p1"
    using rewind_law [OF assms(1,2)] assms(1,2) by (cases seekset) auto
  obtain there w2 bs where w2: "send_loop ops cl fd (s\<lparr>data_file := w1\<rparr>) =
      Some (Inr (there, s\<lparr>data_file := w2, sent := sent s @ bs\<rparr>))" "ok w2" "pos_of fd w2 \<noteq> None"
    using send_loop_returns [of "s\<lparr>data_file := w1\<rparr>" fd p1 cl] w1 by auto
  then show ?thesis
    using w1(1) assms(3) close_log [OF w2(2,3)]
    by (cases there) (simp_all add: send_reply_def Let_def unlock_file_mutex_def request_ended_def)
qed

lemma client_loop_returns:
  assumes "ok (data_file s)" and "file_mutex s = Some me" and "\<forall>c \<in> set chunks. c \<noteq> []"
    and "length (concat chunks) \<le> space (view (data_file s))"
  shows "\<exists>x. client_loop cd ops me cl chunks buf s = Some x \<and> request_ended ok me buf chunks x"
  using assms
proof (induction chunks arbitrary: buf s)
  case Nil
  then show ?case by (simp add: request_ended_def)
next
  case (Cons c cs)
  let ?buf = "recv_into c buf"
  show ?case
  proof (cases "free_fds (view (data_file s))")
    case 0
    then have "client_loop cd ops me cl (c # cs) buf s = Some (unlock_and_cleanup cd ops me s)"
      using open_full [OF Cons.prems(1)] by (simp add: Let_def)
    then show ?thesis using unlock_and_cleanup_ended [OF Cons.prems(2)] by simp
  next
    case (Suc n)
    obtain fd w where w: "sys_open ops RDWR_CREAT (data_file s) = Inr (fd, w)" "0 \<le> fd" "ok w"
      "view w = (view (data_file s))\<lparr>free_fds := n\<rparr>" "pos_of fd w = Some 0"
      using open_free [OF Cons.prems(1) Suc] by blast
    let ?s = "s\<lparr>data_file := w\<rparr>"
    have "c \<noteq> []" "length c \<le> space (view (data_file ?s))" using Cons.prems(3,4) w(4) by simp_all
    then consider e where "store_chunk ops c ?buf fd ?s = Inl e" "take 19 ?buf = seek_prefix"
        "e = Out_Of_Bounds \<and> \<not> terminated ?buf cs \<or> e = Bad_Conversion"
      | b w' where "store_chunk ops c ?buf fd ?s = Inr (b, ?s\<lparr>data_file := w'\<rparr>)" "ok w'" "pos_of fd w' \<noteq> None"
        "space (view (data_file s)) \<le> space (view w') + length c"
      using store_chunk_returns [of ?s fd c ?buf] w(3-5) by auto
    then show ?thesis
    proof cases
      case 1
      then show ?thesis using w(1,2) terminated_recv [of buf c cs] by (auto simp: request_ended_def Let_def)
    next
      case (2 b w')
      let ?s2 = "?s\<lparr>data_file := w'\<rparr>"
      have s2: "ok (data_file ?s2)" "file_mutex ?s2 = Some me" using 2(2) Cons.prems(2) by simp_all
      show ?thesis
      proof (cases b)
        case None
        with 2(1) w(1,2) unlock_and_cleanup_ended [OF s2(2)] show ?thesis by (simp add: Let_def)
      next
        case (Some seekset)
        show ?thesis
        proof (cases "newline \<in> set c")
          case True
          obtain p where "pos_of fd (data_file ?s2) = Some p" using 2(3) by auto
          from reply_returns [OF s2(1) this s2(2)] True Some 2(1) w(1,2) show ?thesis by (simp add: Let_def)
        next
          case False
          have "length (concat cs) \<le> space (view (data_file ?s2))" using Cons.prems(4) 2(4) by simp
          from Cons.IH [OF s2 _ this, of ?buf] Cons.prems(3) obtain x where
            x: "client_loop cd ops me cl cs ?buf ?s2 = Some x" "request_ended ok me ?buf cs x"
            by auto
          have "request_ended ok me buf (c # cs) x"
            using x(2) terminated_recv [of buf c cs] by (auto simp: request_ended_def split: sum.splits)
          with False Some 2(1) w(1,2) x(1) show ?thesis by (simp add: Let_def)
        qed
      qed
    qed
  qed
qed

text \<open>Every request comes to an end.\<close>

lemma request_returns:
  assumes "ok (data_file s)" and "file_mutex s = None" and "\<forall>c \<in> set (recvs cl). c \<noteq> []"
    and "length (concat (recvs cl)) \<le> space (view (data_file s))"
  shows "\<exists>x. handle_client cd ops me cl s = Some x \<and> request_ended ok me (stale cl) (recvs cl) x"
  using client_loop_returns [of "s\<lparr>file_mutex := Some me, sent := []\<rparr>" me "recvs cl"] assms
  by (simp add: handle_client_def lock_file_mutex_def)

end

section \<open>A log of commands\<close>

text \<open>What the seek command means: a position, for a command that is stored and an offset inside it.\<close>

definition seek_pos :: "aesd_seekto \<Rightarrow> cmd_log \<Rightarrow> nat option" where
  "seek_pos st l =
     (let c = unat (write_cmd st); off = unat (write_cmd_offset st) in
      if c < length (cmds l) \<and> off < length (cmds l ! c) then Some (cmd_pos l c off) else None)"

text \<open>Chunks without a newline only join the command under way; the cut into chunks is not seen.\<close>

lemma log_write_pending:
  "c \<noteq> [] \<Longrightarrow> newline \<notin> set c \<Longrightarrow> log_write c l = l\<lparr>pending := pending l @ c\<rparr>"
  by (cases "last c = newline") (use last_in_set [of c] in \<open>auto simp: log_write_def Let_def\<close>)

lemma log_write_joined: "log_write d (l\<lparr>pending := pending l @ c\<rparr>) = log_write (c @ d) l"
  by (simp add: log_write_def Let_def)

lemma log_writes_pending:
  "(\<And>d. d \<in> set cs \<Longrightarrow> d \<noteq> [] \<and> newline \<notin> set d) \<Longrightarrow>
    foldl (\<lambda>l c. log_write c l) l cs = l\<lparr>pending := pending l @ concat cs\<rparr>"
  by (induction cs arbitrary: l) (simp_all add: log_write_pending)

locale log_file = chunk_file ops ok view contents pos_of log_write
  for ops :: "'w file_ops" and ok and view :: "'w \<Rightarrow> cmd_log file_view" and pos_of +
  assumes seek_law: "ok w \<Longrightarrow> pos_of fd w = Some p \<Longrightarrow> in_order (view w) \<Longrightarrow>
      (case seek_pos st (file_data (view w)) of
         None \<Rightarrow> sys_ioctl ops fd AESDCHAR_IOCSEEKTO st w = Inr (-1, w)
       | Some q \<Rightarrow> \<exists>w'. sys_ioctl ops fd AESDCHAR_IOCSEEKTO st w = Inr (0, w') \<and> ok w' \<and>
           view w' = view w \<and> pos_of fd w' = Some q)"
begin

text \<open>For a log the cut into chunks is not seen.\<close>

lemma put_all_pending:
  "(\<And>d. d \<in> set cs \<Longrightarrow> d \<noteq> [] \<and> newline \<notin> set d) \<Longrightarrow>
    put_all cs l = l\<lparr>pending := pending l @ concat cs\<rparr>"
  unfolding put_all_def by (rule log_writes_pending)

lemma put_all_line:
  "(\<And>d. d \<in> set cs \<Longrightarrow> d \<noteq> [] \<and> newline \<notin> set d) \<Longrightarrow> put_all (cs @ [c]) l = log_write (concat cs @ c) l"
  using log_writes_pending [of cs l] by (simp add: put_all_def log_write_joined)

lemma client_replied:
  assumes "ok (data_file s)" and "file_mutex s = None" and "reliable cl"
    and "recvs cl = cs @ c # rest" and "plain_chunks (stale cl) (cs @ [c])"
    and plain: "\<And>d. d \<in> set cs \<Longrightarrow> d \<noteq> [] \<and> newline \<notin> set d" and "newline \<in> set c"
    and "length cs < free_fds (view (data_file s))" and "length (concat cs @ c) \<le> space (view (data_file s))"
  shows "\<exists>w'. handle_client cd ops me cl s = Some (Inr (Replied,
      s\<lparr>data_file := w', sent := contents (log_write (concat cs @ c) (file_data (view (data_file s))))\<rparr>)) \<and>
    ok w' \<and> file_data (view w') = log_write (concat cs @ c) (file_data (view (data_file s))) \<and>
    free_fds (view w') = free_fds (view (data_file s)) - length cs"
  using chunks_replied [OF assms] by (simp add: put_all_line [OF plain])

lemma client_hung_up:
  assumes "ok (data_file s)" and "file_mutex s = None"
    and "plain_chunks (stale cl) (recvs cl)"
    and plain: "\<And>d. d \<in> set (recvs cl) \<Longrightarrow> d \<noteq> [] \<and> newline \<notin> set d"
    and "length (recvs cl) \<le> free_fds (view (data_file s))"
    and "length (concat (recvs cl)) \<le> space (view (data_file s))"
  shows "\<exists>w'. handle_client cd ops me cl s = Some (Inr (Hung_Up,
      s\<lparr>data_file := w', file_mutex := Some me, sent := []\<rparr>)) \<and> ok w' \<and>
    file_data (view w') = (file_data (view (data_file s)))
      \<lparr>pending := pending (file_data (view (data_file s))) @ concat (recvs cl)\<rparr> \<and>
    free_fds (view w') = free_fds (view (data_file s)) - length (recvs cl)"
  using chunks_hung_up [OF assms] by (simp add: put_all_pending [OF plain])

text \<open>A client whose first chunk is a well-formed seek command with a newline.\<close>

lemma client_seeks:
  assumes "ok (data_file s)" and "file_mutex s = None" and "reliable cl"
    and recvs: "recvs cl = c # rest" and "newline \<in> set c" and "0 < free_fds (view (data_file s))"
    and cmd: "take 19 (recv_into c (stale cl)) = seek_prefix"
      "c_string (drop 19 (recv_into c (stale cl))) = Inr txt" "sscanf_u_u txt = Inr (Some (a, b))"
    and order: "in_order (view (data_file s))"
  shows "case seek_pos \<lparr>write_cmd = a, write_cmd_offset = b\<rparr> (file_data (view (data_file s))) of
    None \<Rightarrow> \<exists>s'. handle_client cd ops me cl s = Some (Inr (Server_Exits, s'))
  | Some q \<Rightarrow> \<exists>w'. handle_client cd ops me cl s = Some (Inr (Replied,
      s\<lparr>data_file := w', sent := drop q (contents (file_data (view (data_file s))))\<rparr>)) \<and>
      ok w' \<and> view w' = view (data_file s)"
proof -
  let ?s = "s\<lparr>file_mutex := Some me, sent := []\<rparr>" and ?v = "view (data_file s)"
  let ?st = "\<lparr>write_cmd = a, write_cmd_offset = b\<rparr>" and ?buf = "recv_into c (stale cl)"
  obtain n where n: "free_fds ?v = Suc n" using assms(6) by (cases "free_fds ?v") auto
  obtain fd w where w: "sys_open ops RDWR_CREAT (data_file s) = Inr (fd, w)" "0 \<le> fd" "ok w"
    "view w = ?v\<lparr>free_fds := n\<rparr>" "pos_of fd w = Some 0"
    using open_free [OF assms(1) n] by blast
  have sk: "store_chunk ops c ?buf fd (?s\<lparr>data_file := w\<rparr>) =
      Inr (if v = -1 then None else Some True, ?s\<lparr>data_file := w'\<rparr>)"
    if "sys_ioctl ops fd AESDCHAR_IOCSEEKTO ?st w = Inr (v, w')" for v w'
    using cmd that by (simp add: store_chunk_def)
  note law = seek_law [OF w(3,5), of ?st]
  show ?thesis
  proof (cases "seek_pos ?st (file_data ?v)")
    case None
    with law w(4) order have "sys_ioctl ops fd AESDCHAR_IOCSEEKTO ?st w = Inr (-1, w)" by simp
    with None w(1,2) sk assms(2) show ?thesis
      by (simp add: handle_client_def lock_file_mutex_def recvs unlock_and_cleanup_def
          unlock_file_mutex_def Let_def)
  next
    case (Some q)
    with law w(4) order obtain w1 where w1: "sys_ioctl ops fd AESDCHAR_IOCSEEKTO ?st w = Inr (0, w1)"
      "ok w1" "view w1 = ?v\<lparr>free_fds := n\<rparr>" "pos_of fd w1 = Some q"
      by auto
    obtain w2 where w2: "send_reply cd ops me cl True fd (?s\<lparr>data_file := w1\<rparr>) = Some (Inr (Replied,
        s\<lparr>data_file := w2, file_mutex := None, sent := drop q (contents (file_data ?v))\<rparr>))"
      "ok w2" "view w2 = (view w1)\<lparr>free_fds := Suc n\<rparr>"
      using reply_from [of "?s\<lparr>data_file := w1\<rparr>" fd q cl me cd True] w1 assms(3) by auto
    have "s\<lparr>data_file := w2, file_mutex := None, sent := drop q (contents (file_data ?v))\<rparr>
        = s\<lparr>data_file := w2, sent := drop q (contents (file_data ?v))\<rparr>"
      using assms(2) by (cases s) simp
    moreover have "view w2 = ?v" using w2(3) w1(3) n by (cases "view (data_file s)") simp
    ultimately show ?thesis
      using Some w(1,2) sk w1(1) w2 assms(2,5)
      by (auto simp: handle_client_def lock_file_mutex_def recvs Let_def intro!: exI [of _ w2])
  qed
qed

end

end
