(* ===== verification/Device_File.thy ===== *)
theory Device_File imports Main Data_File begin

text \<open>
  The build with \<open>USE_AESD_CHAR_DEVICE\<close>: the system calls of the server end in the handlers of the
  driver. Between the two stands the kernel's file layer, of which the model has what the handlers
  are told: a table of descriptors with the lowest free one given out, a position per open file
  that starts at zero and is stored back when a handler succeeds, and negative results as -1.

  The theory shows that this file satisfies the contract \<open>log_file\<close>, and with it what a client of
  the whole system, server and driver, gets.
\<close>

section \<open>The system calls\<close>

record device =
  kern :: kstate
  fds :: "open_file option list"

text \<open>The addresses the driver's \<open>open\<close> computes with, and the kernel's answers.\<close>

record machine =
  kernel_of :: kernel
  i_cdev :: "64 word"
  cdev_offset :: "64 word"

definition file_at :: "int \<Rightarrow> device \<Rightarrow> open_file option" where
  "file_at fd w = (if 0 \<le> fd \<and> nat fd < length (fds w) then fds w ! nat fd else None)"

definition set_file :: "int \<Rightarrow> open_file option \<Rightarrow> device \<Rightarrow> device" where
  "set_file fd f w = w\<lparr>fds := (fds w)[nat fd := f]\<rparr>"

definition dev_open :: "machine \<Rightarrow> open_flags \<Rightarrow> device \<Rightarrow> (int \<times> device) outcome" where
  "dev_open mc flags w =
     (case first_free (fds w) of
        None \<Rightarrow> Inr (-1, w)
      | Some i \<Rightarrow>
          let (ret, filp) = aesd_open (i_cdev mc) (cdev_offset mc) \<lparr>f_pos = 0, private_data = NULL\<rparr> in
          if ret = 0 then Inr (int i, set_file (int i) (Some filp) w) else Inr (-1, w))"

definition dev_write :: "machine \<Rightarrow> tid \<Rightarrow> int \<Rightarrow> byte list \<Rightarrow> device \<Rightarrow> (int \<times> device) outcome" where
  "dev_write mc me fd bs w =
     (case file_at fd w of
        None \<Rightarrow> Inr (-1, w)
      | Some filp \<Rightarrow>
          bindR (aesd_write (kernel_of mc) me filp bs (of_nat (length bs)) (f_pos filp) (kern w))
            (\<lambda>(ret, pos, ks).
               if sint ret < 0 then Inr (-1, w\<lparr>kern := ks\<rparr>)
               else Inr (sint ret, set_file fd (Some (filp\<lparr>f_pos := pos\<rparr>)) (w\<lparr>kern := ks\<rparr>))))"

definition dev_read :: "machine \<Rightarrow> tid \<Rightarrow> int \<Rightarrow> nat \<Rightarrow> device \<Rightarrow> (int \<times> byte list \<times> device) outcome" where
  "dev_read mc me fd n w =
     (case file_at fd w of
        None \<Rightarrow> Inr (-1, [], w)
      | Some filp \<Rightarrow>
          bindR (aesd_read (kernel_of mc) me filp n (of_nat n) (f_pos filp) (kern w))
            (\<lambda>(ret, pos, copied, ks).
               if sint ret < 0 then Inr (-1, copied, w\<lparr>kern := ks\<rparr>)
               else Inr (sint ret, copied, set_file fd (Some (filp\<lparr>f_pos := pos\<rparr>)) (w\<lparr>kern := ks\<rparr>))))"

definition dev_lseek :: "machine \<Rightarrow> tid \<Rightarrow> int \<Rightarrow> int \<Rightarrow> int \<Rightarrow> device \<Rightarrow> (int \<times> device) outcome" where
  "dev_lseek mc me fd offset whence w =
     (case file_at fd w of
        None \<Rightarrow> Inr (-1, w)
      | Some filp \<Rightarrow>
          bindR (aesd_llseek (kernel_of mc) me (word_of_int offset) whence filp (kern w))
            (\<lambda>(ret, filp', ks).
               Inr (if sint ret < 0 then -1 else sint ret, set_file fd (Some filp') (w\<lparr>kern := ks\<rparr>))))"

definition dev_ioctl :: "int \<Rightarrow> uint32_t \<Rightarrow> aesd_seekto \<Rightarrow> device \<Rightarrow> (int \<times> device) outcome" where
  "dev_ioctl fd cmd st w =
     (case file_at fd w of
        None \<Rightarrow> Inr (-1, w)
      | Some filp \<Rightarrow>
          bindR (aesd_ioctl cmd (Some st) filp (kern w)) (\<lambda>(ret, filp').
            Inr (if sint ret < 0 then -1 else sint ret, set_file fd (Some filp') w)))"

definition dev_close :: "int \<Rightarrow> device \<Rightarrow> device" where
  "dev_close fd w = set_file fd None w"

definition device_ops :: "machine \<Rightarrow> tid \<Rightarrow> device file_ops" where
  "device_ops mc me =
     \<lparr>sys_open = dev_open mc, sys_write = dev_write mc me, sys_ioctl = dev_ioctl,
      sys_lseek = dev_lseek mc me, sys_read = dev_read mc me, sys_close = dev_close,
      sys_unlink = (\<lambda>w. w)\<rparr>"

section \<open>The contract\<close>

text \<open>
  The kernel this is about: no signal arrives while a handler takes the mutex, memory does not run
  out, and \<open>krealloc\<close> finds room behind the block. The device node leads to a device.
\<close>

definition machine_ok :: "machine \<Rightarrow> bool" where
  "machine_ok mc \<longleftrightarrow> alloc_ok (kernel_of mc) \<and> \<not> lock_interrupted (kernel_of mc) \<and>
     (\<forall>h n. finite (dom h) \<longrightarrow> kmalloc_ptr (kernel_of mc) h n \<noteq> NULL) \<and>
     (\<forall>h p n. krealloc_ptr (kernel_of mc) h p n = p) \<and> i_cdev mc \<noteq> cdev_offset mc"

definition device_ok :: "machine \<Rightarrow> device \<Rightarrow> bool" where
  "device_ok mc w \<longleftrightarrow> machine_ok mc \<and> drv_inv (kern w) \<and> stored (kern w) < 2 ^ 63 \<and>
     lock (dev (kern w)) = None \<and> finite (dom (heap (kern w))) \<and>
     (\<forall>f. Some f \<in> set (fds w) \<longrightarrow> private_data f \<noteq> NULL)"

definition device_view :: "device \<Rightarrow> cmd_log file_view" where
  "device_view w =
     \<lparr>file_data = drv_abs (kern w), free_fds = length (filter (\<lambda>f. f = None) (fds w)),
      space = 2 ^ 63 - 1 - stored (kern w), in_order = (out_offs (buffer (dev (kern w))) = 0)\<rparr>"

definition device_pos :: "int \<Rightarrow> device \<Rightarrow> nat option" where
  "device_pos fd w = map_option (\<lambda>f. unat (f_pos f)) (file_at fd w)"

lemma device_okD:
  assumes "device_ok mc w"
  shows "machine_ok mc" "drv_inv (kern w)" "stored (kern w) < 2 ^ 63" "lock (dev (kern w)) = None"
    "finite (dom (heap (kern w)))" "\<And>fd f. file_at fd w = Some f \<Longrightarrow> private_data f \<noteq> NULL"
proof -
  show "private_data f \<noteq> NULL" if "file_at fd w = Some f" for fd f
  proof -
    from that have "Some f \<in> set (fds w)" unfolding file_at_def by (metis nth_mem option.distinct(1))
    with assms show ?thesis by (auto simp: device_ok_def)
  qed
qed (use assms in \<open>simp_all add: device_ok_def\<close>)

text \<open>Descriptors.\<close>

lemma file_at_set [simp]:
  "file_at fd w \<noteq> None \<Longrightarrow> file_at fd (set_file fd f w) = f"
  by (auto simp: file_at_def set_file_def split: if_splits)

lemma file_at_kern [simp]: "file_at fd (w\<lparr>kern := ks\<rparr>) = file_at fd w"
  by (simp add: file_at_def)

lemma set_file_simps [simp]:
  "kern (set_file fd f w) = kern w" "fds (set_file fd f w) = (fds w)[nat fd := f]"
  by (simp_all add: set_file_def)

lemma device_ok_set:
  assumes "device_ok mc w" and "\<And>g. f = Some g \<Longrightarrow> private_data g \<noteq> NULL"
  shows "device_ok mc (set_file fd f w)"
  using assms set_update_Some [of _ "fds w" "nat fd" f] unfolding device_ok_def by fastforce

lemma device_ok_set_pos:
  "device_ok mc w \<Longrightarrow> file_at fd w = Some f \<Longrightarrow> device_ok mc (set_file fd (Some (f\<lparr>f_pos := x\<rparr>)) w)"
  using device_okD(6) by (intro device_ok_set) auto

lemma device_ok_kern:
  assumes "device_ok mc w" and "drv_inv ks" "stored ks < 2 ^ 63" "lock (dev ks) = None" "finite (dom (heap ks))"
  shows "device_ok mc (w\<lparr>kern := ks\<rparr>)"
  using assms by (simp add: device_ok_def)

lemma free_set_file:
  assumes "file_at fd w \<noteq> None"
  shows "length (filter (\<lambda>f. f = None) (fds (set_file fd (Some g) w))) = length (filter (\<lambda>f. f = None) (fds w))"
    and "length (filter (\<lambda>f. f = None) (fds (set_file fd None w))) = Suc (length (filter (\<lambda>f. f = None) (fds w)))"
  using free_update [of "nat fd" "fds w"] assms by (auto simp: file_at_def split: if_splits)

lemma device_view_set:
  "file_at fd w \<noteq> None \<Longrightarrow> device_view (set_file fd (Some g) w) = device_view w"
  "file_at fd w \<noteq> None \<Longrightarrow>
    device_view (set_file fd None w) = (device_view w)\<lparr>free_fds := Suc (free_fds (device_view w))\<rparr>"
  using free_set_file by (simp_all add: device_view_def del: set_file_simps(2))

lemma device_pos_file: "device_pos fd w = Some p \<Longrightarrow> \<exists>f. file_at fd w = Some f \<and> p = unat (f_pos f)"
  by (auto simp: device_pos_def)

text \<open>One lemma per law.\<close>

lemma device_open_free:
  assumes ok: "device_ok mc w" and free: "free_fds (device_view w) = Suc n"
  shows "\<exists>fd w'. dev_open mc flags w = Inr (fd, w') \<and> 0 \<le> fd \<and> device_ok mc w' \<and>
    device_view w' = (device_view w)\<lparr>free_fds := n\<rparr> \<and> device_pos fd w' = Some 0"
proof -
  obtain i where i: "first_free (fds w) = Some i"
    using free first_free_None [of "fds w"] by (auto simp: device_view_def)
  note lt = first_free_Some [OF i]
  let ?d = "i_cdev mc - cdev_offset mc"
  let ?f = "\<lparr>f_pos = 0, private_data = unat ?d\<rparr>"
  have d: "?d \<noteq> 0" using device_okD(1) [OF ok] by (simp add: machine_ok_def)
  then have pd: "private_data ?f \<noteq> NULL" by (simp add: unat_eq_zero)
  have "dev_open mc flags w = Inr (int i, set_file (int i) (Some ?f) w)"
    using d i by (simp add: dev_open_def aesd_open_def Let_def)
  moreover have "device_ok mc (set_file (int i) (Some ?f) w)"
    by (rule device_ok_set [OF ok]) (use pd in auto)
  moreover have "device_pos (int i) (set_file (int i) (Some ?f) w) = Some 0"
    using lt by (simp add: device_pos_def file_at_def)
  moreover have "device_view (set_file (int i) (Some ?f) w) = (device_view w)\<lparr>free_fds := n\<rparr>"
    using free_update [of i "fds w" "Some ?f"] lt free by (simp add: device_view_def)
  ultimately show ?thesis by (intro exI [of _ "int i"]) auto
qed

lemma device_open_full:
  "free_fds (device_view w) = 0 \<Longrightarrow> dev_open mc flags w = Inr (-1, w)"
  using first_free_None [of "fds w"] by (simp add: device_view_def dev_open_def)

lemma device_close:
  "device_ok mc w \<Longrightarrow> device_pos fd w = Some p \<Longrightarrow> device_ok mc (dev_close fd w) \<and>
    device_view (dev_close fd w) = (device_view w)\<lparr>free_fds := Suc (free_fds (device_view w))\<rparr>"
  by (auto simp: dev_close_def device_pos_def device_view_set intro: device_ok_set)

text \<open>The number of bytes a log stores, and what a write adds to it.\<close>

lemma stored_log:
  assumes "drv_inv s"
  shows "stored s = length (contents (drv_abs s)) + length (pending (drv_abs s))"
  using assms under_wayD(2) [OF assms] drv_invD(3) [OF assms]
  by (cases "under_way s") (simp_all add: stored_def length_contents pending_idle pending_ok_def)

lemma log_write_grows:
  "length (contents (log_write d l)) + length (pending (log_write d l)) \<le>
    length (contents l) + length (pending l) + length d"
proof -
  have "sum_list (map length (last_n n (cmds l @ [pending l @ d]))) \<le>
      sum_list (map length (cmds l @ [pending l @ d]))" for n
    by (rule sum_list_last_n_le)
  then show ?thesis by (simp add: log_write_def contents_def length_concat Let_def add.assoc)
qed

lemma device_write:
  assumes ok: "device_ok mc w" and pos: "device_pos fd w = Some p"
    and bs: "bs \<noteq> []" "length bs \<le> space (device_view w)"
  shows "\<exists>n w'. dev_write mc me fd bs w = Inr (n, w') \<and> device_ok mc w' \<and>
    file_data (device_view w') = log_write bs (file_data (device_view w)) \<and>
    free_fds (device_view w') = free_fds (device_view w) \<and>
    space (device_view w) \<le> space (device_view w') + length bs \<and> device_pos fd w' \<noteq> None"
proof -
  let ?k = "kernel_of mc" and ?s = "kern w" and ?n = "of_nat (length bs) :: size_t"
  obtain f where f: "file_at fd w = Some f" using device_pos_file [OF pos] by blast
  note d = device_okD [OF ok]
  have fits: "stored ?s + length bs < 2 ^ 63" using bs(2) d(3) by (simp add: device_view_def)
  then have n: "unat ?n = length bs" by (simp add: unat_of_nat)
  then have sn: "sint ?n = int (length bs)" using fits by (simp add: sint_small)
  have "?n \<noteq> 0" using n bs(1) by (metis length_0_conv unat_0)
  then have en: "write_enabled ?k bs ?n ?s"
    using d(1,5) fits n by (simp add: write_enabled_def machine_ok_def grown_ptr_def)
  have alloc: "alloc_ok ?k" and int: "\<not> lock_interrupted ?k" using d(1) by (simp_all add: machine_ok_def)
  let ?s' = "after_write ?k bs ?n ?s"
  have s': "drv_inv ?s'" "drv_abs ?s' = log_write bs (drv_abs ?s)" "lock (dev ?s') = None"
    "finite (dom (heap ?s'))"
    using after_write_sim [OF d(2) alloc en] n d(4,5)
    by (simp_all, simp_all add: after_write_def installed_def Let_def)
  then have st: "stored ?s' \<le> stored ?s + length bs"
    using log_write_grows [of bs "drv_abs ?s"] by (simp add: stored_log [OF d(2)] stored_log [OF s'(1)])
  let ?f = "f\<lparr>f_pos := f_pos f + ?n\<rparr>" and ?w = "w\<lparr>kern := ?s'\<rparr>"
  let ?w' = "set_file fd (Some ?f) ?w"
  have "dev_write mc me fd bs w = Inr (int (length bs), ?w')"
    using aesd_write_ok [OF d(2) alloc en int d(4) d(6) [OF f]] f sn by (simp add: dev_write_def)
  moreover have "device_ok mc ?w"
    using st fits s' by (intro device_ok_kern [OF ok]) simp_all
  then have "device_ok mc ?w'"
    by (rule device_ok_set_pos) (simp add: f)
  moreover have "device_view ?w' = device_view ?w" using f by (simp add: device_view_set)
  moreover have "device_pos fd ?w' \<noteq> None" using f by (simp add: device_pos_def)
  ultimately show ?thesis
    using s'(2) st fits by (intro exI [of _ "int (length bs)"] exI [of _ ?w']) (simp add: device_view_def)
qed

lemma length_log_read: "length (log_read count pos l) \<le> count"
  by (simp add: log_read_def split: option.split prod.split)

lemma device_read:
  assumes ok: "device_ok mc w" and pos: "device_pos fd w = Some p"
  shows "\<exists>bs w'. dev_read mc me fd BUFFER_SIZE w = Inr (int (length bs), bs, w') \<and> device_ok mc w' \<and>
    device_view w' = device_view w \<and> device_pos fd w' = Some (p + length bs) \<and>
    (\<exists>rest. drop p (contents (file_data (device_view w))) = bs @ rest) \<and>
    (p < length (contents (file_data (device_view w))) \<longrightarrow> bs \<noteq> [])"
proof -
  let ?k = "kernel_of mc" and ?s = "kern w"
  obtain f where f: "file_at fd w = Some f" "p = unat (f_pos f)" using device_pos_file [OF pos] by blast
  note d = device_okD [OF ok]
  let ?bs = "log_read BUFFER_SIZE p (drv_abs ?s)"
  let ?f = "f\<lparr>f_pos := f_pos f + of_nat (length ?bs)\<rparr>"
  have small: "length (contents (drv_abs ?s)) < 2 ^ 63" using d(3) by (simp add: stored_log [OF d(2)])
  have len: "length ?bs \<le> BUFFER_SIZE" by (rule length_log_read)
  then have n: "sint (of_nat (length ?bs) :: 64 word) = int (length ?bs)"
    by (subst sint_small) (simp_all add: unat_of_nat BUFFER_SIZE_def)
  have size: "unat (of_nat BUFFER_SIZE :: size_t) = BUFFER_SIZE" by (simp add: BUFFER_SIZE_def)
  have "dev_read mc me fd BUFFER_SIZE w = Inr (int (length ?bs), ?bs, set_file fd (Some ?f) w)"
    using aesd_read_log [OF d(2,3) _ d(4) d(6) [OF f(1)], of ?k me BUFFER_SIZE "of_nat BUFFER_SIZE" "f_pos f"]
      d(1) f n len by (simp add: dev_read_def machine_ok_def size Let_def)
  moreover have "device_ok mc (set_file fd (Some ?f) w)"
    using f by (intro device_ok_set_pos [OF ok]) simp
  moreover have "device_view (set_file fd (Some ?f) w) = device_view w" using f by (simp add: device_view_set)
  moreover have "device_pos fd (set_file fd (Some ?f) w) = Some (p + length ?bs)"
  proof (cases "?bs = []")
    case False
    then have "p < 2 ^ 63"
      using log_read_past_end [of "drv_abs ?s" p BUFFER_SIZE] small by (cases "p < 2 ^ 63") auto
    then have "unat (f_pos f + of_nat (length ?bs)) = p + length ?bs"
      using len f(2) by (simp add: unat_word_ariths unat_of_nat BUFFER_SIZE_def)
    with f show ?thesis by (simp add: device_pos_def)
  qed (use f in \<open>simp add: device_pos_def\<close>)
  moreover have "\<exists>rest. drop p (contents (file_data (device_view w))) = ?bs @ rest"
    using log_read_prefix by (simp add: device_view_def)
  moreover have "p < length (contents (file_data (device_view w))) \<longrightarrow> ?bs \<noteq> []"
    using log_read_nonempty [of p "drv_abs ?s" BUFFER_SIZE]
    by (simp add: device_view_def BUFFER_SIZE_def)
  ultimately show ?thesis by blast
qed

lemma device_rewind:
  assumes ok: "device_ok mc w" and pos: "device_pos fd w = Some p"
  shows "\<exists>w'. dev_lseek mc me fd 0 SEEK_SET w = Inr (0, w') \<and> device_ok mc w' \<and>
    device_view w' = device_view w \<and> device_pos fd w' = Some 0"
proof -
  obtain f where f: "file_at fd w = Some f" using device_pos_file [OF pos] by blast
  note d = device_okD [OF ok]
  let ?n = "length (contents (drv_abs (kern w)))"
  have "?n < 2 ^ 63" using d(3) by (simp add: stored_log [OF d(2)])
  then have "sint (of_nat ?n :: 64 word) = int ?n" by (subst sint_small) (simp_all add: unat_of_nat)
  then have "aesd_llseek (kernel_of mc) me 0 SEEK_SET f (kern w) = Inr (0, f\<lparr>f_pos := 0\<rparr>, kern w)"
    using get_buffer_size_eq [OF d(2,3) _ d(4)] d(1) d(6) [OF f]
    by (simp add: aesd_llseek_def machine_ok_def)
  then have "dev_lseek mc me fd 0 SEEK_SET w = Inr (0, set_file fd (Some (f\<lparr>f_pos := 0\<rparr>)) w)"
    using f by (simp add: dev_lseek_def)
  moreover have "device_ok mc (set_file fd (Some (f\<lparr>f_pos := 0\<rparr>)) w)"
    using f by (intro device_ok_set_pos [OF ok]) simp
  ultimately show ?thesis using f by (simp add: device_view_set device_pos_def)
qed

text \<open>Whatever the state of the ring, the call returns and moves at most the file.\<close>

lemma device_ioctl:
  assumes ok: "device_ok mc w" and pos: "device_pos fd w = Some p"
  shows "\<exists>v w'. dev_ioctl fd AESDCHAR_IOCSEEKTO st w = Inr (v, w') \<and> device_ok mc w' \<and>
    device_view w' = device_view w \<and> device_pos fd w' \<noteq> None"
proof -
  obtain f where f: "file_at fd w = Some f" using device_pos_file [OF pos] by blast
  note d = device_okD [OF ok]
  have "length (entry (buffer (dev (kern w)))) = MAX_OPS"
    using drv_invD(2) [OF d(2)] by (simp add: ring_inv_def)
  from aesd_ioctl_slots [OF this d(6) [OF f] refl, of st] obtain v q where
    v: "aesd_ioctl AESDCHAR_IOCSEEKTO (Some st) f (kern w) = Inr (v, f\<lparr>f_pos := q\<rparr>)"
    by (auto split: if_splits intro: that [of _ "f_pos f"])
  let ?w' = "set_file fd (Some (f\<lparr>f_pos := q\<rparr>)) w"
  have "device_ok mc ?w'" using f by (intro device_ok_set_pos [OF ok]) simp
  moreover have "device_view ?w' = device_view w" "device_pos fd ?w' \<noteq> None"
    using f by (simp_all add: device_view_set device_pos_def)
  moreover have "\<exists>v. dev_ioctl fd AESDCHAR_IOCSEEKTO st w = Inr (v, ?w')"
    using v f by (simp add: dev_ioctl_def)
  ultimately show ?thesis by blast
qed

lemma device_seek:
  assumes ok: "device_ok mc w" and pos: "device_pos fd w = Some p" and order: "in_order (device_view w)"
  shows "case seek_pos st (file_data (device_view w)) of
      None \<Rightarrow> dev_ioctl fd AESDCHAR_IOCSEEKTO st w = Inr (-1, w)
    | Some q \<Rightarrow> \<exists>w'. dev_ioctl fd AESDCHAR_IOCSEEKTO st w = Inr (0, w') \<and> device_ok mc w' \<and>
        device_view w' = device_view w \<and> device_pos fd w' = Some q"
proof -
  obtain f where f: "file_at fd w = Some f" using device_pos_file [OF pos] by blast
  note d = device_okD [OF ok]
  let ?l = "drv_abs (kern w)"
  let ?c = "unat (write_cmd st)" and ?o = "unat (write_cmd_offset st)"
  have "out_offs (buffer (dev (kern w))) = 0" using order by (simp add: device_view_def)
  note io = aesd_ioctl_in_order [OF d(2,3) this d(6) [OF f] refl refl, of st]
  show ?thesis
  proof (cases "?c < length (cmds ?l) \<and> ?o < length (cmds ?l ! ?c)")
    case True
    let ?q = "cmd_pos ?l ?c ?o"
    let ?w' = "set_file fd (Some (f\<lparr>f_pos := of_nat ?q\<rparr>)) w"
    have "?q < length (contents ?l)" using True by (intro cmd_pos_bound) simp_all
    then have "?q < 2 ^ 64" using d(3) by (simp add: stored_log [OF d(2)])
    then have "unat (of_nat ?q :: loff_t) = ?q" by (simp add: unat_of_nat)
    then have "device_pos fd ?w' = Some ?q" using f by (simp add: device_pos_def)
    moreover have "device_ok mc ?w'" using f by (intro device_ok_set_pos [OF ok]) simp
    moreover have "dev_ioctl fd AESDCHAR_IOCSEEKTO st w = Inr (0, ?w')"
      using True f io by (simp add: dev_ioctl_def)
    moreover have "device_view ?w' = device_view w" using f by (simp add: device_view_set)
    moreover have "seek_pos st (file_data (device_view w)) = Some ?q"
      using True by (simp add: seek_pos_def device_view_def Let_def)
    ultimately show ?thesis by auto
  next
    case False
    then have "aesd_ioctl AESDCHAR_IOCSEEKTO (Some st) f (kern w) = Inr (- EINVAL, f)" using io by auto
    moreover have "set_file fd (Some f) w = w"
      using f by (simp add: set_file_def file_at_def list_update_same_conv split: if_splits)
    ultimately have "dev_ioctl fd AESDCHAR_IOCSEEKTO st w = Inr (-1, w)"
      using f by (simp add: dev_ioctl_def)
    with False show ?thesis by (auto simp: seek_pos_def device_view_def Let_def)
  qed
qed

lemma device_ops_simps:
  "sys_open (device_ops mc me) = dev_open mc" "sys_write (device_ops mc me) = dev_write mc me"
  "sys_ioctl (device_ops mc me) = dev_ioctl" "sys_lseek (device_ops mc me) = dev_lseek mc me"
  "sys_read (device_ops mc me) = dev_read mc me" "sys_close (device_ops mc me) = dev_close"
  by (simp_all add: device_ops_def)

interpretation device_log: log_file "device_ops mc me" "device_ok mc" device_view device_pos for mc me
proof (unfold_locales, unfold device_ops_simps, goal_cases)
  case 1
  then show ?case by (rule device_read)
next
  case 2
  then show ?case by (rule device_open_free)
next
  case 3
  then show ?case by (intro device_open_full)
next
  case 4
  then show ?case by (rule device_write)
next
  case 5
  then show ?case by (rule device_rewind)
next
  case 6
  then show ?case by (rule device_close)
next
  case 7
  then show ?case by (rule device_ioctl)
next
  case 8
  then show ?case by (rule device_seek)
qed

end
