(* ===== verification/Server_Device.thy ===== *)
theory Server_Device imports Main Device_File begin

text \<open>
  What a client of the whole system gets: the server of \<^verbatim>\<open>server/aesdsocket.c\<close> on the driver of
  \<^verbatim>\<open>aesd-char-driver\<close>. Every result is the server's lemma of \<open>log_file\<close> at the device, or holds for
  any file.
\<close>

section \<open>An example\<close>

text \<open>A kernel with memory for every finite heap: a new block lies behind all others.\<close>

definition example_machine :: machine where
  "example_machine =
     \<lparr>kernel_of = \<lparr>lock_interrupted = False,
        kmalloc_ptr = (\<lambda>h _. if finite (dom h) then Suc (Max (insert 16 (dom h))) else 0),
        krealloc_ptr = (\<lambda>_ p _. p), uninit = (\<lambda>_. CHR ''?'')\<rparr>,
      i_cdev = 5000, cdev_offset = 400\<rparr>"

lemma example_machine_ok: "machine_ok example_machine"
proof -
  have "fresh_ptr h (Suc (Max (insert 16 (dom h))))" if "finite (dom h)" for h :: heap
  proof -
    have "a \<le> Max (insert 16 (dom h))" if "a \<in> insert 16 (dom h)" for a
      using that \<open>finite (dom h)\<close> by (intro Max_ge) simp_all
    then have "Suc (Max (insert 16 (dom h))) \<notin> insert 16 (dom h)" by (metis not_less_eq_eq order_refl)
    then show ?thesis by (auto simp: fresh_ptr_def)
  qed
  then show ?thesis by (simp add: machine_ok_def example_machine_def alloc_ok_def)
qed

definition example_server :: "device server" where
  "example_server =
     \<lparr>data_file = \<lparr>kern = example_state, fds = [None, None]\<rparr>, file_mutex = None, sent = []\<rparr>"

lemma example_server_ok: "device_ok example_machine (data_file example_server)"
proof -
  have "finite (dom (heap example_state))" "lock (dev example_state) = None"
    by (simp_all add: example_state_def)
  then show ?thesis
    by (simp add: device_ok_def example_machine_ok example_server_def example_inv example_stored)
qed

lemma example_server_view:
  "file_data (device_view (data_file example_server)) =
     \<lparr>cmds = [''ab'' @ [newline], ''cde'' @ [newline]], pending = []\<rparr>"
  "free_fds (device_view (data_file example_server)) = 2"
  "space (device_view (data_file example_server)) = 2 ^ 63 - 8"
  "in_order (device_view (data_file example_server))"
  by (simp_all add: example_server_def device_view_def example_abs example_stored)
    (simp add: example_state_def)

definition example_client :: "byte list list \<Rightarrow> client" where
  "example_client chunks =
     \<lparr>recvs = chunks, stale = replicate 1024 (CHR 0x00), takes = (\<lambda>_ bs. Some bs)\<rparr>"

lemma example_client_simps [simp]:
  "recvs (example_client cs) = cs" "stale (example_client cs) = replicate 1024 (CHR 0x00)"
  "reliable (example_client cs)"
  by (simp_all add: example_client_def reliable_def)

section \<open>Requests\<close>

text \<open>
  C4. A client that sends a line gets back the contents of the device with that line as the last
  command: the whole log, once, in order, however many reads and sends it takes; the device ends
  with exactly that log and the mutex is free again. The line may come in as many chunks as the
  process has free descriptors, none of which starts with the seek prefix in the server's buffer:
  each chunk before the last loses a descriptor. The client takes what is sent, the device has room
  for the line, and the kernel is one in which allocations succeed, \<open>krealloc\<close> moves no block and no
  signal interrupts the driver's mutex (\<open>device_ok\<close>).
\<close>

theorem client_gets_whole_log:
  assumes "device_ok mc (data_file s)" and "file_mutex s = None" and "reliable cl"
    and "recvs cl = cs @ c # rest" and "plain_chunks (stale cl) (cs @ [c])"
    and "\<And>d. d \<in> set cs \<Longrightarrow> d \<noteq> [] \<and> newline \<notin> set d" and "newline \<in> set c"
    and "length cs < free_fds (device_view (data_file s))"
    and "length (concat cs @ c) \<le> space (device_view (data_file s))"
  shows "\<exists>w'. handle_client char_device (device_ops mc me) me cl s = Some (Inr (Replied,
      s\<lparr>data_file := w',
        sent := contents (log_write (concat cs @ c) (drv_abs (kern (data_file s))))\<rparr>)) \<and>
    device_ok mc w' \<and> drv_abs (kern w') = log_write (concat cs @ c) (drv_abs (kern (data_file s))) \<and>
    free_fds (device_view w') = free_fds (device_view (data_file s)) - length cs"
  using device_log.client_replied [OF assms, of char_device me] by (simp add: device_view_def)

lemma client_gets_whole_log_witness:
  "\<exists>s'. handle_client True (device_ops example_machine 1) 1
      (example_client [''hel'', ''lo'' @ [newline]]) example_server = Some (Inr (Replied, s')) \<and>
    sent s' = ''ab'' @ [newline] @ ''cde'' @ [newline] @ ''hello'' @ [newline] \<and>
    free_fds (device_view (data_file s')) = 1"
proof -
  have "plain_chunks (replicate 1024 (CHR 0x00)) [''hel'', ''lo'' @ [newline]]"
    by (simp add: recv_into_def seek_prefix_def)
  then have "\<exists>w'. handle_client True (device_ops example_machine 1) 1
      (example_client [''hel'', ''lo'' @ [newline]]) example_server = Some (Inr (Replied,
        example_server\<lparr>data_file := w', sent := contents (log_write (concat [''hel''] @ ''lo'' @ [newline])
          (drv_abs (kern (data_file example_server))))\<rparr>)) \<and>
    device_ok example_machine w' \<and> drv_abs (kern w') =
      log_write (concat [''hel''] @ ''lo'' @ [newline]) (drv_abs (kern (data_file example_server))) \<and>
    free_fds (device_view w') = free_fds (device_view (data_file example_server)) - length [''hel'']"
    by (intro client_gets_whole_log [OF example_server_ok])
      (simp_all add: example_server_view, simp_all add: example_server_def)
  then show ?thesis
    by (auto simp: example_server_view, simp add: example_server_def example_abs log_write_def contents_def)
qed



text \<open>
  A client that closes the connection before it has sent a newline leaves \<open>handle_client\<close> with
  \<open>file_mutex\<close> locked. Its bytes stay as the command under way, and from then on every other client
  and the timestamp thread sleep on the mutex for ever: nothing ever unlocks it.
\<close>

theorem hang_up_blocks_server:
  assumes "device_ok mc (data_file s)" and "file_mutex s = None"
    and "plain_chunks (stale cl) (recvs cl)"
    and "\<And>d. d \<in> set (recvs cl) \<Longrightarrow> d \<noteq> [] \<and> newline \<notin> set d"
    and "length (recvs cl) \<le> free_fds (device_view (data_file s))"
    and "length (concat (recvs cl)) \<le> space (device_view (data_file s))"
  shows "\<exists>s'. handle_client char_device (device_ops mc me) me cl s = Some (Inr (Hung_Up, s')) \<and>
    pending (drv_abs (kern (data_file s'))) = pending (drv_abs (kern (data_file s))) @ concat (recvs cl) \<and>
    handle_client char_device (device_ops mc me') me' cl' s' = Some (Inl Would_Block) \<and>
    timestamp_turn char_device (device_ops mc me') me' ts s' = Inl Would_Block"
proof -
  obtain w' where "handle_client char_device (device_ops mc me) me cl s = Some (Inr (Hung_Up,
      s\<lparr>data_file := w', file_mutex := Some me, sent := []\<rparr>))"
    "file_data (device_view w') = (file_data (device_view (data_file s)))
      \<lparr>pending := pending (file_data (device_view (data_file s))) @ concat (recvs cl)\<rparr>"
    using device_log.client_hung_up [OF assms, of char_device me] by blast
  then show ?thesis
    by (intro exI [of _ "s\<lparr>data_file := w', file_mutex := Some me, sent := []\<rparr>"])
      (simp add: device_view_def handle_client_def lock_file_mutex_def timestamp_turn_def)
qed

lemma hang_up_blocks_server_witness:
  "\<exists>s'. handle_client True (device_ops example_machine 1) 1 (example_client [''bye'']) example_server =
      Some (Inr (Hung_Up, s')) \<and>
    handle_client True (device_ops example_machine 2) 2 (example_client [''x'' @ [newline]]) s' =
      Some (Inl Would_Block)"
proof -
  have "plain_chunks (replicate 1024 (CHR 0x00)) [''bye'']"
    by (simp add: recv_into_def seek_prefix_def)
  then have "\<exists>s'. handle_client True (device_ops example_machine 1) 1 (example_client [''bye''])
      example_server = Some (Inr (Hung_Up, s')) \<and>
    pending (drv_abs (kern (data_file s'))) =
      pending (drv_abs (kern (data_file example_server))) @ concat (recvs (example_client [''bye''])) \<and>
    handle_client True (device_ops example_machine 2) 2 (example_client [''x'' @ [newline]]) s' =
      Some (Inl Would_Block) \<and>
    timestamp_turn True (device_ops example_machine 2) 2 [] s' = Inl Would_Block"
    by (intro hang_up_blocks_server [OF example_server_ok])
      (simp_all add: example_server_view, simp_all add: example_server_def)
  then show ?thesis by blast
qed

text \<open>
  Every chunk without a newline costs a descriptor that is not given back, so a single client
  that sends one chunk more than the process has descriptors ends the server for everybody.
\<close>

theorem chunks_exhaust_descriptors:
  assumes "device_ok mc (data_file s)" and "file_mutex s = None"
    and "recvs cl = cs @ c # rest" and "plain_chunks (stale cl) cs"
    and "\<And>d. d \<in> set cs \<Longrightarrow> d \<noteq> [] \<and> newline \<notin> set d"
    and "length cs = free_fds (device_view (data_file s))"
    and "length (concat cs) \<le> space (device_view (data_file s))"
  shows "\<exists>s'. handle_client char_device (device_ops mc me) me cl s = Some (Inr (Server_Exits, s'))"
  using assms by (rule device_log.chunks_exhaust)

lemma chunks_exhaust_descriptors_witness:
  "\<exists>s'. handle_client True (device_ops example_machine 1) 1
      (example_client [''a'', ''b'', ''c'' @ [newline]]) example_server = Some (Inr (Server_Exits, s'))"
proof -
  have "plain_chunks (replicate 1024 (CHR 0x00)) [''a'', ''b'']"
    by (simp add: recv_into_def seek_prefix_def)
  then show ?thesis
    by (intro chunks_exhaust_descriptors [OF example_server_ok, where cs = "[''a'', ''b'']"])
      (auto simp: example_server_view, simp add: example_server_def)
qed

text \<open>
  Nothing handles \<open>SIGPIPE\<close> and no \<open>send\<close> asks for an error instead, so a client that sends a line
  and is gone before its reply ends the server for everybody, as long as there is a byte to send.
\<close>

theorem gone_client_kills_server:
  assumes "device_ok mc (data_file s)" and "file_mutex s = None"
    and "recvs cl = cs @ c # rest" and "plain_chunks (stale cl) (cs @ [c])"
    and "\<And>d. d \<in> set cs \<Longrightarrow> d \<noteq> [] \<and> newline \<notin> set d" and "newline \<in> set c"
    and "length cs < free_fds (device_view (data_file s))"
    and "length (concat cs @ c) \<le> space (device_view (data_file s))"
    and "\<And>bs. bs \<noteq> [] \<Longrightarrow> takes cl [] bs = None"
    and "contents (log_write (concat cs @ c) (drv_abs (kern (data_file s)))) \<noteq> []"
  shows "\<exists>s'. handle_client char_device (device_ops mc me) me cl s = Some (Inr (Server_Killed, s'))"
proof (rule device_log.chunks_gone [OF assms(1-9)])
  show "contents (device_log.put_all (cs @ [c]) (file_data (device_view (data_file s)))) \<noteq> []"
    using assms(10) by (simp add: device_log.put_all_line [OF assms(5)] device_view_def)
qed

lemma gone_client_kills_server_witness:
  "\<exists>s'. handle_client True (device_ops example_machine 1) 1
      ((example_client [''x'' @ [newline]])\<lparr>takes := \<lambda>_ _. None\<rparr>) example_server = Some (Inr (Server_Killed, s'))"
proof (rule gone_client_kills_server [OF example_server_ok, where cs = "[]" and rest = "[]"])
  show "plain_chunks (stale ((example_client [''x'' @ [newline]])\<lparr>takes := \<lambda>_ _. None\<rparr>)) ([] @ [''x'' @ [newline]])"
    by (simp add: example_client_def recv_into_def seek_prefix_def)
  have "drv_abs (kern (data_file example_server)) =
      \<lparr>cmds = [''ab'' @ [newline], ''cde'' @ [newline]], pending = []\<rparr>"
    by (simp add: example_server_def example_abs)
  then show "contents (log_write (concat [] @ ''x'' @ [newline]) (drv_abs (kern (data_file example_server)))) \<noteq> []"
    by (simp add: log_write_def contents_def)
qed (simp_all add: example_server_view, simp_all add: example_client_def example_server_def)

section \<open>The seek command over the socket\<close>

text \<open>
  A client whose first chunk is \<open>AESDCHAR_IOCSEEKTO:X,Y\<close> and a newline gets, until the ring has
  wrapped, the contents of the device from byte Y of command X to the end; nothing is written and
  no descriptor is lost. When there is no such command or byte, the whole server exits.
\<close>

theorem seek_request:
  assumes "device_ok mc (data_file s)" and "file_mutex s = None" and "reliable cl"
    and "recvs cl = c # rest" and "newline \<in> set c" and "0 < free_fds (device_view (data_file s))"
    and "take 19 (recv_into c (stale cl)) = seek_prefix"
    and "c_string (drop 19 (recv_into c (stale cl))) = Inr str" and "sscanf_u_u str = Inr (Some (a, b))"
    and "out_offs (buffer (dev (kern (data_file s)))) = 0"
  shows "case seek_pos \<lparr>write_cmd = a, write_cmd_offset = b\<rparr> (drv_abs (kern (data_file s))) of
    None \<Rightarrow> \<exists>s'. handle_client char_device (device_ops mc me) me cl s = Some (Inr (Server_Exits, s'))
  | Some q \<Rightarrow> \<exists>w'. handle_client char_device (device_ops mc me) me cl s = Some (Inr (Replied,
      s\<lparr>data_file := w', sent := drop q (contents (drv_abs (kern (data_file s))))\<rparr>)) \<and>
      device_ok mc w' \<and> device_view w' = device_view (data_file s)"
proof -
  have order: "in_order (device_view (data_file s))" using assms(10) by (simp add: device_view_def)
  have log: "file_data (device_view (data_file s)) = drv_abs (kern (data_file s))"
    by (simp add: device_view_def)
  show ?thesis by (rule device_log.client_seeks [OF assms(1-9) order, unfolded log])
qed

definition seek_line :: "byte list \<Rightarrow> byte list" where
  "seek_line args = seek_prefix @ args @ [newline]"

lemma seek_line_in_buffer:
  assumes "length args < 1000" and "CHR 0x00 \<notin> set args"
  shows "take 19 (recv_into (seek_line args) (replicate 1024 (CHR 0x00))) = seek_prefix"
    and "c_string (drop 19 (recv_into (seek_line args) (replicate 1024 (CHR 0x00)))) = Inr (args @ [newline])"
proof -
  have 19: "length seek_prefix = 19" by (simp add: seek_prefix_def)
  obtain k where k: "1024 - length (seek_line args) = Suc k"
    using assms(1) 19 by (cases "1024 - length (seek_line args)") (simp_all add: seek_line_def)
  show "take 19 (recv_into (seek_line args) (replicate 1024 (CHR 0x00))) = seek_prefix"
    using 19 by (simp add: recv_into_def seek_line_def)
  have "drop 19 (recv_into (seek_line args) (replicate 1024 (CHR 0x00))) =
      (args @ [newline]) @ replicate (Suc k) (CHR 0x00)"
    using 19 k by (simp add: recv_into_def seek_line_def del: replicate_Suc)
  then show "c_string (drop 19 (recv_into (seek_line args) (replicate 1024 (CHR 0x00)))) =
      Inr (args @ [newline])"
    using assms(2) by (auto simp: c_string_def takeWhile_append2 takeWhile_append intro!: takeWhile_eq_all_conv [THEN iffD2])
qed

lemma example_seeks: "sscanf_u_u (''1,2'' @ [newline]) = Inr (Some (1, 2))" "sscanf_u_u (''7,0'' @ [newline]) = Inr (Some (7, 0))"
  by (simp_all add: sscanf_u_u_def scan_u_def scan_sign_def is_space_def is_digit_def digits_value_def)

lemma seek_request_witness:
  "(\<exists>s'. handle_client True (device_ops example_machine 1) 1 (example_client [seek_line ''1,2'']) example_server =
      Some (Inr (Replied, s')) \<and> sent s' = ''e'' @ [newline]) \<and>
   (\<exists>s'. handle_client True (device_ops example_machine 1) 1 (example_client [seek_line ''7,0'']) example_server =
      Some (Inr (Server_Exits, s')))"
proof -
  let ?l = "drv_abs (kern (data_file example_server))"
  have l: "?l = \<lparr>cmds = [''ab'' @ [newline], ''cde'' @ [newline]], pending = []\<rparr>"
    by (simp add: example_server_def example_abs)
  have *: "case seek_pos \<lparr>write_cmd = a, write_cmd_offset = b\<rparr> ?l of
      None \<Rightarrow> \<exists>s'. handle_client True (device_ops example_machine 1) 1 (example_client [seek_line args])
        example_server = Some (Inr (Server_Exits, s'))
    | Some q \<Rightarrow> \<exists>w'. handle_client True (device_ops example_machine 1) 1 (example_client [seek_line args])
        example_server = Some (Inr (Replied, example_server\<lparr>data_file := w', sent := drop q (contents ?l)\<rparr>)) \<and>
        device_ok example_machine w' \<and> device_view w' = device_view (data_file example_server)"
    if "length args < 1000" "CHR 0x00 \<notin> set args" "sscanf_u_u (args @ [newline]) = Inr (Some (a, b))" for args a b
    using seek_line_in_buffer [OF that(1,2)] that(3)
    by (intro seek_request [OF example_server_ok, where rest = "[]" and str = "args @ [newline]"])
      (simp_all add: example_server_view, simp_all add: example_server_def seek_line_def example_state_def)
  have 1: "seek_pos \<lparr>write_cmd = 1, write_cmd_offset = 2\<rparr> ?l = Some 5"
    unfolding l by (simp add: seek_pos_def cmd_pos_def)
  have 2: "seek_pos \<lparr>write_cmd = 7, write_cmd_offset = 0\<rparr> ?l = None"
    unfolding l by (simp add: seek_pos_def)
  have "drop 5 (contents ?l) = ''e'' @ [newline]" unfolding l by (simp add: contents_def)
  with * [OF _ _ example_seeks(1)] * [OF _ _ example_seeks(2)] 1 2 show ?thesis by auto
qed

text \<open>
  For any file behind the server: a chunk that starts like a seek command but does not carry two
  numbers ends the whole server; so does one whose command the file refuses; a number of more than
  32 bits is a fault; and when the 1024 bytes of the buffer hold no terminator behind the prefix,
  \<open>sscanf\<close> reads past the array.
\<close>

theorem bad_seek_ends_server:
  assumes "file_mutex s = None" and "recvs cl = c # rest"
    and "sys_open ops RDWR_CREAT (data_file s) = Inr (fd, w)" and "fd \<noteq> -1"
    and "take 19 (recv_into c (stale cl)) = seek_prefix"
  shows "case c_string (drop 19 (recv_into c (stale cl))) of
      Inl e \<Rightarrow> e = Out_Of_Bounds \<and> handle_client char_device ops me cl s = Some (Inl Out_Of_Bounds)
    | Inr str \<Rightarrow>
        (case sscanf_u_u str of
           Inl e \<Rightarrow> handle_client char_device ops me cl s = Some (Inl e)
         | Inr None \<Rightarrow> \<exists>s'. handle_client char_device ops me cl s = Some (Inr (Server_Exits, s'))
         | Inr (Some (a, b)) \<Rightarrow>
             \<forall>w'. sys_ioctl ops fd AESDCHAR_IOCSEEKTO \<lparr>write_cmd = a, write_cmd_offset = b\<rparr> w = Inr (-1, w') \<longrightarrow>
               (\<exists>s'. handle_client char_device ops me cl s = Some (Inr (Server_Exits, s'))))"
proof -
  let ?bs = "drop 19 (recv_into c (stale cl))"
  have open_it: "handle_client char_device ops me cl s =
      (case store_chunk ops c (recv_into c (stale cl)) fd (s\<lparr>file_mutex := Some me, sent := [], data_file := w\<rparr>) of
         Inl e \<Rightarrow> Some (Inl e)
       | Inr (None, s2) \<Rightarrow> Some (unlock_and_cleanup char_device ops me s2)
       | Inr (Some seekset, s2) \<Rightarrow>
           if newline \<in> set c then send_reply char_device ops me cl seekset fd s2
           else client_loop char_device ops me cl rest (recv_into c (stale cl)) s2)"
    using assms(1-4) by (simp add: handle_client_def lock_file_mutex_def Let_def)
  show ?thesis
  proof (cases "CHR 0x00 \<in> set ?bs")
    case False
    then show ?thesis using assms(5) unfolding open_it by (simp add: c_string_def store_chunk_def)
  next
    case True
    then obtain str where str: "c_string ?bs = Inr str" by (simp add: c_string_def)
    then show ?thesis
      using assms(5) unfolding open_it
      by (auto simp: store_chunk_def unlock_and_cleanup_def unlock_file_mutex_def split: option.split sum.split)
  qed
qed

lemma bad_seek_ends_server_witness:
  "\<exists>s'. handle_client True (device_ops example_machine 1) 1 (example_client [seek_line ''x'']) example_server =
    Some (Inr (Server_Exits, s'))"
proof -
  obtain fd w where w: "sys_open (device_ops example_machine 1) RDWR_CREAT (data_file example_server) = Inr (fd, w)"
    "0 \<le> fd"
    using device_log.open_free [OF example_server_ok, of 1 1] by (auto simp: example_server_view)
  have none: "sscanf_u_u (''x'' @ [newline]) = Inr None"
    by (simp add: sscanf_u_u_def scan_u_def scan_sign_def is_space_def is_digit_def)
  note buf = seek_line_in_buffer [of "''x''"]
  have "case c_string (drop 19 (recv_into (seek_line ''x'') (stale (example_client [seek_line ''x''])))) of
      Inl e \<Rightarrow> e = Out_Of_Bounds \<and> handle_client True (device_ops example_machine 1) 1
        (example_client [seek_line ''x'']) example_server = Some (Inl Out_Of_Bounds)
    | Inr str \<Rightarrow>
        (case sscanf_u_u str of
           Inl e \<Rightarrow> handle_client True (device_ops example_machine 1) 1
             (example_client [seek_line ''x'']) example_server = Some (Inl e)
         | Inr None \<Rightarrow> \<exists>s'. handle_client True (device_ops example_machine 1) 1
             (example_client [seek_line ''x'']) example_server = Some (Inr (Server_Exits, s'))
         | Inr (Some (a, b)) \<Rightarrow>
             \<forall>w'. sys_ioctl (device_ops example_machine 1) fd AESDCHAR_IOCSEEKTO
                 \<lparr>write_cmd = a, write_cmd_offset = b\<rparr> w = Inr (-1, w') \<longrightarrow>
               (\<exists>s'. handle_client True (device_ops example_machine 1) 1
                 (example_client [seek_line ''x'']) example_server = Some (Inr (Server_Exits, s'))))"
    using w buf by (intro bad_seek_ends_server [where rest = "[]"]) (simp_all add: example_server_def)
  with buf none show ?thesis by simp
qed

end
