(* ===== verification/Device_Runs.thy ===== *)
theory Device_Runs imports Main Driver_Module Server_Device begin

text \<open>
  Whole runs of the driver: any sequence of system calls of any tasks on a loaded module, each with
  its own answers of the kernel, memory running out included. What every handler needs of the
  device is what every handler leaves behind, so no run faults; and what is stored at the end is
  what the writes that succeeded stored.
\<close>

section \<open>System calls\<close>

datatype syscall =
    Sys_Open open_flags
  | Sys_Write int "byte list"
  | Sys_Read int nat
  | Sys_Lseek int int int
  | Sys_Ioctl int uint32_t aesd_seekto
  | Sys_Close int

text \<open>The result of a call, the bytes a read delivered, and the device.\<close>

definition system_call :: "machine \<Rightarrow> tid \<Rightarrow> syscall \<Rightarrow> device \<Rightarrow> (int \<times> byte list \<times> device) outcome" where
  "system_call mc me c w =
     (case c of
        Sys_Open flags \<Rightarrow> bindR (dev_open mc flags w) (\<lambda>(r, w'). Inr (r, [], w'))
      | Sys_Write fd bs \<Rightarrow> bindR (dev_write mc me fd bs w) (\<lambda>(r, w'). Inr (r, [], w'))
      | Sys_Read fd n \<Rightarrow> dev_read mc me fd n w
      | Sys_Lseek fd off whence \<Rightarrow> bindR (dev_lseek mc me fd off whence w) (\<lambda>(r, w'). Inr (r, [], w'))
      | Sys_Ioctl fd cmd st \<Rightarrow> bindR (dev_ioctl fd cmd st w) (\<lambda>(r, w'). Inr (r, [], w'))
      | Sys_Close fd \<Rightarrow> (case file_at fd w of None \<Rightarrow> Inr (-1, [], w) | Some _ \<Rightarrow> Inr (0, [], dev_close fd w)))"

text \<open>A run: each call with the kernel's answers and the task that makes it.\<close>

fun run_calls ::
  "machine \<Rightarrow> (kernel \<times> tid \<times> syscall) list \<Rightarrow> device \<Rightarrow> (int list \<times> device) outcome" where
  "run_calls mc [] w = Inr ([], w)"
| "run_calls mc ((k, me, c) # cs) w =
     bindR (system_call (mc\<lparr>kernel_of := k\<rparr>) me c w) (\<lambda>(r, _, w1).
       bindR (run_calls mc cs w1) (\<lambda>(rs, w2). Inr (r # rs, w2)))"

section \<open>What a run needs\<close>

text \<open>No signal while a handler takes the mutex, and a block that grows does not move, if it grows.\<close>

definition steady :: "kernel \<Rightarrow> bool" where
  "steady k \<longleftrightarrow> alloc_ok k \<and> \<not> lock_interrupted k \<and>
     (\<forall>h p n. krealloc_ptr k h p n = NULL \<or> krealloc_ptr k h p n = p)"

definition data_of :: "syscall \<Rightarrow> byte list" where
  "data_of c = (case c of Sys_Write _ bs \<Rightarrow> bs | _ \<Rightarrow> [])"

definition writes_something :: "syscall \<Rightarrow> bool" where
  "writes_something c = (case c of Sys_Write _ bs \<Rightarrow> bs \<noteq> [] | _ \<Rightarrow> True)"

text \<open>The writes that succeeded, by the results of the calls.\<close>

definition accepted :: "(kernel \<times> tid \<times> syscall) list \<Rightarrow> int list \<Rightarrow> byte list list" where
  "accepted cs rs = [data_of c. ((_, _, c), r) \<leftarrow> zip cs rs, data_of c \<noteq> [] \<and> r \<noteq> -1]"

lemma accepted_simps [simp]:
  "accepted [] rs = []"
  "accepted ((k, me, c) # cs) (r # rs) =
     (if data_of c \<noteq> [] \<and> r \<noteq> -1 then data_of c # accepted cs rs else accepted cs rs)"
  by (simp_all add: accepted_def)

definition idle_device :: "device \<Rightarrow> bool" where
  "idle_device w \<longleftrightarrow> drv_inv (kern w) \<and> stored (kern w) < 2 ^ 63 \<and> lock (dev (kern w)) = None \<and>
     (\<forall>f. Some f \<in> set (fds w) \<longrightarrow> private_data f \<noteq> NULL)"

lemma idle_deviceD:
  assumes "idle_device w"
  shows "drv_inv (kern w)" "stored (kern w) < 2 ^ 63" "lock (dev (kern w)) = None"
    "\<And>fd f. file_at fd w = Some f \<Longrightarrow> private_data f \<noteq> NULL"
proof -
  show "private_data f \<noteq> NULL" if "file_at fd w = Some f" for fd f
  proof -
    from that have "Some f \<in> set (fds w)" unfolding file_at_def by (metis nth_mem option.distinct(1))
    with assms show ?thesis by (auto simp: idle_device_def)
  qed
qed (use assms in \<open>simp_all add: idle_device_def\<close>)

lemma idle_set_file:
  "idle_device w \<Longrightarrow> (\<And>g. f = Some g \<Longrightarrow> private_data g \<noteq> NULL) \<Longrightarrow> idle_device (set_file fd f w)"
  using set_update_Some [of _ "fds w" "nat fd" f] unfolding idle_device_def by fastforce

section \<open>One call\<close>

text \<open>Calls that do not write.\<close>

lemma open_safe:
  assumes "idle_device w" and "i_cdev mc \<noteq> cdev_offset mc"
  shows "\<exists>r w'. dev_open mc flags w = Inr (r, w') \<and> idle_device w' \<and> kern w' = kern w"
proof (cases "first_free (fds w)")
  case (Some i)
  let ?d = "i_cdev mc - cdev_offset mc"
  let ?f = "\<lparr>f_pos = 0, private_data = unat ?d\<rparr>"
  have d: "?d \<noteq> 0" using assms(2) by simp
  then have pd: "private_data ?f \<noteq> NULL" by (simp add: unat_eq_zero)
  have "idle_device (set_file (int i) (Some ?f) w)"
    by (rule idle_set_file [OF assms(1)]) (use pd in auto)
  with d Some show ?thesis by (simp add: dev_open_def aesd_open_def Let_def)
qed (use assms in \<open>simp add: dev_open_def\<close>)

lemma read_safe:
  assumes "idle_device w" and "\<not> lock_interrupted (kernel_of mc)"
  shows "\<exists>r bs w'. dev_read mc me fd n w = Inr (r, bs, w') \<and> idle_device w' \<and> kern w' = kern w"
proof (cases "file_at fd w")
  case (Some f)
  note d = idle_deviceD [OF assms(1)]
  have "idle_device (set_file fd (Some (f\<lparr>f_pos := x\<rparr>)) w)" for x
    using d(4) [OF Some] by (intro idle_set_file [OF assms(1)]) auto
  then show ?thesis
    using Some assms(1) aesd_read_log [OF d(1,2) assms(2) d(3) d(4) [OF Some]]
    by (simp add: dev_read_def Let_def)
qed (use assms in \<open>simp add: dev_read_def\<close>)

lemma lseek_safe:
  assumes "idle_device w" and "\<not> lock_interrupted (kernel_of mc)"
  shows "\<exists>r w'. dev_lseek mc me fd off whence w = Inr (r, w') \<and> idle_device w' \<and> kern w' = kern w"
proof (cases "file_at fd w")
  case (Some f)
  note d = idle_deviceD [OF assms(1)]
  have "\<exists>r g. aesd_llseek (kernel_of mc) me (word_of_int off) whence f (kern w) = Inr (r, g, kern w) \<and>
      private_data g = private_data f"
    using get_buffer_size_eq [OF d(1,2) assms(2) d(3)] d(4) [OF Some]
    by (auto simp: aesd_llseek_def Let_def split: option.split)
  then obtain r g where "aesd_llseek (kernel_of mc) me (word_of_int off) whence f (kern w) = Inr (r, g, kern w)"
    "private_data g = private_data f"
    by blast
  moreover have "idle_device (set_file fd (Some g) w)" if "private_data g = private_data f" for g
    using d(4) [OF Some] that by (intro idle_set_file [OF assms(1)]) auto
  ultimately show ?thesis using Some by (simp add: dev_lseek_def)
qed (use assms in \<open>simp add: dev_lseek_def\<close>)

lemma ioctl_safe:
  assumes "idle_device w"
  shows "\<exists>r w'. dev_ioctl fd cmd st w = Inr (r, w') \<and> idle_device w' \<and> kern w' = kern w"
proof (cases "file_at fd w")
  case (Some f)
  note d = idle_deviceD [OF assms(1)]
  have "private_data f \<noteq> NULL" by (rule d(4) [OF Some])
  then have "\<exists>r g. aesd_ioctl cmd (Some st) f (kern w) = Inr (r, g) \<and> private_data g = private_data f"
    by (auto simp: aesd_ioctl_def Let_def)
  then obtain r g where "aesd_ioctl cmd (Some st) f (kern w) = Inr (r, g)" "private_data g = private_data f"
    by blast
  moreover have "idle_device (set_file fd (Some g) w)" if "private_data g = private_data f" for g
    using d(4) [OF Some] that by (intro idle_set_file [OF assms(1)]) auto
  ultimately show ?thesis using Some by (simp add: dev_ioctl_def)
qed (use assms in \<open>simp add: dev_ioctl_def\<close>)

text \<open>A write is the log's, or fails and changes nothing.\<close>

lemma write_steady:
  assumes inv: "drv_inv s" and k: "steady k" and free: "lock (dev s) = None" and pd: "private_data filp \<noteq> NULL"
    and n0: "count \<noteq> 0" and fits: "stored s + unat count < 2 ^ 63"
  shows "(\<exists>s'. aesd_write k me filp buf count pos s = Inr (count, pos + count, s') \<and> drv_inv s' \<and>
      lock (dev s') = None \<and> stored s' \<le> stored s + unat count \<and>
      drv_abs s' = log_write (take (unat count) buf) (drv_abs s)) \<or>
    (\<exists>r. aesd_write k me filp buf count pos s = Inr (r, pos, s) \<and> sint r < 0)"
proof -
  have alloc: "alloc_ok k" and int: "\<not> lock_interrupted k" using k by (simp_all add: steady_def)
  show ?thesis
  proof (cases "write_enabled k buf count s")
    case True
    let ?s' = "after_write k buf count s"
    have s': "drv_inv ?s'" "drv_abs ?s' = log_write (take (unat count) buf) (drv_abs s)" "lock (dev ?s') = None"
      using after_write_sim [OF inv alloc True] free by simp_all
    have "stored ?s' \<le> stored s + length (take (unat count) buf)"
      using log_write_grows [of "take (unat count) buf" "drv_abs s"] s'(2)
      by (simp add: stored_log [OF inv] stored_log [OF s'(1)])
    then have "stored ?s' \<le> stored s + unat count" by (simp add: min_def split: if_splits)
    with s' aesd_write_ok [OF inv alloc True int free pd] show ?thesis by auto
  next
    case False
    have "krealloc_ptr k h p m = NULL \<or> krealloc_ptr k h p m = p" for h p m
      using k by (simp add: steady_def)
    then have "grown_ptr k buf count s = NULL \<or> grown_ptr k buf count s = buffptr (dev_entry (dev s))"
      unfolding grown_ptr_def by blast
    with False have "kmalloc_ptr k (heap s) count = NULL \<or> length buf < unat count \<or>
        (under_way s \<and> grown_ptr k buf count s = NULL)"
      using n0 fits by (auto simp: write_enabled_def)
    from aesd_write_failed [OF inv alloc n0 fits this int free pd] show ?thesis by (auto split: if_splits)
  qed
qed

lemma write_safe:
  assumes ok: "idle_device w" and k: "steady (kernel_of mc)"
    and bs: "bs \<noteq> []" "stored (kern w) + length bs < 2 ^ 63"
  shows "\<exists>r w'. dev_write mc me fd bs w = Inr (r, w') \<and> idle_device w' \<and>
    stored (kern w') \<le> stored (kern w) + length bs \<and>
    drv_abs (kern w') = (if r = -1 then drv_abs (kern w) else log_write bs (drv_abs (kern w)))"
proof (cases "file_at fd w")
  case None
  then show ?thesis using ok by (simp add: dev_write_def)
next
  case (Some f)
  let ?k = "kernel_of mc" and ?n = "of_nat (length bs) :: size_t"
  note d = idle_deviceD [OF ok]
  have n: "unat ?n = length bs" using bs(2) by (simp add: unat_of_nat)
  then have sn: "sint ?n = int (length bs)" using bs(2) by (simp add: sint_small)
  have n0: "?n \<noteq> 0" using n bs(1) by (metis length_0_conv unat_0)
  have "stored (kern w) + unat ?n < 2 ^ 63" using bs(2) n by simp
  from write_steady [OF d(1) k d(3) d(4) [OF Some] n0 this, of me bs "f_pos f"] n consider
      s' where "aesd_write ?k me f bs ?n (f_pos f) (kern w) = Inr (?n, f_pos f + ?n, s')" "drv_inv s'"
        "lock (dev s') = None" "stored s' \<le> stored (kern w) + length bs" "drv_abs s' = log_write bs (drv_abs (kern w))"
    | r where "aesd_write ?k me f bs ?n (f_pos f) (kern w) = Inr (r, f_pos f, kern w)" "sint r < 0"
    by auto
  then show ?thesis
  proof cases
    case (1 s')
    let ?f = "f\<lparr>f_pos := f_pos f + ?n\<rparr>"
    have "idle_device (w\<lparr>kern := s'\<rparr>)" using ok 1 bs(2) by (simp add: idle_device_def)
    then have "idle_device (set_file fd (Some ?f) (w\<lparr>kern := s'\<rparr>))"
      using d(4) [OF Some] by (intro idle_set_file) auto
    moreover have "dev_write mc me fd bs w = Inr (int (length bs), set_file fd (Some ?f) (w\<lparr>kern := s'\<rparr>))"
      using 1(1) Some sn by (simp add: dev_write_def)
    ultimately show ?thesis using 1(4,5) by auto
  next
    case (2 r)
    then have "dev_write mc me fd bs w = Inr (-1, w)" using Some by (simp add: dev_write_def)
    with ok show ?thesis by simp
  qed
qed

lemma call_safe:
  assumes ok: "idle_device w" and k: "steady k" and node: "i_cdev mc \<noteq> cdev_offset mc"
    and c: "writes_something c" "stored (kern w) + length (data_of c) < 2 ^ 63"
  shows "\<exists>r bs w'. system_call (mc\<lparr>kernel_of := k\<rparr>) me c w = Inr (r, bs, w') \<and> idle_device w' \<and>
    stored (kern w') \<le> stored (kern w) + length (data_of c) \<and>
    drv_abs (kern w') =
      (if data_of c \<noteq> [] \<and> r \<noteq> -1 then log_write (data_of c) (drv_abs (kern w)) else drv_abs (kern w))"
proof (cases c)
  case (Sys_Open flags)
  obtain r w' where "dev_open (mc\<lparr>kernel_of := k\<rparr>) flags w = Inr (r, w')" "idle_device w'" "kern w' = kern w"
    using open_safe [OF ok, of "mc\<lparr>kernel_of := k\<rparr>" flags] node by auto
  then show ?thesis using Sys_Open by (simp add: system_call_def data_of_def)
next
  case (Sys_Write fd bs)
  have data: "data_of c = bs" "bs \<noteq> []" using Sys_Write c(1) by (simp_all add: data_of_def writes_something_def)
  obtain r w' where w': "dev_write (mc\<lparr>kernel_of := k\<rparr>) me fd bs w = Inr (r, w')" "idle_device w'"
    "stored (kern w') \<le> stored (kern w) + length bs"
    "drv_abs (kern w') = (if r = -1 then drv_abs (kern w) else log_write bs (drv_abs (kern w)))"
    using write_safe [OF ok, of "mc\<lparr>kernel_of := k\<rparr>" bs me fd] k data c(2) by auto
  have "system_call (mc\<lparr>kernel_of := k\<rparr>) me c w = Inr (r, [], w')"
    using Sys_Write w'(1) by (simp add: system_call_def)
  with w'(2-4) show ?thesis unfolding data(1) using data(2) by (intro exI [of _ r] exI [of _ "[]"] exI [of _ w']) simp
next
  case (Sys_Read fd n)
  obtain r bs w' where "dev_read (mc\<lparr>kernel_of := k\<rparr>) me fd n w = Inr (r, bs, w')" "idle_device w'"
    "kern w' = kern w"
    using read_safe [OF ok, of "mc\<lparr>kernel_of := k\<rparr>" me fd n] k by (auto simp: steady_def)
  then show ?thesis using Sys_Read by (simp add: system_call_def data_of_def)
next
  case (Sys_Lseek fd off whence)
  obtain r w' where "dev_lseek (mc\<lparr>kernel_of := k\<rparr>) me fd off whence w = Inr (r, w')" "idle_device w'"
    "kern w' = kern w"
    using lseek_safe [OF ok, of "mc\<lparr>kernel_of := k\<rparr>" me fd off whence] k by (auto simp: steady_def)
  then show ?thesis using Sys_Lseek by (simp add: system_call_def data_of_def)
next
  case (Sys_Ioctl fd cmd st)
  obtain r w' where "dev_ioctl fd cmd st w = Inr (r, w')" "idle_device w'" "kern w' = kern w"
    using ioctl_safe [OF ok] by blast
  then show ?thesis using Sys_Ioctl by (simp add: system_call_def data_of_def)
next
  case (Sys_Close fd)
  have "idle_device (dev_close fd w)" unfolding dev_close_def by (rule idle_set_file [OF ok]) simp
  moreover have "kern (dev_close fd w) = kern w" by (simp add: dev_close_def)
  ultimately show ?thesis
    using Sys_Close ok by (cases "file_at fd w") (simp_all add: system_call_def data_of_def)
qed

section \<open>Runs\<close>

definition fitting :: "(kernel \<times> tid \<times> syscall) list \<Rightarrow> bool" where
  "fitting cs \<longleftrightarrow> (\<forall>(k, _, c) \<in> set cs. steady k \<and> writes_something c)"

definition data_size :: "(kernel \<times> tid \<times> syscall) list \<Rightarrow> nat" where
  "data_size cs = sum_list (map (\<lambda>(_, _, c). length (data_of c)) cs)"

lemma fitting_simps [simp]:
  "fitting []" "fitting ((k, me, c) # cs) \<longleftrightarrow> steady k \<and> writes_something c \<and> fitting cs"
  "data_size [] = 0" "data_size ((k, me, c) # cs) = length (data_of c) + data_size cs"
  by (simp_all add: fitting_def data_size_def)

lemma run_safe:
  assumes "i_cdev mc \<noteq> cdev_offset mc" and "idle_device w" and "fitting cs"
    and "stored (kern w) + data_size cs < 2 ^ 63"
  shows "\<exists>rs w'. run_calls mc cs w = Inr (rs, w') \<and> length rs = length cs \<and> idle_device w' \<and>
    drv_abs (kern w') = foldl (\<lambda>l d. log_write d l) (drv_abs (kern w)) (accepted cs rs)"
  using assms(2-)
proof (induction cs arbitrary: w)
  case Nil
  then show ?case by simp
next
  case (Cons x cs)
  obtain k me c where x: "x = (k, me, c)" by (cases x)
  have fit: "steady k" "writes_something c" "fitting cs" using Cons.prems(2) x by simp_all
  have room: "stored (kern w) + length (data_of c) < 2 ^ 63"
    "stored (kern w) + length (data_of c) + data_size cs < 2 ^ 63"
    using Cons.prems(3) x by simp_all
  obtain r bs w1 where w1: "system_call (mc\<lparr>kernel_of := k\<rparr>) me c w = Inr (r, bs, w1)" "idle_device w1"
    "stored (kern w1) \<le> stored (kern w) + length (data_of c)"
    "drv_abs (kern w1) =
      (if data_of c \<noteq> [] \<and> r \<noteq> -1 then log_write (data_of c) (drv_abs (kern w)) else drv_abs (kern w))"
    using call_safe [OF Cons.prems(1) fit(1) assms(1) fit(2) room(1)] by blast
  have "stored (kern w1) + data_size cs < 2 ^ 63" using w1(3) room(2) by linarith
  from Cons.IH [OF w1(2) fit(3) this] obtain rs w' where
    "run_calls mc cs w1 = Inr (rs, w')" "length rs = length cs" "idle_device w'"
    "drv_abs (kern w') = foldl (\<lambda>l d. log_write d l) (drv_abs (kern w1)) (accepted cs rs)"
    by blast
  with w1 show ?case
    by (intro exI [of _ "r # rs"] exI [of _ w']) (simp add: x)
qed

text \<open>
  C3. From the loading of the module on, any sequence of opens, writes, reads, seeks, seek commands and
  closes by any tasks, each call with memory or without, returns without a fault and leaves the
  device well formed with its mutex free; and the log is that of the writes that succeeded, in
  their order. It takes that no write is empty, that no signal hits a handler at its mutex, that
  \<open>krealloc\<close> fails or keeps the block, and that fewer than two to the 63 bytes are written.
\<close>

theorem device_runs_safe:
  assumes "heap_ok (heap s)" and "i_cdev mc \<noteq> cdev_offset mc" and "fitting cs" and "data_size cs < 2 ^ 63"
  shows "\<exists>rs w'. run_calls mc cs \<lparr>kern = init_device s, fds = replicate n None\<rparr> = Inr (rs, w') \<and>
    length rs = length cs \<and> drv_inv (kern w') \<and> lock (dev (kern w')) = None \<and>
    drv_abs (kern w') = foldl (\<lambda>l d. log_write d l) \<lparr>cmds = [], pending = []\<rparr> (accepted cs rs)"
proof -
  let ?w = "\<lparr>kern = init_device s, fds = replicate n None\<rparr>"
  note i = init_device_ok [OF assms(1)]
  have st: "stored (init_device s) = 0" using i(2) by (simp add: stored_log [OF i(1)] contents_def)
  then have ok: "idle_device ?w" using i by (simp add: idle_device_def)
  have "stored (kern ?w) + data_size cs < 2 ^ 63" using st assms(4) by simp
  from run_safe [OF assms(2) ok assms(3) this] show ?thesis
    using i(2) by (auto simp: idle_device_def)
qed

definition poor_kernel :: kernel where
  "poor_kernel = example_kernel\<lparr>kmalloc_ptr := \<lambda>_ _. NULL\<rparr>"

lemma steady_examples: "steady example_kernel" "steady poor_kernel"
  by (simp_all add: steady_def example_kernel_def poor_kernel_def alloc_ok_def fresh_ptr_def)

lemma device_runs_safe_witness:
  "\<exists>rs w'. run_calls example_machine
      [(example_kernel, 1, Sys_Open RDWR_CREAT), (example_kernel, 1, Sys_Write 0 (''a'' @ [newline])),
       (poor_kernel, 2, Sys_Write 0 ''b''), (example_kernel, 2, Sys_Ioctl 0 AESDCHAR_IOCSEEKTO
         \<lparr>write_cmd = 0, write_cmd_offset = 1\<rparr>), (example_kernel, 1, Sys_Read 0 10), (example_kernel, 2, Sys_Close 0)]
      \<lparr>kern = init_device (example_state\<lparr>heap := (\<lambda>_. None)\<rparr>), fds = replicate 1 None\<rparr> = Inr (rs, w') \<and>
    drv_inv (kern w')"
proof -
  let ?cs = "[(example_kernel, 1, Sys_Open RDWR_CREAT), (example_kernel, 1, Sys_Write 0 (''a'' @ [newline])),
       (poor_kernel, 2, Sys_Write 0 ''b''), (example_kernel, 2, Sys_Ioctl 0 AESDCHAR_IOCSEEKTO
         \<lparr>write_cmd = 0, write_cmd_offset = 1\<rparr>), (example_kernel, 1, Sys_Read 0 10), (example_kernel, 2, Sys_Close 0)] :: (kernel \<times> tid \<times> syscall) list"
  have "\<exists>rs w'. run_calls example_machine ?cs
      \<lparr>kern = init_device (example_state\<lparr>heap := (\<lambda>_. None)\<rparr>), fds = replicate 1 None\<rparr> = Inr (rs, w') \<and>
    length rs = length ?cs \<and> drv_inv (kern w') \<and> lock (dev (kern w')) = None \<and>
    drv_abs (kern w') = foldl (\<lambda>l d. log_write d l) \<lparr>cmds = [], pending = []\<rparr> (accepted ?cs rs)"
    by (intro device_runs_safe)
      (simp_all add: steady_examples writes_something_def data_of_def heap_ok_def example_machine_def)
  then show ?thesis by blast
qed

end
