(* ===== verification/Thread_List.thy ===== *)
theory Thread_List imports Main Aesd_Prelude begin

text \<open>
  The linked list of threads of \<^verbatim>\<open>server/aesdsocket.c\<close>: \<open>add_thread\<close>, \<open>remove_thread\<close> and
  \<open>join_threads\<close> on the nodes they allocate and free. Nothing in the program protects the list,
  so besides each operation on its own the theory looks at two interleavings: a thread that
  removes itself while \<open>join_threads\<close> waits for it, and one that does so between the two
  assignments of \<open>add_thread\<close>.

  A loop over the list could run forever on a cyclic one, so the loops are partial functions:
  \<open>None\<close> is a call that does not return.
\<close>

section \<open>State\<close>

record ThreadNode =
  node_tid :: tid
  next_node :: ptr

record thread_list =
  nodes :: "ptr \<rightharpoonup> ThreadNode"
  head :: ptr

section \<open>Operations\<close>

text \<open>
  \<open>add_thread\<close>, in its two halves: the new node with its fields, then the assignment to \<open>head\<close>.
  \<open>p\<close> is the address \<open>malloc\<close> returned.
\<close>

definition new_thread_node :: "ptr \<Rightarrow> tid \<Rightarrow> thread_list \<Rightarrow> thread_list" where
  "new_thread_node p t s = s\<lparr>nodes := (nodes s)(p \<mapsto> \<lparr>node_tid = t, next_node = head s\<rparr>)\<rparr>"

definition publish_node :: "ptr \<Rightarrow> thread_list \<Rightarrow> thread_list" where
  "publish_node p s = s\<lparr>head := p\<rparr>"

definition add_thread :: "ptr \<Rightarrow> tid \<Rightarrow> thread_list \<Rightarrow> thread_list proc" where
  "add_thread p t s =
     (if p = NULL then Exits 1 else Continues (publish_node p (new_thread_node p t s)))"

definition free_node :: "ptr \<Rightarrow> thread_list \<Rightarrow> thread_list outcome" where
  "free_node p s =
     (if nodes s p = None then Inl Bad_Free else Inr (s\<lparr>nodes := (nodes s)(p := None)\<rparr>))"

text \<open>The removal of the node \<open>current\<close> found by the search, with its predecessor.\<close>

definition unlink_node :: "ptr \<Rightarrow> ptr \<Rightarrow> ThreadNode \<Rightarrow> thread_list \<Rightarrow> thread_list outcome" where
  "unlink_node prev current node s =
     (if prev = NULL then free_node current (s\<lparr>head := next_node node\<rparr>)
      else case nodes s prev of
        None \<Rightarrow> Inl Dead_Block
      | Some pn \<Rightarrow>
          free_node current (s\<lparr>nodes := (nodes s)(prev \<mapsto> pn\<lparr>next_node := next_node node\<rparr>)\<rparr>))"

partial_function (option) remove_loop ::
  "tid \<Rightarrow> ptr \<Rightarrow> ptr \<Rightarrow> thread_list \<Rightarrow> thread_list outcome option" where
  "remove_loop t prev current s =
     (if current = NULL then Some (Inr s)
      else case nodes s current of
        None \<Rightarrow> Some (Inl Dead_Block)
      | Some node \<Rightarrow>
          if node_tid node = t then Some (unlink_node prev current node s)
          else remove_loop t current (next_node node) s)"

definition remove_thread :: "tid \<Rightarrow> thread_list \<Rightarrow> thread_list outcome option" where
  "remove_thread t s = remove_loop t NULL (head s) s"

text \<open>
  \<open>join_threads\<close>. While the caller waits in \<open>pthread_join\<close> for the thread \<open>t\<close>, that thread runs
  to its end; \<open>meanwhile t\<close> is what it does to the list. The second component of the result lists
  the joined threads.
\<close>

partial_function (option) join_loop ::
  "(tid \<Rightarrow> thread_list \<Rightarrow> thread_list outcome option) \<Rightarrow> ptr \<Rightarrow> tid list \<Rightarrow> thread_list \<Rightarrow>
   (thread_list \<times> tid list) outcome option" where
  "join_loop meanwhile current joined s =
     (if current = NULL then Some (Inr (s\<lparr>head := NULL\<rparr>, joined))
      else case nodes s current of
        None \<Rightarrow> Some (Inl Dead_Block)
      | Some node \<Rightarrow>
          (case meanwhile (node_tid node) s of
             None \<Rightarrow> None
           | Some (Inl e) \<Rightarrow> Some (Inl e)
           | Some (Inr s1) \<Rightarrow>
               (case nodes s1 current of
                  None \<Rightarrow> Some (Inl Dead_Block)
                | Some node1 \<Rightarrow>
                    (case free_node current s1 of
                       Inl e \<Rightarrow> Some (Inl e)
                     | Inr s2 \<Rightarrow>
                         join_loop meanwhile (next_node node1) (joined @ [node_tid node]) s2))))"

definition join_threads ::
  "(tid \<Rightarrow> thread_list \<Rightarrow> thread_list outcome option) \<Rightarrow> thread_list \<Rightarrow>
   (thread_list \<times> tid list) outcome option" where
  "join_threads meanwhile s = join_loop meanwhile (head s) [] s"

text \<open>The last step of \<open>client_thread\<close> and of \<open>timestamp_thread\<close>, and a thread that is already past it.\<close>

definition self_removal :: "tid \<Rightarrow> thread_list \<Rightarrow> thread_list outcome option" where
  "self_removal t s = remove_thread t s"

definition already_ended :: "tid \<Rightarrow> thread_list \<Rightarrow> thread_list outcome option" where
  "already_ended t s = Some (Inr s)"

text \<open>Several threads that end one after the other.\<close>

fun end_all :: "tid list \<Rightarrow> thread_list \<Rightarrow> thread_list outcome option" where
  "end_all [] s = Some (Inr s)"
| "end_all (t # ts) s =
     (case self_removal t s of
        None \<Rightarrow> None
      | Some (Inl e) \<Rightarrow> Some (Inl e)
      | Some (Inr s1) \<Rightarrow> end_all ts s1)"

section \<open>The list a state stands for\<close>

text \<open>The nodes from \<open>p\<close> on, with their addresses.\<close>

fun threads_at :: "(ptr \<rightharpoonup> ThreadNode) \<Rightarrow> ptr \<Rightarrow> (ptr \<times> tid) list \<Rightarrow> bool" where
  "threads_at h p [] \<longleftrightarrow> p = NULL"
| "threads_at h p ((a, t) # xs) \<longleftrightarrow> p = a \<and> a \<noteq> NULL \<and>
     (case h a of None \<Rightarrow> False
      | Some node \<Rightarrow> node_tid node = t \<and> threads_at h (next_node node) xs)"

text \<open>Well formed: acyclic, and every allocated node is on the list.\<close>

definition list_inv :: "thread_list \<Rightarrow> (ptr \<times> tid) list \<Rightarrow> bool" where
  "list_inv s xs \<longleftrightarrow>
     threads_at (nodes s) (head s) xs \<and> distinct (map fst xs) \<and> dom (nodes s) = fst ` set xs"

text \<open>Without the first node of thread \<open>t\<close>.\<close>

fun without :: "tid \<Rightarrow> (ptr \<times> tid) list \<Rightarrow> (ptr \<times> tid) list" where
  "without t [] = []"
| "without t ((a, u) # xs) = (if u = t then xs else (a, u) # without t xs)"

definition start_of :: "(ptr \<times> tid) list \<Rightarrow> ptr" where
  "start_of xs = (case xs of [] \<Rightarrow> NULL | (a, _) # _ \<Rightarrow> a)"

lemma start_of_simps [simp]: "start_of [] = NULL" "start_of ((a, t) # xs) = a"
  by (simp_all add: start_of_def)

lemma threads_at_start: "threads_at h p xs \<Longrightarrow> p = start_of xs"
  by (cases xs) auto

lemma threads_at_upd: "a \<notin> fst ` set xs \<Longrightarrow> threads_at (h(a := v)) p xs = threads_at h p xs"
  by (induction h p xs rule: threads_at.induct) (auto split: option.splits)

lemma without_notin: "t \<notin> snd ` set xs \<Longrightarrow> without t xs = xs"
  by (induction t xs rule: without.induct) auto

lemma threads_at_append:
  "threads_at h p (pre @ (a, t) # xs) \<Longrightarrow>
    a \<noteq> NULL \<and> (\<exists>node. h a = Some node \<and> node_tid node = t \<and> threads_at h (next_node node) xs)"
  by (induction pre arbitrary: p) (auto split: option.splits)

text \<open>Taking the node \<open>a\<close> out behind its predecessor \<open>b\<close>.\<close>

lemma threads_at_unlink:
  assumes "threads_at h p (pre @ (b, u) # (a, t) # xs)"
    and "distinct (map fst (pre @ (b, u) # (a, t) # xs))"
    and "h b = Some nb" and "h a = Some na"
  shows "threads_at (h(b \<mapsto> nb\<lparr>next_node := next_node na\<rparr>, a := None)) p (pre @ (b, u) # xs)"
  using assms
proof (induction pre arbitrary: p)
  case Nil
  let ?nb = "nb\<lparr>next_node := next_node na\<rparr>"
  from Nil have "a \<notin> fst ` set xs" "b \<notin> fst ` set xs" by auto
  then have "threads_at (h(b \<mapsto> ?nb, a := None)) (next_node na) xs = threads_at h (next_node na) xs"
    by (metis threads_at_upd)
  moreover have "a \<noteq> b" using Nil by auto
  ultimately show ?case using Nil by (simp add: fun_upd_def)
next
  case (Cons c pre)
  then show ?case by (cases c) (auto split: option.splits)
qed

section \<open>The contract of the operations\<close>

text \<open>The search of \<open>remove_thread\<close>, after it has passed the nodes \<open>pre\<close>.\<close>

lemma without_append: "t \<notin> snd ` set pre \<Longrightarrow> without t (pre @ xs) = pre @ without t xs"
  by (induction t pre rule: without.induct) auto

definition last_address :: "(ptr \<times> tid) list \<Rightarrow> ptr" where
  "last_address pre = (if pre = [] then NULL else fst (last pre))"

lemma threads_at_mem:
  "threads_at h p xs \<Longrightarrow> (a, t) \<in> set xs \<Longrightarrow> a \<noteq> NULL \<and> (\<exists>node. h a = Some node \<and> node_tid node = t)"
  by (induction h p xs rule: threads_at.induct) (auto split: option.splits)

lemma unlink_first:
  assumes "list_inv s ((a, t) # xs)" and "nodes s a = Some node"
  shows "\<exists>s'. unlink_node NULL a node s = Inr s' \<and> list_inv s' xs"
  using assms by (auto simp: unlink_node_def free_node_def list_inv_def threads_at_upd)

lemma unlink_later:
  assumes inv: "list_inv s (pre @ (b, u) # (a, t) # xs)" and "nodes s a = Some node"
  shows "\<exists>s'. unlink_node b a node s = Inr s' \<and> list_inv s' (pre @ (b, u) # xs)"
proof -
  from inv have dist: "distinct (map fst (pre @ (b, u) # (a, t) # xs))"
    and at: "threads_at (nodes s) (head s) (pre @ (b, u) # (a, t) # xs)"
    and dom: "dom (nodes s) = fst ` set (pre @ (b, u) # (a, t) # xs)"
    by (simp_all add: list_inv_def)
  from threads_at_append [OF at] obtain nb where b: "b \<noteq> NULL" "nodes s b = Some nb" by blast
  have "a \<noteq> b" "a \<notin> fst ` set pre" "a \<notin> fst ` set xs" using dist by auto
  then have "dom (nodes s) - {a} = fst ` set (pre @ (b, u) # xs)" unfolding dom by auto
  moreover have "distinct (map fst (pre @ (b, u) # xs))" using dist by auto
  ultimately show ?thesis
    using b \<open>a \<noteq> b\<close> assms(2) threads_at_unlink [OF at dist b(2) assms(2)]
    by (auto simp: unlink_node_def free_node_def list_inv_def)
qed

lemma remove_loop_list:
  assumes "list_inv s (pre @ xs)" and "t \<notin> snd ` set pre" and "threads_at (nodes s) p xs"
  shows "\<exists>s'. remove_loop t (last_address pre) p s = Some (Inr s') \<and> list_inv s' (pre @ without t xs)"
  using assms
proof (induction xs arbitrary: pre p)
  case Nil
  then show ?case by (subst remove_loop.simps) simp
next
  case (Cons x xs)
  obtain a u where x: "x = (a, u)" by (cases x)
  with Cons.prems obtain node where node: "p = a" "a \<noteq> NULL" "nodes s a = Some node" "node_tid node = u"
    "threads_at (nodes s) (next_node node) xs"
    by (auto split: option.splits)
  show ?case
  proof (cases "u = t")
    case True
    have "\<exists>s'. unlink_node (last_address pre) a node s = Inr s' \<and> list_inv s' (pre @ xs)"
    proof (cases pre rule: rev_cases)
      case Nil
      with Cons.prems x node show ?thesis by (simp add: last_address_def unlink_first)
    next
      case (snoc pre' y)
      then show ?thesis
        using Cons.prems x node unlink_later [of s pre' "fst y" "snd y" a u xs node]
        by (cases y) (simp add: last_address_def)
    qed
    with True node x show ?thesis by (subst remove_loop.simps) simp
  next
    case False
    then have "\<exists>s'. remove_loop t (last_address (pre @ [(a, u)])) (next_node node) s = Some (Inr s') \<and>
        list_inv s' ((pre @ [(a, u)]) @ without t xs)"
      using Cons.prems x node by (intro Cons.IH) auto
    with False node x show ?thesis by (subst remove_loop.simps) (simp add: last_address_def)
  qed
qed

lemma remove_thread_aux:
  assumes "list_inv s xs"
  shows "\<exists>s'. remove_thread t s = Some (Inr s') \<and> list_inv s' (without t xs)"
  using remove_loop_list [of s "[]" xs t "head s"] assms
  by (simp add: remove_thread_def last_address_def list_inv_def)

lemma add_thread_aux:
  assumes "list_inv s xs" and "nodes s p = None" and "p \<noteq> NULL"
  shows "\<exists>s'. add_thread p t s = Continues s' \<and> list_inv s' ((p, t) # xs)"
proof -
  from assms have "p \<notin> fst ` set xs" by (auto simp: list_inv_def)
  with assms show ?thesis
    by (auto simp: add_thread_def publish_node_def new_thread_node_def list_inv_def threads_at_upd)
qed

text \<open>
  On a well-formed list \<open>remove_thread\<close> always returns, without a fault; it takes the first
  node of the thread out, wherever it is (or none), frees exactly that node, and the list stays
  well formed and in order.
\<close>

theorem remove_thread_spec:
  assumes "list_inv s xs"
  shows "\<exists>s'. remove_thread t s = Some (Inr s') \<and> list_inv s' (without t xs)"
  using assms by (rule remove_thread_aux)

definition example_list :: thread_list where
  "example_list =
     \<lparr>nodes = [100 \<mapsto> \<lparr>node_tid = 3, next_node = 200\<rparr>, 200 \<mapsto> \<lparr>node_tid = 2, next_node = 300\<rparr>,
               300 \<mapsto> \<lparr>node_tid = 1, next_node = 0\<rparr>], head = 100\<rparr>"

lemma example_list_inv: "list_inv example_list [(100, 3), (200, 2), (300, 1)]"
  by (auto simp: list_inv_def example_list_def split: if_splits)

lemma remove_thread_spec_witness:
  "\<exists>s'. remove_thread 2 example_list = Some (Inr s') \<and> list_inv s' [(100, 3), (300, 1)]"
  using remove_thread_spec [OF example_list_inv, of 2] by simp

text \<open>
  \<open>add_thread\<close> puts the new thread in front of a well-formed list, or ends the process when
  \<open>malloc\<close> fails.
\<close>

theorem add_thread_spec:
  assumes "list_inv s xs" and "nodes s p = None"
  shows "if p = NULL then add_thread p t s = Exits 1
    else \<exists>s'. add_thread p t s = Continues s' \<and> list_inv s' ((p, t) # xs)"
  using add_thread_aux [OF assms] by (simp add: add_thread_def)

lemma add_thread_spec_witness:
  "\<exists>s'. add_thread 400 9 example_list = Continues s' \<and>
    list_inv s' [(400, 9), (100, 3), (200, 2), (300, 1)]"
  using add_thread_spec [OF example_list_inv, of 400 9] by (simp add: example_list_def)

lemma join_loop_list:
  assumes "threads_at (nodes s) p xs" and "distinct (map fst xs)" and "dom (nodes s) = fst ` set xs"
  shows "join_loop already_ended p joined s =
    Some (Inr (s\<lparr>nodes := (\<lambda>_. None), head := NULL\<rparr>, joined @ map snd xs))"
  using assms
proof (induction xs arbitrary: p joined s)
  case Nil
  then show ?case by (subst join_loop.simps) simp
next
  case (Cons x xs)
  obtain a u where x: "x = (a, u)" by (cases x)
  with Cons.prems obtain node where node: "p = a" "a \<noteq> NULL" "nodes s a = Some node" "node_tid node = u"
    "threads_at (nodes s) (next_node node) xs"
    by (auto split: option.splits)
  let ?s = "s\<lparr>nodes := (nodes s)(a := None)\<rparr>"
  have "threads_at (nodes ?s) (next_node node) xs"
    using Cons.prems x node by (simp add: threads_at_upd)
  moreover have "dom (nodes ?s) = fst ` set xs" using Cons.prems x by auto
  ultimately have "join_loop already_ended (next_node node) (joined @ [u]) ?s =
      Some (Inr (?s\<lparr>nodes := (\<lambda>_. None), head := NULL\<rparr>, (joined @ [u]) @ map snd xs))"
    using Cons.prems x by (intro Cons.IH [of ?s]) (simp_all del: fun_upd_apply)
  with node x show ?case
    by (subst join_loop.simps) (simp add: already_ended_def free_node_def)
qed

text \<open>
  C31. When no thread touches the list while it runs, \<open>join_threads\<close> returns on every well-formed
  list: it joins every thread on it once, from the newest to the oldest, frees every node and
  leaves the list empty.
\<close>

theorem join_threads_frees_all:
  assumes "list_inv s xs"
  shows "join_threads already_ended s =
    Some (Inr (s\<lparr>nodes := (\<lambda>_. None), head := NULL\<rparr>, map snd xs))"
  using join_loop_list [of s "head s" xs "[]"] assms by (simp add: join_threads_def list_inv_def)

lemma join_threads_frees_all_witness:
  "join_threads already_ended example_list =
    Some (Inr (example_list\<lparr>nodes := (\<lambda>_. None), head := NULL\<rparr>, [3, 2, 1]))"
  using join_threads_frees_all [OF example_list_inv] by simp

section \<open>Interleavings\<close>

lemma join_running_thread:
  assumes "list_inv s xs" and "xs \<noteq> []"
  shows "join_threads self_removal s = Some (Inl Dead_Block)"
proof -
  obtain a t ys where xs: "xs = (a, t) # ys" using assms(2) by (cases xs) auto
  with assms obtain node where node: "head s = a" "a \<noteq> NULL" "nodes s a = Some node" "node_tid node = t"
    by (auto simp: list_inv_def split: option.splits)
  have "self_removal t s = Some (Inr (s\<lparr>head := next_node node, nodes := (nodes s)(a := None)\<rparr>))"
    using node unfolding self_removal_def remove_thread_def
    by (subst remove_loop.simps) (simp add: unlink_node_def free_node_def)
  with node show ?thesis
    unfolding join_threads_def by (subst join_loop.simps) simp
qed

lemma without_filter: "distinct (map snd xs) \<Longrightarrow> without t xs = filter (\<lambda>x. snd x \<noteq> t) xs"
proof (induction t xs rule: without.induct)
  case (2 t a u xs)
  then show ?case by (auto intro!: filter_True [symmetric])
qed simp

lemma end_all_list:
  assumes "list_inv s xs" and "distinct (map snd xs)"
  shows "\<exists>s'. end_all ts s = Some (Inr s') \<and> list_inv s' (filter (\<lambda>x. snd x \<notin> set ts) xs)"
  using assms
proof (induction ts arbitrary: s xs)
  case (Cons t ts)
  let ?xs = "filter (\<lambda>x. snd x \<noteq> t) xs"
  obtain s1 where s1: "self_removal t s = Some (Inr s1)" "list_inv s1 ?xs"
    using remove_thread_aux [OF Cons.prems(1), of t] without_filter [OF Cons.prems(2)] by (auto simp: self_removal_def)
  have "distinct (map snd ?xs)" using Cons.prems(2) by (simp add: distinct_map_filter)
  from Cons.IH [OF s1(2) this] s1(1) show ?case by (auto simp: conj_commute)
qed simp

text \<open>Whoever else ends meanwhile: when the first thread on the list ends while it is waited for, its node is gone.\<close>

lemma join_first_running:
  assumes "list_inv s ((a, t) # xs)" and "distinct (map snd ((a, t) # xs))" and "t \<in> set (sched t)"
  shows "join_threads (\<lambda>t. end_all (sched t)) s = Some (Inl Dead_Block)"
proof -
  obtain node where node: "head s = a" "a \<noteq> NULL" "nodes s a = Some node" "node_tid node = t"
    using assms(1) by (auto simp: list_inv_def split: option.splits)
  obtain s1 where s1: "end_all (sched t) s = Some (Inr s1)" "list_inv s1 (filter (\<lambda>x. snd x \<notin> set (sched t)) ((a, t) # xs))"
    using end_all_list [OF assms(1,2)] by blast
  have "a \<notin> fst ` set (filter (\<lambda>x. snd x \<notin> set (sched t)) ((a, t) # xs))"
    using assms(1,3) by (auto simp: list_inv_def)
  then have "nodes s1 a = None" using s1(2) unfolding list_inv_def by blast
  with node s1(1) show ?thesis unfolding join_threads_def by (subst join_loop.simps) simp
qed

lemma join_all_ended:
  assumes "list_inv s xs"
  shows "join_threads (\<lambda>t. end_all []) s = Some (Inr (s\<lparr>nodes := (\<lambda>_. None), head := NULL\<rparr>, map snd xs))"
proof -
  have "(\<lambda>t. end_all []) = already_ended" by (intro ext) (simp add: already_ended_def)
  then show ?thesis
    using join_loop_list [of s "head s" xs "[]"] assms by (simp add: join_threads_def list_inv_def)
qed

text \<open>
  A thread that is still running when \<open>join_threads\<close> reaches it ends by calling
  \<open>remove_thread\<close> on itself, which frees the very node \<open>join_threads\<close> stands on; after
  \<open>pthread_join\<close> returns, \<open>current->next\<close> is read from freed memory. This holds for every
  non-empty list: joining one running thread is enough.
\<close>

theorem join_threads_use_after_free:
  assumes "list_inv s xs" and "xs \<noteq> []"
  shows "join_threads self_removal s = Some (Inl Dead_Block)"
  using assms by (rule join_running_thread)

lemma join_threads_use_after_free_witness:
  "join_threads self_removal example_list = Some (Inl Dead_Block)"
  using join_threads_use_after_free [OF example_list_inv] by simp

text \<open>
  C32. \<open>add_thread\<close> reads \<open>head\<close> and writes it in two statements and nothing excludes other threads.
  If the thread at the head removes itself in between, the new head keeps a pointer to its freed
  node: every later search for another thread that is not the new one, and every \<open>join_threads\<close>,
  runs into freed memory.
\<close>

theorem add_races_with_removal:
  assumes "list_inv s ((a, u) # xs)" and "nodes s p = None" and "p \<noteq> NULL" and "v \<noteq> t"
  shows "\<exists>s1. self_removal u (new_thread_node p t s) = Some (Inr s1) \<and>
    remove_thread v (publish_node p s1) = Some (Inl Dead_Block) \<and>
    join_threads already_ended (publish_node p s1) = Some (Inl Dead_Block)"
proof -
  from assms obtain node where node: "head s = a" "a \<noteq> NULL" "nodes s a = Some node" "node_tid node = u"
    by (auto simp: list_inv_def split: option.splits)
  let ?n = "\<lparr>node_tid = t, next_node = a\<rparr>"
  let ?s1 = "\<lparr>nodes = (nodes s)(p \<mapsto> ?n, a := None), head = next_node node\<rparr>"
  have pa: "p \<noteq> a" using node assms by auto
  have "self_removal u (new_thread_node p t s) = Some (Inr ?s1)"
    using node pa unfolding self_removal_def remove_thread_def new_thread_node_def
    by (subst remove_loop.simps) (simp add: unlink_node_def free_node_def)
  moreover have "remove_loop v p a (publish_node p ?s1) = Some (Inl Dead_Block)"
    using node pa by (subst remove_loop.simps) (simp add: publish_node_def)
  then have "remove_thread v (publish_node p ?s1) = Some (Inl Dead_Block)"
    using node pa assms unfolding remove_thread_def
    by (subst remove_loop.simps) (simp add: publish_node_def)
  moreover have "join_loop already_ended a [t] s2 = Some (Inl Dead_Block)"
    if "nodes s2 a = None" for s2
    using node that by (subst join_loop.simps) simp
  then have "join_threads already_ended (publish_node p ?s1) = Some (Inl Dead_Block)"
    using node pa assms unfolding join_threads_def
    by (subst join_loop.simps) (simp add: publish_node_def already_ended_def free_node_def)
  ultimately show ?thesis by blast
qed

lemma add_races_with_removal_witness:
  "\<exists>s1. self_removal 3 (new_thread_node 400 9 example_list) = Some (Inr s1) \<and>
    remove_thread 2 (publish_node 400 s1) = Some (Inl Dead_Block) \<and>
    join_threads already_ended (publish_node 400 s1) = Some (Inl Dead_Block)"
  using add_races_with_removal [OF example_list_inv, of 400 2 9] by (simp add: example_list_def)

text \<open>
  A thread may also end before the main thread has put it on the list, since \<open>add_thread\<close> is
  called after \<open>pthread_create\<close>. Its own \<open>remove_thread\<close> then finds nothing, and the node added
  afterwards stays until the server ends.
\<close>

theorem early_end_leaves_node:
  assumes "list_inv s xs" and "t \<notin> snd ` set xs" and "nodes s p = None" and "p \<noteq> NULL"
  shows "\<exists>s1 s2. self_removal t s = Some (Inr s1) \<and> add_thread p t s1 = Continues s2 \<and>
    list_inv s2 ((p, t) # xs)"
proof -
  from remove_thread_aux [OF assms(1), of t] assms(2) obtain s1 where
    s1: "self_removal t s = Some (Inr s1)" "list_inv s1 xs"
    by (auto simp: self_removal_def without_notin)
  then have "dom (nodes s1) = dom (nodes s)" using assms(1) by (simp add: list_inv_def)
  then have "nodes s1 p = None" using assms(3) by (metis domIff)
  with s1 have "\<exists>s2. add_thread p t s1 = Continues s2 \<and> list_inv s2 ((p, t) # xs)"
    using assms(4) add_thread_aux [of s1 xs p t] by simp
  with s1 show ?thesis by blast
qed

lemma early_end_leaves_node_witness:
  "\<exists>s1 s2. self_removal 9 example_list = Some (Inr s1) \<and> add_thread 400 9 s1 = Continues s2 \<and>
    list_inv s2 [(400, 9), (100, 3), (200, 2), (300, 1)]"
  using early_end_leaves_node [OF example_list_inv, of 9 400] by (simp add: example_list_def)

end
