(* ===== verification/Thread_List_Steps.thy ===== *)
theory Thread_List_Steps imports Main Thread_List begin

text \<open>
  The operations on the list of threads of \<^verbatim>\<open>server/aesdsocket.c\<close>, access by access: between any two
  of them another thread may be at the list. \<open>remove_step\<close> is \<open>remove_thread\<close> and \<open>join_step\<close> is
  \<open>join_threads\<close> with at most one access to shared memory in each step; what the thread has in its
  local variables is its point of control. (\<open>add_thread\<close> is \<open>new_thread_node\<close> and \<open>publish_node\<close>, one
  access each, of \<open>Thread_List\<close>.) The theory shows that steps that are left alone are the operation,
  and what they keep of the list.
\<close>

section \<open>Steps\<close>

text \<open>
  Where \<open>remove_thread\<close> is: before the read of \<open>head\<close>; at the test of \<open>current\<close> and its \<open>tid\<close>, with
  \<open>prev\<close> and \<open>current\<close>; before the read of \<open>current->next\<close>, on the way to the next node and on the way
  out; before the write of that pointer; before \<open>free\<close>; behind the loop.
\<close>

datatype remove_at =
    Rem_Start
  | Rem_Test ptr ptr
  | Rem_Pass ptr
  | Rem_Found ptr ptr
  | Rem_Unlink ptr ptr ptr
  | Rem_Free ptr
  | Rem_Done

fun remove_step :: "tid \<Rightarrow> remove_at \<Rightarrow> thread_list \<Rightarrow> (remove_at \<times> thread_list) outcome" where
  "remove_step t Rem_Start s = Inr (Rem_Test NULL (head s), s)"
| "remove_step t (Rem_Test prev current) s =
     (if current = NULL then Inr (Rem_Done, s)
      else case nodes s current of
        None \<Rightarrow> Inl Dead_Block
      | Some node \<Rightarrow> Inr (if node_tid node = t then Rem_Found prev current else Rem_Pass current, s))"
| "remove_step t (Rem_Pass current) s =
     (case nodes s current of
        None \<Rightarrow> Inl Dead_Block
      | Some node \<Rightarrow> Inr (Rem_Test current (next_node node), s))"
| "remove_step t (Rem_Found prev current) s =
     (case nodes s current of
        None \<Rightarrow> Inl Dead_Block
      | Some node \<Rightarrow> Inr (Rem_Unlink prev current (next_node node), s))"
| "remove_step t (Rem_Unlink prev current nxt) s =
     (if prev = NULL then Inr (Rem_Free current, s\<lparr>head := nxt\<rparr>)
      else case nodes s prev of
        None \<Rightarrow> Inl Dead_Block
      | Some pn \<Rightarrow> Inr (Rem_Free current, s\<lparr>nodes := (nodes s)(prev \<mapsto> pn\<lparr>next_node := nxt\<rparr>)\<rparr>))"
| "remove_step t (Rem_Free current) s = bindR (free_node current s) (\<lambda>s1. Inr (Rem_Done, s1))"
| "remove_step t Rem_Done s = Inr (Rem_Done, s)"

text \<open>
  Where \<open>join_threads\<close> is: before the read of \<open>head\<close>; at the test of \<open>current\<close> and the read of its
  \<open>tid\<close>; in \<open>pthread_join\<close>; before the read of \<open>current->next\<close>; before \<open>free\<close>, with the next node; at the
  reset of \<open>head\<close>; behind it. The wait in \<open>pthread_join\<close> is the condition of the step that leaves
  \<open>Join_Wait\<close>, and no access.
\<close>

datatype join_at =
    Join_Start
  | Join_Test ptr
  | Join_Wait ptr tid
  | Join_Next ptr
  | Join_Free ptr ptr
  | Join_Reset
  | Join_Done

fun join_step :: "join_at \<Rightarrow> thread_list \<Rightarrow> (join_at \<times> thread_list) outcome" where
  "join_step Join_Start s = Inr (Join_Test (head s), s)"
| "join_step (Join_Test current) s =
     (if current = NULL then Inr (Join_Reset, s)
      else case nodes s current of
        None \<Rightarrow> Inl Dead_Block
      | Some node \<Rightarrow> Inr (Join_Wait current (node_tid node), s))"
| "join_step (Join_Wait current t) s = Inr (Join_Next current, s)"
| "join_step (Join_Next current) s =
     (case nodes s current of
        None \<Rightarrow> Inl Dead_Block
      | Some node \<Rightarrow> Inr (Join_Free current (next_node node), s))"
| "join_step (Join_Free current nxt) s = bindR (free_node current s) (\<lambda>s1. Inr (Join_Test nxt, s1))"
| "join_step Join_Reset s = Inr (Join_Done, s\<lparr>head := NULL\<rparr>)"
| "join_step Join_Done s = Inr (Join_Done, s)"

section \<open>Steps alone\<close>

text \<open>One thread at the list, until it is through.\<close>

partial_function (option) remove_run :: "tid \<Rightarrow> remove_at \<Rightarrow> thread_list \<Rightarrow> thread_list outcome option" where
  "remove_run t r s =
     (if r = Rem_Done then Some (Inr s)
      else case remove_step t r s of
        Inl e \<Rightarrow> Some (Inl e)
      | Inr (r1, s1) \<Rightarrow> remove_run t r1 s1)"

text \<open>What is left of \<open>remove_thread\<close> at each point.\<close>

fun remove_rest :: "tid \<Rightarrow> remove_at \<Rightarrow> thread_list \<Rightarrow> thread_list outcome option" where
  "remove_rest t Rem_Start s = remove_thread t s"
| "remove_rest t (Rem_Test prev current) s = remove_loop t prev current s"
| "remove_rest t (Rem_Pass current) s =
     (case nodes s current of None \<Rightarrow> Some (Inl Dead_Block) | Some node \<Rightarrow> remove_loop t current (next_node node) s)"
| "remove_rest t (Rem_Found prev current) s =
     (case nodes s current of None \<Rightarrow> Some (Inl Dead_Block) | Some node \<Rightarrow> Some (unlink_node prev current node s))"
| "remove_rest t (Rem_Unlink prev current nxt) s =
     (if prev = NULL then Some (free_node current (s\<lparr>head := nxt\<rparr>))
      else case nodes s prev of
        None \<Rightarrow> Some (Inl Dead_Block)
      | Some pn \<Rightarrow> Some (free_node current (s\<lparr>nodes := (nodes s)(prev \<mapsto> pn\<lparr>next_node := nxt\<rparr>)\<rparr>)))"
| "remove_rest t (Rem_Free current) s = Some (free_node current s)"
| "remove_rest t Rem_Done s = Some (Inr s)"

lemma remove_rest_step:
  "remove_rest t r s =
    (if r = Rem_Done then Some (Inr s)
     else case remove_step t r s of Inl e \<Rightarrow> Some (Inl e) | Inr (r1, s1) \<Rightarrow> remove_rest t r1 s1)"
proof (cases r)
  case Rem_Start
  then show ?thesis by (simp add: remove_thread_def)
next
  case (Rem_Test prev current)
  then show ?thesis
    by (simp add: remove_loop.simps [of t prev current s] split: option.split)
next
  case (Rem_Found prev current)
  then show ?thesis by (simp add: unlink_node_def split: option.split)
next
  case (Rem_Free current)
  then show ?thesis by (cases "free_node current s") simp_all
qed (auto split: option.split)

lemma remove_run_rest: "remove_run t r s = Some x \<Longrightarrow> remove_rest t r s = Some x"
proof (induction t r s x rule: remove_run.raw_induct [rotated 1, consumes 1])
  case (1 run t r s x)
  then show ?case
    by (subst remove_rest_step) (auto split: if_splits sum.splits prod.splits)
qed

lemma remove_run_test: "remove_loop t prev current s = Some x \<Longrightarrow> remove_run t (Rem_Test prev current) s = Some x"
proof (induction t prev current s x rule: remove_loop.raw_induct [rotated 1, consumes 1])
  case (1 loop t prev current s x)
  show ?case
  proof (cases "current = NULL")
    case True
    with 1(2) show ?thesis by (simp add: remove_run.simps)
  next
    case False
    show ?thesis
    proof (cases "nodes s current")
      case None
      with 1(2) False show ?thesis by (simp add: remove_run.simps)
    next
      case (Some node)
      show ?thesis
      proof (cases "node_tid node = t")
        case True
        have "remove_run t (Rem_Free current) s1 = Some (free_node current s1)" for s1
          by (cases "free_node current s1") (simp_all add: remove_run.simps)
        moreover have "x = unlink_node prev current node s" using 1(2) False Some True by simp
        ultimately show ?thesis
          using False Some True
          by (cases "prev = NULL"; cases "nodes s prev")
            (simp_all add: remove_run.simps [of t "Rem_Test p current" for p] remove_run.simps [of t "Rem_Found p current" for p]
              remove_run.simps [of t "Rem_Unlink p current nxt" for p and nxt] unlink_node_def)
      next
        case other: False
        then have "loop t current (next_node node) s = Some x" using 1(2) False Some by simp
        from 1(1) [OF this] show ?thesis
          using False Some other
          by (simp add: remove_run.simps [of t "Rem_Test prev current"] remove_run.simps [of t "Rem_Pass current"])
      qed
    qed
  qed
qed

text \<open>
  Left alone the steps are \<open>remove_thread\<close>, on every state of the list, well formed or not: with the
  same result, the same fault, or, on a cyclic list, no return either.
\<close>

theorem remove_steps_alone: "remove_run t Rem_Start s = remove_thread t s"
proof -
  have start: "remove_run t Rem_Start s = remove_run t (Rem_Test NULL (head s)) s"
    by (simp add: remove_run.simps [of t Rem_Start])
  show ?thesis
  proof (cases "remove_thread t s")
    case (Some x)
    then show ?thesis using remove_run_test start by (simp add: remove_thread_def)
  next
    case None
    then show ?thesis using remove_run_rest [of t Rem_Start s] by (cases "remove_run t Rem_Start s") simp_all
  qed
qed

section \<open>What the steps keep\<close>

text \<open>The list while a thread is at the point \<open>r\<close> of its removal and nobody else is at the list.\<close>

fun removing :: "remove_at \<Rightarrow> thread_list \<Rightarrow> bool" where
  "removing (Rem_Test prev current) s \<longleftrightarrow>
     (\<exists>pre xs. list_inv s (pre @ xs) \<and> threads_at (nodes s) current xs \<and> prev = last_address pre)"
| "removing (Rem_Pass current) s \<longleftrightarrow> (\<exists>pre u xs. list_inv s (pre @ (current, u) # xs))"
| "removing (Rem_Found prev current) s \<longleftrightarrow>
     (\<exists>pre u xs. list_inv s (pre @ (current, u) # xs) \<and> prev = last_address pre)"
| "removing (Rem_Unlink prev current nxt) s \<longleftrightarrow>
     (\<exists>pre u xs node. list_inv s (pre @ (current, u) # xs) \<and> prev = last_address pre \<and>
        nodes s current = Some node \<and> next_node node = nxt)"
| "removing (Rem_Free current) s \<longleftrightarrow> (\<exists>s1 xs. free_node current s = Inr s1 \<and> list_inv s1 xs)"
| "removing _ s \<longleftrightarrow> (\<exists>xs. list_inv s xs)"

lemma list_inv_node:
  assumes "list_inv s (pre @ (a, u) # xs)"
  shows "\<exists>node. a \<noteq> NULL \<and> nodes s a = Some node \<and> node_tid node = u \<and> threads_at (nodes s) (next_node node) xs"
  using threads_at_append [of "nodes s" "head s" pre a u xs] assms by (auto simp: list_inv_def)

lemma last_address_NULL:
  assumes "list_inv s (pre @ xs)" and "last_address pre = NULL"
  shows "pre = []"
proof (cases pre rule: rev_cases)
  case (snoc pre' y)
  obtain b v where y: "y = (b, v)" by (cases y)
  with assms snoc list_inv_node [of s pre' b v xs] show ?thesis by (simp add: last_address_def)
qed

lemma unlink_anywhere:
  assumes "list_inv s (pre @ (a, u) # xs)" and "nodes s a = Some node"
  shows "\<exists>s1. unlink_node (last_address pre) a node s = Inr s1 \<and> list_inv s1 (pre @ xs)"
proof (cases pre rule: rev_cases)
  case Nil
  with assms unlink_first [of s a u xs node] show ?thesis by (simp add: last_address_def)
next
  case (snoc pre' y)
  then show ?thesis
    using assms unlink_later [of s pre' "fst y" "snd y" a u xs node] by (cases y) (simp add: last_address_def)
qed

lemma removing_step:
  assumes "removing r s"
  shows "\<exists>r' s'. remove_step t r s = Inr (r', s') \<and> removing r' s'"
proof (cases r)
  case Rem_Start
  then obtain xs where "list_inv s ([] @ xs)" using assms by auto
  then have "removing (Rem_Test NULL (head s)) s"
    unfolding removing.simps by (intro exI [of _ "[]"] exI [of _ xs]) (simp add: list_inv_def last_address_def)
  then show ?thesis by (simp add: Rem_Start)
next
  case (Rem_Test prev current)
  then obtain pre xs where inv: "list_inv s (pre @ xs)" "threads_at (nodes s) current xs" "prev = last_address pre"
    using assms by auto
  show ?thesis
  proof (cases xs)
    case Nil
    with inv Rem_Test show ?thesis by (intro exI [of _ Rem_Done] exI [of _ s]) auto
  next
    case (Cons x ys)
    obtain u where x: "x = (current, u)" using inv(2) Cons by (cases x) auto
    from list_inv_node [of s pre current u ys] inv(1) Cons x obtain node where
      "current \<noteq> NULL" "nodes s current = Some node" by auto
    with inv Cons x Rem_Test show ?thesis by auto
  qed
next
  case (Rem_Pass current)
  then obtain pre u xs where inv: "list_inv s (pre @ (current, u) # xs)" using assms by auto
  from list_inv_node [OF this] obtain node where
    node: "nodes s current = Some node" "threads_at (nodes s) (next_node node) xs" by auto
  have "removing (Rem_Test current (next_node node)) s"
    unfolding removing.simps using inv node(2)
    by (intro exI [of _ "pre @ [(current, u)]"] exI [of _ xs]) (simp add: last_address_def)
  with node(1) show ?thesis by (simp add: Rem_Pass)
next
  case (Rem_Found prev current)
  then obtain pre u xs where inv: "list_inv s (pre @ (current, u) # xs)" "prev = last_address pre" using assms by auto
  from list_inv_node [OF inv(1)] obtain node where "nodes s current = Some node" by auto
  with inv show ?thesis by (auto simp: Rem_Found)
next
  case (Rem_Unlink prev current nxt)
  then obtain pre u xs node where inv: "list_inv s (pre @ (current, u) # xs)" "prev = last_address pre"
    "nodes s current = Some node" "next_node node = nxt" using assms by auto
  obtain s1 where s1: "unlink_node prev current node s = Inr s1" "list_inv s1 (pre @ xs)"
    using unlink_anywhere [OF inv(1,3)] inv(2) by blast
  show ?thesis
  proof (cases "prev = NULL")
    case True
    with s1 inv(4) show ?thesis by (auto simp: Rem_Unlink unlink_node_def)
  next
    case False
    with s1 inv(4) show ?thesis by (auto simp: Rem_Unlink unlink_node_def split: option.splits)
  qed
next
  case (Rem_Free current)
  with assms show ?thesis by auto
next
  case Rem_Done
  with assms show ?thesis by auto
qed

text \<open>The list between the two halves of \<open>add_thread\<close>.\<close>

definition publishing :: "ptr \<Rightarrow> thread_list \<Rightarrow> bool" where
  "publishing a s \<longleftrightarrow> (\<exists>s0 t xs. list_inv s0 xs \<and> nodes s0 a = None \<and> a \<noteq> NULL \<and> s = new_thread_node a t s0)"

lemma publishing_start:
  "list_inv s xs \<Longrightarrow> nodes s a = None \<Longrightarrow> a \<noteq> NULL \<Longrightarrow> publishing a (new_thread_node a t s)"
  by (auto simp: publishing_def)

lemma publishing_done: "publishing a s \<Longrightarrow> \<exists>xs. list_inv (publish_node a s) xs"
proof -
  assume "publishing a s"
  then obtain s0 t xs where s: "list_inv s0 xs" "nodes s0 a = None" "a \<noteq> NULL" "s = new_thread_node a t s0"
    by (auto simp: publishing_def)
  from add_thread_aux [OF s(1-3), of t] s(3,4) show ?thesis by (auto simp: add_thread_def)
qed

end
