(* ===== verification/Lock_Protocol.thy ===== *)
theory Lock_Protocol imports Main Aesd_Prelude begin

text \<open>
  What code gets from bracketing a section with \<open>pthread_mutex_lock\<close> and \<open>pthread_mutex_unlock\<close>,
  stated once for any step relation: the laws say how the steps of the program use the mutex, the
  lemmas what follows for every reachable state. \<open>owner\<close> is the thread the mutex belongs to and
  \<open>inside\<close> tells which threads stand between their lock and their unlock.
\<close>

locale lock_protocol =
  fixes step :: "'s \<Rightarrow> 's \<Rightarrow> bool"
    and ok :: "'s \<Rightarrow> bool"
    and owner :: "'s \<Rightarrow> tid option"
    and inside :: "'s \<Rightarrow> tid \<Rightarrow> bool"
  assumes ok_step: "step s s' \<Longrightarrow> ok s \<Longrightarrow> ok s'"
    and enter: "step s s' \<Longrightarrow> ok s \<Longrightarrow> inside s' t \<Longrightarrow> \<not> inside s t \<Longrightarrow>
      owner s = None \<and> owner s' = Some t"
    and stay: "step s s' \<Longrightarrow> ok s \<Longrightarrow> owner s = Some t \<Longrightarrow> inside s t \<Longrightarrow> inside s' t \<Longrightarrow>
      owner s' = Some t"
    and foreign: "step s s' \<Longrightarrow> ok s \<Longrightarrow> owner s = Some t \<Longrightarrow> \<not> inside s t \<Longrightarrow> owner s' = Some t"
begin

definition lock_inv :: "'s \<Rightarrow> bool" where
  "lock_inv s \<longleftrightarrow> ok s \<and> (\<forall>t. inside s t \<longrightarrow> owner s = Some t)"

lemma lock_inv_step: "step s s' \<Longrightarrow> lock_inv s \<Longrightarrow> lock_inv s'"
  unfolding lock_inv_def by (metis ok_step enter stay)

lemma lock_inv_steps: "step\<^sup>*\<^sup>* s s' \<Longrightarrow> lock_inv s \<Longrightarrow> lock_inv s'"
  by (induction rule: rtranclp_induct) (auto intro: lock_inv_step)

lemma lock_inv_outside: "ok s \<Longrightarrow> (\<And>t. \<not> inside s t) \<Longrightarrow> lock_inv s"
  by (simp add: lock_inv_def)

lemma lock_invD: "lock_inv s \<Longrightarrow> inside s t \<Longrightarrow> owner s = Some t"
  by (simp add: lock_inv_def)

lemma exclusion: "lock_inv s \<Longrightarrow> inside s t \<Longrightarrow> inside s u \<Longrightarrow> t = u"
  by (metis lock_invD option.inject)

text \<open>
  A thread that has left the section without an unlock keeps the mutex for ever, and no thread
  enters the section again.
\<close>

lemma abandoned_step:
  "step s s' \<Longrightarrow> ok s \<Longrightarrow> owner s = Some t \<Longrightarrow> \<not> inside s t \<Longrightarrow> owner s' = Some t \<and> \<not> inside s' t"
  by (metis enter foreign option.distinct(1))

lemma abandoned_steps:
  "step\<^sup>*\<^sup>* s s' \<Longrightarrow> ok s \<Longrightarrow> owner s = Some t \<Longrightarrow> \<not> inside s t \<Longrightarrow>
    ok s' \<and> owner s' = Some t \<and> \<not> inside s' t"
  by (induction rule: rtranclp_induct) (auto dest: abandoned_step ok_step)

lemma abandoned_nobody_inside:
  assumes "step\<^sup>*\<^sup>* s s'" and "lock_inv s" and "owner s = Some t" and "\<not> inside s t"
  shows "\<not> inside s' u"
proof
  assume "inside s' u"
  then have "owner s' = Some u" by (rule lock_invD [OF lock_inv_steps [OF assms(1,2)]])
  moreover have "owner s' = Some t \<and> \<not> inside s' t"
    using abandoned_steps [OF assms(1) _ assms(3,4)] assms(2) by (simp add: lock_inv_def)
  ultimately show False using \<open>inside s' u\<close> by simp
qed

end

text \<open>
  When what a thread does between its lock and its unlock depends only on the state it found, the
  sections are atomic. \<open>trace\<close> records what has been done, \<open>replay\<close> does it again, one entry after the
  other and each as a whole, and \<open>reached s t b\<close> says that \<open>t\<close>, inside its section in \<open>s\<close>, entered it in
  the state \<open>b\<close>. A step records something that changes no state (or nothing), enters a section, or
  completes what it records.
\<close>

locale atomic_sections = lock_protocol step ok owner inside
  for step :: "'s \<Rightarrow> 's \<Rightarrow> bool" and ok and owner :: "'s \<Rightarrow> tid option" and inside +
  fixes shared :: "'s \<Rightarrow> 'b"
    and trace :: "'s \<Rightarrow> 'e list"
    and replay :: "'e list \<Rightarrow> 'b \<Rightarrow> 'b option"
    and reached :: "'s \<Rightarrow> tid \<Rightarrow> 'b \<Rightarrow> bool"
  assumes replay_append: "replay es b = Some b' \<Longrightarrow> replay (es @ fs) b = replay fs b'"
    and section_step: "step s s' \<Longrightarrow> lock_inv s \<Longrightarrow>
      (\<exists>es. trace s' = trace s @ es \<and> (\<forall>b. replay es b = Some b) \<and> (\<forall>u. inside s' u \<longleftrightarrow> inside s u) \<and>
        ((\<forall>u. \<not> inside s u) \<longrightarrow> shared s' = shared s) \<and>
        (\<forall>t b. inside s t \<and> reached s t b \<longrightarrow> reached s' t b)) \<or>
      trace s' = trace s \<and> (\<forall>u. \<not> inside s u) \<and> (\<exists>t. inside s' t) \<and>
        (\<forall>t. inside s' t \<longrightarrow> reached s' t (shared s)) \<or>
      (\<exists>e. trace s' = trace s @ [e] \<and> (\<forall>u. \<not> inside s' u) \<and>
        (\<forall>b. (\<forall>t. inside s t \<longrightarrow> reached s t b) \<and> ((\<forall>u. \<not> inside s u) \<longrightarrow> shared s = b) \<longrightarrow>
          replay [e] b = Some (shared s')))"
begin

definition replayed :: "'b \<Rightarrow> 's \<Rightarrow> bool" where
  "replayed b0 s \<longleftrightarrow> (\<exists>b. replay (trace s) b0 = Some b \<and> ((\<forall>u. \<not> inside s u) \<longrightarrow> shared s = b) \<and>
     (\<forall>t. inside s t \<longrightarrow> reached s t b))"

lemma replayed_step:
  assumes "step s s'" and "lock_inv s" and "replayed b0 s"
  shows "replayed b0 s'"
proof -
  obtain b where b: "replay (trace s) b0 = Some b" "(\<forall>u. \<not> inside s u) \<longrightarrow> shared s = b"
    "\<forall>t. inside s t \<longrightarrow> reached s t b"
    using assms(3) by (auto simp: replayed_def)
  note append = replay_append [OF b(1)]
  from section_step [OF assms(1,2)] show ?thesis
  proof (elim disjE exE conjE)
    fix es assume "trace s' = trace s @ es" "\<forall>b. replay es b = Some b" "\<forall>u. inside s' u \<longleftrightarrow> inside s u"
      "(\<forall>u. \<not> inside s u) \<longrightarrow> shared s' = shared s" "\<forall>t b. inside s t \<and> reached s t b \<longrightarrow> reached s' t b"
    with append b(2,3) show ?thesis unfolding replayed_def by (intro exI [of _ b]) auto
  next
    fix t assume "trace s' = trace s" "\<forall>u. \<not> inside s u" "inside s' t" "\<forall>t. inside s' t \<longrightarrow> reached s' t (shared s)"
    with b(1,2) show ?thesis unfolding replayed_def by (intro exI [of _ b]) auto
  next
    fix e assume "trace s' = trace s @ [e]" "\<forall>u. \<not> inside s' u"
      "\<forall>b. (\<forall>t. inside s t \<longrightarrow> reached s t b) \<and> ((\<forall>u. \<not> inside s u) \<longrightarrow> shared s = b) \<longrightarrow>
        replay [e] b = Some (shared s')"
    with append b(2,3) show ?thesis unfolding replayed_def by (intro exI [of _ "shared s'"]) auto
  qed
qed

lemma replayed_steps: "step\<^sup>*\<^sup>* s s' \<Longrightarrow> lock_inv s \<Longrightarrow> replayed b0 s \<Longrightarrow> replayed b0 s'"
  by (induction rule: rtranclp_induct) (auto intro: replayed_step lock_inv_steps)

lemma replayed_start:
  "replay (trace s) b0 = Some (shared s) \<Longrightarrow> (\<And>u. \<not> inside s u) \<Longrightarrow> replayed b0 s"
  by (simp add: replayed_def)

lemma replayed_outside:
  "replayed b0 s \<Longrightarrow> (\<And>u. \<not> inside s u) \<Longrightarrow> replay (trace s) b0 = Some (shared s)"
  by (auto simp: replayed_def)

end

end
