(* ===== verification/Threading.thy ===== *)
theory Threading imports Main Aesd_Prelude Lock_Protocol begin

text \<open>
  \<^verbatim>\<open>examples/threading/threading.c\<close>: the thread function, one statement per step so that threads
  interleave, and \<open>start_thread_obtaining_mutex\<close>. The state holds the \<open>thread_data\<close> blocks, where
  each thread stands, who owns each mutex and, in order, the calls of \<open>usleep\<close>.
\<close>

section \<open>State\<close>

record thread_data =
  mutex :: ptr
  wait_to_obtain_ms :: int
  wait_to_release_ms :: int
  thread_complete_success :: bool

text \<open>The statement a thread is about to execute.\<close>

datatype phase = At_First_Sleep | At_Lock | At_Second_Sleep | At_Unlock | At_Complete | Returned

record thread_sys =
  blocks :: "ptr \<rightharpoonup> thread_data"
  threads :: "tid \<rightharpoonup> ptr \<times> phase"
  mutex_owner :: "ptr \<Rightarrow> tid option"
  sleeps :: "(tid \<times> uint32_t) list"

section \<open>The thread function\<close>

text \<open>
  The argument \<open>ms * 1000\<close> is computed in \<open>int\<close> and then converted to \<open>useconds_t\<close>, which is
  unsigned.
\<close>

definition usleep_arg :: "int \<Rightarrow> uint32_t outcome" where
  "usleep_arg ms =
     (if ms * 1000 > INT_MAX \<or> ms * 1000 < INT_MIN then Inl Int_Overflow
      else Inr (word_of_int (ms * 1000)))"

definition go :: "tid \<Rightarrow> ptr \<Rightarrow> phase \<Rightarrow> thread_sys \<Rightarrow> thread_sys" where
  "go t p ph s = s\<lparr>threads := (threads s)(t \<mapsto> (p, ph))\<rparr>"

definition usleep :: "tid \<Rightarrow> int \<Rightarrow> thread_sys \<Rightarrow> thread_sys outcome" where
  "usleep t ms s = bindR (usleep_arg ms) (\<lambda>us. Inr (s\<lparr>sleeps := sleeps s @ [(t, us)]\<rparr>))"

text \<open>
  One statement of \<open>threadfunc\<close> in thread \<open>t\<close>; \<open>None\<close> when the thread cannot move: it waits for
  the mutex, or has returned.
\<close>

definition threadfunc_step :: "tid \<Rightarrow> thread_sys \<Rightarrow> thread_sys outcome option" where
  "threadfunc_step t s =
     (case threads s t of
        None \<Rightarrow> None
      | Some (p, ph) \<Rightarrow>
          (case blocks s p of
             None \<Rightarrow> (if ph = Returned then None else Some (Inl Dead_Block))
           | Some d \<Rightarrow>
               (case ph of
                  At_First_Sleep \<Rightarrow>
                    Some (bindR (usleep t (wait_to_obtain_ms d) s) (\<lambda>s1. Inr (go t p At_Lock s1)))
                | At_Lock \<Rightarrow>
                    (if mutex_owner s (mutex d) = None
                     then Some (Inr (go t p At_Second_Sleep
                            (s\<lparr>mutex_owner := (mutex_owner s)(mutex d := Some t)\<rparr>)))
                     else None)
                | At_Second_Sleep \<Rightarrow>
                    Some (bindR (usleep t (wait_to_release_ms d) s) (\<lambda>s1. Inr (go t p At_Unlock s1)))
                | At_Unlock \<Rightarrow>
                    (if mutex_owner s (mutex d) = Some t
                     then Some (Inr (go t p At_Complete
                            (s\<lparr>mutex_owner := (mutex_owner s)(mutex d := None)\<rparr>)))
                     else Some (Inl Bad_Unlock))
                | At_Complete \<Rightarrow>
                    Some (Inr (go t p Returned
                      (s\<lparr>blocks := (blocks s)(p \<mapsto> d\<lparr>thread_complete_success := True\<rparr>)\<rparr>)))
                | Returned \<Rightarrow> None)))"

section \<open>Starting a thread\<close>

text \<open>
  \<open>p\<close> is what \<open>malloc\<close> returns and \<open>junk\<close> the value it leaves in the flag; \<open>created\<close> is the new
  thread, or \<open>None\<close> when \<open>pthread_create\<close> fails.
\<close>

definition start_thread_obtaining_mutex ::
  "ptr \<Rightarrow> bool \<Rightarrow> tid option \<Rightarrow> ptr \<Rightarrow> int \<Rightarrow> int \<Rightarrow> thread_sys \<Rightarrow> bool \<times> tid option \<times> thread_sys" where
  "start_thread_obtaining_mutex p junk created m obtain_ms release_ms s =
     (if p = NULL then (False, None, s)
      else
        let s1 = s\<lparr>blocks := (blocks s)(p \<mapsto>
                   \<lparr>mutex = m, wait_to_obtain_ms = obtain_ms, wait_to_release_ms = release_ms,
                    thread_complete_success = junk\<rparr>)\<rparr> in
        case created of
          None \<Rightarrow> (False, None, s1\<lparr>blocks := (blocks s1)(p := None)\<rparr>)
        | Some t \<Rightarrow> (True, Some t, go t p At_First_Sleep s1))"

section \<open>Steps of the whole system\<close>

inductive sys_step :: "thread_sys \<Rightarrow> thread_sys \<Rightarrow> bool" where
  run_thread: "threadfunc_step t s = Some (Inr s') \<Longrightarrow> sys_step s s'"
| start_thread:
    "start_thread_obtaining_mutex p junk created m obtain_ms release_ms s = (r, out, s') \<Longrightarrow>
     blocks s p = None \<Longrightarrow> (\<And>t. created = Some t \<Longrightarrow> threads s t = None) \<Longrightarrow> sys_step s s'"

inductive_cases sys_stepE: "sys_step s s'"

definition started :: thread_sys where
  "started = \<lparr>blocks = Map.empty, threads = Map.empty, mutex_owner = (\<lambda>_. None), sleeps = []\<rparr>"

definition in_section :: "ptr \<Rightarrow> thread_sys \<Rightarrow> tid \<Rightarrow> bool" where
  "in_section m s t \<longleftrightarrow>
     (case threads s t of
        None \<Rightarrow> False
      | Some (p, ph) \<Rightarrow>
          (ph = At_Second_Sleep \<or> ph = At_Unlock) \<and>
          (case blocks s p of None \<Rightarrow> False | Some d \<Rightarrow> mutex d = m))"

lemma in_section_cong: "threads s' = threads s \<Longrightarrow> blocks s' = blocks s \<Longrightarrow> in_section m s' = in_section m s"
  by (rule ext) (simp only: in_section_def)

lemma in_sectionE:
  assumes "in_section m s t"
  obtains p ph d where "threads s t = Some (p, ph)" "ph = At_Second_Sleep \<or> ph = At_Unlock"
    "blocks s p = Some d" "mutex d = m"
  using assms by (auto simp: in_section_def split: option.splits)

lemma in_sectionI:
  "threads s t = Some (p, ph) \<Longrightarrow> ph = At_Second_Sleep \<or> ph = At_Unlock \<Longrightarrow> blocks s p = Some d \<Longrightarrow>
    mutex d = m \<Longrightarrow> in_section m s t"
  by (simp add: in_section_def)

text \<open>Every thread that has not returned still has its block.\<close>

definition blocks_ok :: "thread_sys \<Rightarrow> bool" where
  "blocks_ok s \<longleftrightarrow> (\<forall>t p ph. threads s t = Some (p, ph) \<longrightarrow> ph \<noteq> Returned \<longrightarrow> blocks s p \<noteq> None)"

lemma in_section_at_unlock:
  "threads s t = Some (p, At_Unlock) \<Longrightarrow> blocks s p = Some d \<Longrightarrow> in_section (mutex d) s t"
  by (rule in_sectionI) auto

section \<open>The mutex of the thread function\<close>

text \<open>What a statement of a thread changes, by the statement it stands at.\<close>

definition moved ::
  "tid \<Rightarrow> ptr \<Rightarrow> thread_data \<Rightarrow> phase \<Rightarrow> phase \<Rightarrow> thread_sys \<Rightarrow> thread_sys \<Rightarrow> bool" where
  "moved t p d ph ph' s s' \<longleftrightarrow>
     ph = At_First_Sleep \<and> ph' = At_Lock \<and> blocks s' = blocks s \<and> mutex_owner s' = mutex_owner s \<or>
     ph = At_Lock \<and> ph' = At_Second_Sleep \<and> blocks s' = blocks s \<and> mutex_owner s (mutex d) = None \<and>
       mutex_owner s' = (mutex_owner s)(mutex d := Some t) \<or>
     ph = At_Second_Sleep \<and> ph' = At_Unlock \<and> blocks s' = blocks s \<and> mutex_owner s' = mutex_owner s \<or>
     ph = At_Unlock \<and> ph' = At_Complete \<and> blocks s' = blocks s \<and> mutex_owner s (mutex d) = Some t \<and>
       mutex_owner s' = (mutex_owner s)(mutex d := None) \<or>
     ph = At_Complete \<and> ph' = Returned \<and> mutex_owner s' = mutex_owner s \<and>
       blocks s' = (blocks s)(p \<mapsto> d\<lparr>thread_complete_success := True\<rparr>)"

lemma threadfunc_stepE:
  assumes "threadfunc_step t s = Some (Inr s')"
  obtains p ph d ph' where "threads s t = Some (p, ph)" "blocks s p = Some d"
    "threads s' = (threads s)(t \<mapsto> (p, ph'))"
    "moved t p d ph ph' s s'"
proof -
  obtain p ph where t: "threads s t = Some (p, ph)"
    using assms by (auto simp: threadfunc_step_def split: option.splits)
  moreover obtain d where "blocks s p = Some d"
    using assms t by (auto simp: threadfunc_step_def split: option.splits if_splits)
  ultimately show thesis
    using assms that
    by (cases ph)
      (auto simp: threadfunc_step_def go_def usleep_def bindR_Inr_iff moved_def split: if_splits)
qed

text \<open>A start creates at most one thread, at its first statement, with a new block.\<close>

lemma start_threadE:
  assumes "start_thread_obtaining_mutex p junk created m obtain_ms release_ms s = (r, out, s')"
    and "blocks s p = None"
  obtains "mutex_owner s' = mutex_owner s" "threads s' = threads s" "blocks s' = blocks s"
  | t d where "mutex_owner s' = mutex_owner s" "created = Some t"
      "threads s' = (threads s)(t \<mapsto> (p, At_First_Sleep))" "blocks s' = (blocks s)(p \<mapsto> d)"
  using assms
  by (auto simp: start_thread_obtaining_mutex_def go_def Let_def fun_upd_idem split: if_splits option.splits)

lemma mutex_ok_step: "sys_step s s' \<Longrightarrow> blocks_ok s \<Longrightarrow> blocks_ok s'"
proof (erule sys_stepE)
  fix t assume "threadfunc_step t s = Some (Inr s')" and "blocks_ok s"
  then show ?thesis by (elim threadfunc_stepE) (auto simp: moved_def blocks_ok_def)
next
  fix p junk created m obtain_ms release_ms r out
  assume "start_thread_obtaining_mutex p junk created m obtain_ms release_ms s = (r, out, s')"
    and "blocks s p = None" and "blocks_ok s"
  then show ?thesis by (elim start_threadE) (auto simp: blocks_ok_def)
qed

lemma mutex_enter:
  assumes "sys_step s s'" and ok: "blocks_ok s" and new: "in_section m s' t" "\<not> in_section m s t"
  shows "mutex_owner s m = None \<and> mutex_owner s' m = Some t"
  using assms(1)
proof (cases rule: sys_step.cases)
  case (run_thread u)
  then show ?thesis using new by (elim threadfunc_stepE) (auto simp: moved_def in_section_def split: if_splits option.splits)
next
  case (start_thread p junk created m' obtain_ms release_ms r out)
  from start_thread(1,2) show ?thesis
  proof (cases rule: start_threadE)
    case 1
    then show ?thesis using new by (simp add: in_section_cong [of s' s])
  next
    case (2 u d)
    obtain q qh e where q: "threads s' t = Some (q, qh)" "qh = At_Second_Sleep \<or> qh = At_Unlock"
      "blocks s' q = Some e" "mutex e = m"
      by (rule in_sectionE [OF new(1)])
    then have t: "threads s t = Some (q, qh)" using 2 by (auto split: if_splits)
    then have "blocks s q \<noteq> None" using ok q(2) by (auto simp: blocks_ok_def)
    then have "q \<noteq> p" using start_thread(2) by auto
    then have "in_section m s t" using in_sectionI [OF t q(2) _ q(4)] q(3) 2 by simp
    with new(2) show ?thesis by simp
  qed
qed

lemma mutex_stay:
  assumes "sys_step s s'" and "mutex_owner s m = Some t" and "in_section m s' t"
  shows "mutex_owner s' m = Some t"
  using assms(1)
proof (cases rule: sys_step.cases)
  case (run_thread u)
  then show ?thesis using assms(2,3) by (elim threadfunc_stepE) (auto simp: moved_def elim!: in_sectionE)
next
  case (start_thread p junk created m' obtain_ms release_ms r out)
  then show ?thesis using assms(2) by (elim start_threadE) auto
qed

lemma mutex_foreign:
  assumes "sys_step s s'" and "mutex_owner s m = Some t" and "\<not> in_section m s t"
  shows "mutex_owner s' m = Some t"
  using assms(1)
proof (cases rule: sys_step.cases)
  case (run_thread u)
  then show ?thesis using assms(2,3) by (elim threadfunc_stepE) (auto simp: moved_def in_section_at_unlock)
next
  case (start_thread p junk created m' obtain_ms release_ms r out)
  then show ?thesis using assms(2) by (elim start_threadE) auto
qed

interpretation threadfunc_mutex: lock_protocol sys_step blocks_ok "\<lambda>s. mutex_owner s m" "in_section m" for m
  by unfold_locales (auto intro: mutex_ok_step mutex_stay mutex_foreign dest: mutex_enter)

section \<open>The reachable states\<close>

definition sys_inv :: "thread_sys \<Rightarrow> bool" where
  "sys_inv s \<longleftrightarrow> finite (dom (threads s)) \<and>
     (\<forall>t p ph. threads s t = Some (p, ph) \<longrightarrow>
        (\<exists>d. blocks s p = Some d \<and> (ph = Returned \<longrightarrow> thread_complete_success d))) \<and>
     (\<forall>m t. mutex_owner s m = Some t \<longrightarrow> in_section m s t)"

lemma sys_invI:
  assumes "finite (dom (threads s))"
    and "\<And>t p ph. threads s t = Some (p, ph) \<Longrightarrow>
      \<exists>d. blocks s p = Some d \<and> (ph = Returned \<longrightarrow> thread_complete_success d)"
    and "\<And>m t. mutex_owner s m = Some t \<Longrightarrow> in_section m s t"
  shows "sys_inv s"
  using assms by (simp add: sys_inv_def)

lemma sys_invD:
  assumes "sys_inv s"
  shows "finite (dom (threads s))" "mutex_owner s m = Some t \<Longrightarrow> in_section m s t"
    and "threads s t = Some (p, ph) \<Longrightarrow>
      \<exists>d. blocks s p = Some d \<and> (ph = Returned \<longrightarrow> thread_complete_success d)"
  using assms by (auto simp: sys_inv_def)

lemma sys_inv_started: "sys_inv started"
  by (simp add: sys_inv_def started_def)

lemma sys_inv_run:
  assumes "threadfunc_step t s = Some (Inr s')" and inv: "sys_inv s"
  shows "sys_inv s'"
  using assms(1)
proof (rule threadfunc_stepE)
  fix p ph d ph'
  assume *: "threads s t = Some (p, ph)" "blocks s p = Some d" "threads s' = (threads s)(t \<mapsto> (p, ph'))"
    "moved t p d ph ph' s s'"
  show ?thesis
  proof (rule sys_invI)
    show "finite (dom (threads s'))" using * sys_invD(1) [OF inv] by simp
  next
    fix u q qh assume "threads s' u = Some (q, qh)"
    then show "\<exists>d. blocks s' q = Some d \<and> (qh = Returned \<longrightarrow> thread_complete_success d)"
      using * sys_invD(3) [OF inv, of u q qh] by (auto simp: moved_def split: if_splits)
  next
    fix m u assume "mutex_owner s' m = Some u"
    then show "in_section m s' u"
      using * sys_invD(2) [OF inv, of m u] unfolding moved_def
      by (elim disjE conjE) (auto simp: in_section_def split: if_splits option.splits)
  qed
qed

lemma sys_inv_step: "sys_step s s' \<Longrightarrow> sys_inv s \<Longrightarrow> sys_inv s'"
proof (erule sys_stepE)
  fix t assume "threadfunc_step t s = Some (Inr s')" and "sys_inv s"
  then show ?thesis by (rule sys_inv_run)
next
  fix p junk created m obtain_ms release_ms r out
  assume *: "start_thread_obtaining_mutex p junk created m obtain_ms release_ms s = (r, out, s')"
    "blocks s p = None" "\<And>t. created = Some t \<Longrightarrow> threads s t = None" and inv: "sys_inv s"
  from *(1,2) show ?thesis
  proof (cases rule: start_threadE)
    case 1
    then show ?thesis using inv by (simp add: sys_inv_def in_section_cong [of s' s])
  next
    case (2 t d)
    show ?thesis
    proof (rule sys_invI)
      show "finite (dom (threads s'))" using 2 sys_invD(1) [OF inv] by simp
    next
      fix u q qh assume "threads s' u = Some (q, qh)"
      then show "\<exists>d. blocks s' q = Some d \<and> (qh = Returned \<longrightarrow> thread_complete_success d)"
        using 2 *(2) sys_invD(3) [OF inv, of u q qh] by (auto split: if_splits)
    next
      fix m u assume "mutex_owner s' m = Some u"
      then have "in_section m s u" using 2 sys_invD(2) [OF inv] by simp
      moreover have "threads s t = None" using 2 *(3) by simp
      ultimately show "in_section m s' u" using 2 *(2) by (auto simp: in_section_def split: option.splits)
    qed
  qed
qed

lemma sys_inv_reachable: "sys_step\<^sup>*\<^sup>* started s \<Longrightarrow> sys_inv s"
  by (induction rule: rtranclp_induct) (auto intro: sys_inv_started sys_inv_step)

section \<open>Properties\<close>

lemma lock_inv_reachable:
  assumes "sys_step\<^sup>*\<^sup>* started s"
  shows "threadfunc_mutex.lock_inv m s"
proof -
  have "threadfunc_mutex.lock_inv m started"
    by (rule threadfunc_mutex.lock_inv_outside) (simp_all add: blocks_ok_def started_def in_section_def)
  with assms show ?thesis by (rule threadfunc_mutex.lock_inv_steps)
qed

lemma in_section_owner: "sys_step\<^sup>*\<^sup>* started s \<Longrightarrow> in_section m s t \<Longrightarrow> mutex_owner s m = Some t"
  by (rule threadfunc_mutex.lock_invD [OF lock_inv_reachable])

text \<open>
  Mutual exclusion: whatever threads are started with whatever mutexes and waits, and however
  their statements interleave, no two threads stand between the lock and the unlock of the same
  mutex.
\<close>

theorem threadfunc_mutual_exclusion:
  assumes "sys_step\<^sup>*\<^sup>* started s" and "in_section m s t" and "in_section m s u"
  shows "t = u"
  by (rule threadfunc_mutex.exclusion [OF lock_inv_reachable [OF assms(1)] assms(2,3)])

text \<open>One thread started on the mutex 7, and the state in which it holds it.\<close>

definition example_threads :: "phase \<Rightarrow> uint32_t list \<Rightarrow> tid option \<Rightarrow> thread_sys" where
  "example_threads ph us own =
     \<lparr>blocks = [100 \<mapsto> \<lparr>mutex = 7, wait_to_obtain_ms = 5, wait_to_release_ms = 10,
                 thread_complete_success = False\<rparr>],
      threads = [1 \<mapsto> (100, ph)],
      mutex_owner = (\<lambda>_. None)(7 := own),
      sleeps = map (\<lambda>u. (1, u)) us\<rparr>"

lemma example_threads_reachable:
  "sys_step\<^sup>*\<^sup>* started (example_threads At_First_Sleep [] None)"
  "sys_step\<^sup>*\<^sup>* started (example_threads At_Second_Sleep [5000] (Some 1))"
proof -
  let ?s1 = "example_threads At_First_Sleep [] None"
  let ?s2 = "example_threads At_Lock [5000] None"
  let ?s3 = "example_threads At_Second_Sleep [5000] (Some 1)"
  have "start_thread_obtaining_mutex 100 False (Some 1) 7 5 10 started = (True, Some 1, ?s1)"
    by (simp add: start_thread_obtaining_mutex_def go_def started_def example_threads_def fun_eq_iff)
  then have 1: "sys_step started ?s1"
    by (rule start_thread) (simp_all add: started_def)
  have "threadfunc_step 1 ?s1 = Some (Inr ?s2)"
    by (simp add: threadfunc_step_def usleep_def usleep_arg_def go_def example_threads_def)
  then have 2: "sys_step ?s1 ?s2" by (rule run_thread)
  have "threadfunc_step 1 ?s2 = Some (Inr ?s3)"
    by (simp add: threadfunc_step_def go_def example_threads_def)
  then have 3: "sys_step ?s2 ?s3" by (rule run_thread)
  show "sys_step\<^sup>*\<^sup>* started ?s1" "sys_step\<^sup>*\<^sup>* started ?s3"
    using 1 2 3 by (meson converse_rtranclp_into_rtranclp rtranclp.rtrancl_refl)+
qed

lemma threadfunc_mutual_exclusion_witness:
  "in_section 7 (example_threads At_Second_Sleep [5000] (Some 1)) 1 \<and>
   \<not> in_section 7 (example_threads At_Second_Sleep [5000] (Some 1)) 2"
proof -
  have "in_section 7 (example_threads At_Second_Sleep [5000] (Some 1)) 1"
    by (simp add: in_section_def example_threads_def)
  with threadfunc_mutual_exclusion [OF example_threads_reachable(2) this, of 2] show ?thesis by auto
qed

text \<open>The statements a thread still has to execute, and those of all threads.\<close>

fun statements_left :: "phase \<Rightarrow> nat" where
  "statements_left At_First_Sleep = 5"
| "statements_left At_Lock = 4"
| "statements_left At_Second_Sleep = 3"
| "statements_left At_Unlock = 2"
| "statements_left At_Complete = 1"
| "statements_left Returned = 0"

definition left_of :: "thread_sys \<Rightarrow> tid \<Rightarrow> nat" where
  "left_of s t = (case threads s t of None \<Rightarrow> 0 | Some (_, ph) \<Rightarrow> statements_left ph)"

definition remaining :: "thread_sys \<Rightarrow> nat" where
  "remaining s = sum (left_of s) (dom (threads s))"

definition wait_fits :: "int \<Rightarrow> bool" where
  "wait_fits ms \<longleftrightarrow> INT_MIN \<le> ms * 1000 \<and> ms * 1000 \<le> INT_MAX"

definition waits_ok :: "thread_sys \<Rightarrow> bool" where
  "waits_ok s \<longleftrightarrow> (\<forall>p d. blocks s p = Some d \<longrightarrow>
     wait_fits (wait_to_obtain_ms d) \<and> wait_fits (wait_to_release_ms d))"

lemma usleep_arg_fits: "wait_fits ms \<Longrightarrow> usleep_arg ms = Inr (word_of_int (ms * 1000))"
  by (simp add: wait_fits_def usleep_arg_def)

lemma remaining_run:
  assumes "threadfunc_step t s = Some (Inr s')" and "finite (dom (threads s))"
  shows "remaining s = Suc (remaining s')"
  using assms(1)
proof (rule threadfunc_stepE)
  fix p ph d ph'
  assume t: "threads s t = Some (p, ph)" and s': "threads s' = (threads s)(t \<mapsto> (p, ph'))"
    and "moved t p d ph ph' s s'"
  then have ph: "statements_left ph = Suc (statements_left ph')" by (auto simp: moved_def)
  have dom: "dom (threads s') = dom (threads s)" "t \<in> dom (threads s)" using t s' by auto
  have same: "sum (left_of s') (dom (threads s) - {t}) = sum (left_of s) (dom (threads s) - {t})"
    by (rule sum.cong) (auto simp: left_of_def s')
  have "left_of s t = Suc (left_of s' t)" using t s' ph by (simp add: left_of_def)
  with same dom show ?thesis
    by (simp add: remaining_def sum.remove [OF assms(2) dom(2)])
qed

lemma threadfunc_no_fault:
  assumes reach: "sys_step\<^sup>*\<^sup>* started s" and "waits_ok s"
  shows "threadfunc_step t s \<noteq> Some (Inl e)"
proof (cases "threads s t")
  case (Some r)
  obtain p ph where r: "threads s t = Some (p, ph)" using Some by (cases r) auto
  obtain d where d: "blocks s p = Some d" using sys_invD(3) [OF sys_inv_reachable [OF reach] r] by blast
  have "ph = At_Unlock \<Longrightarrow> mutex_owner s (mutex d) = Some t"
    using in_section_at_unlock [of s t p d] r d in_section_owner [OF reach] by simp
  with r d assms(2) show ?thesis
    by (cases ph) (auto simp: threadfunc_step_def waits_ok_def usleep_def usleep_arg_fits)
qed (simp add: threadfunc_step_def)

lemma threadfunc_blocked:
  assumes "threadfunc_step t s = None" and "threads s t = Some (p, ph)" and "blocks s p = Some d"
  shows "ph = Returned \<or> ph = At_Lock \<and> mutex_owner s (mutex d) \<noteq> None"
  using assms by (cases ph) (auto simp: threadfunc_step_def split: if_splits)

lemma some_thread_moves:
  assumes reach: "sys_step\<^sup>*\<^sup>* started s" and "waits_ok s"
    and t: "threads s t = Some (p, ph)" and "ph \<noteq> Returned"
  shows "\<exists>u s'. threadfunc_step u s = Some (Inr s')"
proof -
  note inv = sys_inv_reachable [OF reach]
  have moves: "threadfunc_step u s \<noteq> None \<Longrightarrow> \<exists>s'. threadfunc_step u s = Some (Inr s')" for u
    using threadfunc_no_fault [OF assms(1,2), of u] by (metis not_None_eq old.sum.exhaust)
  obtain d where d: "blocks s p = Some d" using sys_invD(3) [OF inv t] by blast
  show ?thesis
  proof (cases "threadfunc_step t s = None")
    case True
    then obtain u where "mutex_owner s (mutex d) = Some u"
      using threadfunc_blocked [OF _ t d] assms(4) by auto
    then have "in_section (mutex d) s u" by (rule sys_invD(2) [OF inv])
    then obtain q qh e where "threads s u = Some (q, qh)" "qh = At_Second_Sleep \<or> qh = At_Unlock"
      "blocks s q = Some e" by (rule in_sectionE)
    then have "threadfunc_step u s \<noteq> None" using threadfunc_blocked [of u s q qh e] by auto
    then show ?thesis using moves by blast
  qed (use moves in blast)
qed

lemma remaining_0:
  assumes "remaining s = 0" and "finite (dom (threads s))" and "threads s t = Some (p, ph)"
  shows "ph = Returned"
proof -
  have "left_of s t = 0" using assms by (auto simp: remaining_def)
  then show ?thesis using assms(3) by (cases ph) (simp_all add: left_of_def)
qed

lemma remaining_pos:
  assumes "remaining s \<noteq> 0"
  shows "\<exists>t p ph. threads s t = Some (p, ph) \<and> ph \<noteq> Returned"
proof (rule ccontr)
  assume *: "\<not> ?thesis"
  have "left_of s t = 0" for t
    using * by (fastforce simp: left_of_def split: option.splits)
  with assms show False by (simp add: remaining_def)
qed

text \<open>
  C34. With waits that fit an \<open>int\<close> in microseconds no thread ever faults, the threads never
  deadlock and every run is finite: each statement takes one from \<open>remaining\<close>, some thread can
  execute its next statement as long as that number is not zero, and when it is zero every thread
  has returned with \<open>thread_complete_success\<close> set and every mutex is free.
\<close>

theorem threads_run_to_completion:
  assumes "sys_step\<^sup>*\<^sup>* started s" and "waits_ok s"
  shows "(\<forall>t e. threadfunc_step t s \<noteq> Some (Inl e)) \<and>
    (\<forall>t s'. threadfunc_step t s = Some (Inr s') \<longrightarrow> remaining s = Suc (remaining s')) \<and>
    (if remaining s \<noteq> 0 then \<exists>t s'. threadfunc_step t s = Some (Inr s')
     else (\<forall>t p ph. threads s t = Some (p, ph) \<longrightarrow> ph = Returned \<and>
            (\<exists>d. blocks s p = Some d \<and> thread_complete_success d)) \<and>
          (\<forall>m. mutex_owner s m = None))"
proof (cases "remaining s = 0")
  case True
  note inv = sys_inv_reachable [OF assms(1)]
  have all: "threads s t = Some (p, ph) \<Longrightarrow> ph = Returned" for t p ph
    by (rule remaining_0 [OF True sys_invD(1) [OF inv]])
  then have "\<not> in_section m s t" for m t by (auto elim!: in_sectionE)
  then have "mutex_owner s m = None" for m using sys_invD(2) [OF inv, of m] by (cases "mutex_owner s m") auto
  with True all show ?thesis
    using threadfunc_no_fault [OF assms] remaining_run [OF _ sys_invD(1) [OF inv]] sys_invD(3) [OF inv]
    by fastforce
next
  case False
  then show ?thesis
    using threadfunc_no_fault [OF assms] remaining_run [OF _ sys_invD(1) [OF sys_inv_reachable [OF assms(1)]]]
      remaining_pos [of s] some_thread_moves [OF assms] by fastforce
qed

lemma threads_run_to_completion_witness:
  "remaining (example_threads At_First_Sleep [] None) = 5 \<and>
   (\<exists>t s'. threadfunc_step t (example_threads At_First_Sleep [] None) = Some (Inr s') \<and> remaining s' = 4)"
proof -
  have "waits_ok (example_threads At_First_Sleep [] None)"
    by (simp add: waits_ok_def wait_fits_def example_threads_def)
  note * = threads_run_to_completion [OF example_threads_reachable(1) this]
  have 5: "remaining (example_threads At_First_Sleep [] None) = 5"
    by (simp add: remaining_def left_of_def example_threads_def)
  with * obtain t s' where "threadfunc_step t (example_threads At_First_Sleep [] None) = Some (Inr s')"
    by auto
  with * 5 show ?thesis by fastforce
qed

text \<open>
  The argument of \<open>usleep\<close>. A wait of up to 2147483 ms is slept in full; a longer one overflows
  \<open>int\<close>, which is undefined; a negative one is converted to an unsigned number, so a wait of -1 ms
  is one of more than 71 minutes.
\<close>

theorem usleep_arg_spec:
  "usleep_arg ms =
    (if 2147483 < ms \<or> ms < -2147483 then Inl Int_Overflow
     else Inr (of_int (if 0 \<le> ms then ms * 1000 else 2 ^ 32 + ms * 1000))) \<and>
   (case usleep_arg ms of
      Inl _ \<Rightarrow> True
    | Inr us \<Rightarrow> uint us = (if 0 \<le> ms then ms * 1000 else 2 ^ 32 + ms * 1000))"
proof -
  have fits: "wait_fits ms \<longleftrightarrow> \<not> (2147483 < ms \<or> ms < -2147483)"
    by (auto simp: wait_fits_def)
  have 1: "(word_of_int (2 ^ 32 + ms * 1000) :: uint32_t) = word_of_int (ms * 1000)"
    by (simp add: word_of_int_eq_iff take_bit_eq_mod)
  show ?thesis
  proof (cases "wait_fits ms")
    case True
    have "uint (word_of_int (ms * 1000) :: uint32_t) = ms * 1000" if "0 \<le> ms"
      using that True by (subst uint_word_of_int, intro mod_pos_pos_trivial) (simp_all add: wait_fits_def)
    moreover have "uint (word_of_int (ms * 1000) :: uint32_t) = 2 ^ 32 + ms * 1000" if "ms < 0"
      using that True by (subst 1 [symmetric], subst uint_word_of_int, intro mod_pos_pos_trivial) (simp_all add: wait_fits_def)
    ultimately show ?thesis
      using True fits 1 by (simp add: usleep_arg_fits)
  next
    case False
    then have "usleep_arg ms = Inl Int_Overflow" by (auto simp: wait_fits_def usleep_arg_def)
    with False fits show ?thesis by simp
  qed
qed

text \<open>
  \<open>start_thread_obtaining_mutex\<close> returns true exactly when the block could be allocated and the
  thread created. Then the thread exists, at its first statement, on a block with the arguments
  as passed (and the success flag as \<open>malloc\<close> left it); otherwise the state is unchanged, so
  a failed creation leaks nothing.
\<close>

theorem start_thread_spec:
  assumes "blocks s p = None"
  shows "start_thread_obtaining_mutex p junk created m obtain_ms release_ms s =
    (case created of
       Some t \<Rightarrow>
         if p = NULL then (False, None, s)
         else (True, Some t,
           s\<lparr>blocks := (blocks s)(p \<mapsto> \<lparr>mutex = m, wait_to_obtain_ms = obtain_ms,
               wait_to_release_ms = release_ms, thread_complete_success = junk\<rparr>),
             threads := (threads s)(t \<mapsto> (p, At_First_Sleep))\<rparr>)
     | None \<Rightarrow> (False, None, s))"
  using assms by (cases created) (simp_all add: start_thread_obtaining_mutex_def go_def fun_upd_idem)

lemma start_thread_spec_witness:
  "start_thread_obtaining_mutex 100 True None 7 5 10 started = (False, None, started)"
  using start_thread_spec [of started 100 True None 7 5 10] by (simp add: started_def)

end
