(* ===== verification/Systemcalls.thy ===== *)
theory Systemcalls imports Main Aesd_Prelude begin

unbundle bit_operations_syntax

text \<open>
  \<^verbatim>\<open>examples/systemcalls/systemcalls.c\<close>: \<open>do_system\<close>, \<open>do_exec\<close> and \<open>do_exec_redirect\<close>.

  \<open>fork\<close> makes two processes out of one: the model runs the child's branch to its ending, and the
  parent's branch on the status that ending gives. What the operating system decides (whether
  \<open>fork\<close>, \<open>open\<close>, \<open>dup2\<close> and \<open>waitpid\<close> succeed, what the programs on the disk do) is a parameter,
  the record \<open>os\<close>.
\<close>

section \<open>Processes\<close>

text \<open>How a process ends. The second argument of \<open>Killed\<close> tells whether it dumped core.\<close>

datatype ending = Exited int | Killed nat bool

text \<open>
  \<open>program path argv\<close> is \<open>None\<close> when the file cannot be executed, otherwise how the program ends
  and what it writes to its standard output. \<open>stdio_pending\<close> is what the calling process has printed
  but not flushed yet: \<open>exit\<close> flushes it, \<open>_exit\<close> does not.
\<close>

record os =
  fork_fails :: bool
  waitpid_fails :: bool
  open_fails :: bool
  dup2_fails :: bool
  shell_available :: bool
  shell :: "string \<Rightarrow> ending"
  program :: "string \<Rightarrow> string list \<Rightarrow> (ending \<times> string) option"
  stdio_pending :: string

text \<open>The status word of \<open>wait\<close>, and the macros of \<^verbatim>\<open>sys/wait.h\<close> that take it apart.\<close>

definition wait_status :: "ending \<Rightarrow> int" where
  "wait_status e =
     (case e of Exited c \<Rightarrow> push_bit 8 (c AND 0xFF)
      | Killed signo core \<Rightarrow> int signo + (if core then 0x80 else 0))"

definition WIFEXITED :: "int \<Rightarrow> bool" where
  "WIFEXITED status \<longleftrightarrow> status AND 0x7F = 0"

definition WEXITSTATUS :: "int \<Rightarrow> int" where
  "WEXITSTATUS status = drop_bit 8 (status AND 0xFF00)"

definition signals_ok :: "ending \<Rightarrow> bool" where
  "signals_ok e \<longleftrightarrow> (case e of Exited _ \<Rightarrow> True | Killed signo _ \<Rightarrow> 0 < signo \<and> signo < 127)"

text \<open>The documented range of the signals a process can be killed by, for every program of the system.\<close>

definition os_ok :: "os \<Rightarrow> bool" where
  "os_ok os \<longleftrightarrow> (\<forall>c. signals_ok (shell os c)) \<and>
     (\<forall>path argv e out. program os path argv = Some (e, out) \<longrightarrow> signals_ok e)"

text \<open>\<open>system\<close>: with NULL it tells whether there is a shell.\<close>

definition libc_system :: "os \<Rightarrow> string option \<Rightarrow> int" where
  "libc_system os cmd =
     (case cmd of
        None \<Rightarrow> if shell_available os then 1 else 0
      | Some c \<Rightarrow>
          if fork_fails os then -1
          else if \<not> shell_available os then wait_status (Exited 127)
          else wait_status (shell os c))"

text \<open>\<open>execv\<close> on a NULL-terminated array: \<open>None\<close> when it returns.\<close>

definition execv :: "os \<Rightarrow> string option list \<Rightarrow> (ending \<times> string) option" where
  "execv os command =
     (case command of
        Some path # _ \<Rightarrow> program os path (map the (takeWhile (\<lambda>a. a \<noteq> None) command))
      | _ \<Rightarrow> None)"

section \<open>The functions\<close>

definition do_system :: "os \<Rightarrow> string option \<Rightarrow> bool" where
  "do_system os cmd = (let result = libc_system os cmd in if result = 0 then True else False)"

text \<open>The loop over \<open>va_arg\<close>: reading past the last argument is undefined.\<close>

fun va_loop :: "nat \<Rightarrow> string option list \<Rightarrow> string option list \<Rightarrow> string option list outcome" where
  "va_loop 0 args command = Inr command"
| "va_loop (Suc n) [] command = Inl Out_Of_Bounds"
| "va_loop (Suc n) (a # args) command = va_loop n args (command @ [a])"

text \<open>The array \<open>command\<close> of \<open>count + 1\<close> pointers.\<close>

definition build_command :: "int \<Rightarrow> string option list \<Rightarrow> string option list outcome" where
  "build_command count args =
     (if count + 1 > INT_MAX then Inl Int_Overflow
      else if count + 1 \<le> 0 then Inl Out_Of_Bounds
      else bindR (va_loop (nat count) args []) (\<lambda>command. Inr (command @ [None])))"

definition exec_child :: "os \<Rightarrow> string option list \<Rightarrow> ending" where
  "exec_child os command = (case execv os command of Some (e, _) \<Rightarrow> e | None \<Rightarrow> Exited (-1))"

definition do_exec :: "os \<Rightarrow> int \<Rightarrow> string option list \<Rightarrow> bool outcome" where
  "do_exec os count args =
     bindR (build_command count args) (\<lambda>command.
       if fork_fails os then Inr False
       else
         let status = wait_status (exec_child os command) in
         if waitpid_fails os \<or> \<not> WIFEXITED status \<or> WEXITSTATUS status \<noteq> 0 then Inr False
         else Inr True)"

text \<open>The files on the disk and what has appeared on the caller's standard output.\<close>

record console =
  files :: "string \<rightharpoonup> string"
  printed :: string

text \<open>
  What \<open>open\<close> does to the files before anything is written, by its flags, and what a process that
  writes \<open>out\<close> through a descriptor opened so, which starts at the first byte, makes of the file.
\<close>

datatype open_flag = O_WRONLY | O_CREAT | O_TRUNC

definition open_effect :: "open_flag list \<Rightarrow> string \<Rightarrow> (string \<rightharpoonup> string) \<Rightarrow> (string \<rightharpoonup> string)" where
  "open_effect flags path fs =
     (case fs path of
        None \<Rightarrow> if O_CREAT \<in> set flags then fs(path \<mapsto> []) else fs
      | Some old \<Rightarrow> if O_TRUNC \<in> set flags then fs(path \<mapsto> []) else fs)"

definition write_from_start :: "string \<Rightarrow> string \<Rightarrow> (string \<rightharpoonup> string) \<Rightarrow> (string \<rightharpoonup> string)" where
  "write_from_start path out fs = fs(path \<mapsto> put_front out (case fs path of None \<Rightarrow> [] | Some old \<Rightarrow> old))"

text \<open>
  The child of \<open>do_exec_redirect\<close>: how it ends, and the state. After \<open>dup2\<close> the standard output is
  the file.
\<close>

definition redirect_child :: "os \<Rightarrow> string \<Rightarrow> string option list \<Rightarrow> console \<Rightarrow> ending \<times> console" where
  "redirect_child os outputfile command s =
     (if dup2_fails os then (Exited 1, s\<lparr>printed := printed s @ stdio_pending os\<rparr>)
      else case execv os command of
        Some (e, out) \<Rightarrow> (e, s\<lparr>files := write_from_start outputfile out (files s)\<rparr>)
      | None \<Rightarrow> (Exited 1, s\<lparr>files := write_from_start outputfile (stdio_pending os) (files s)\<rparr>))"

text \<open>The state returned is the one after the child has ended.\<close>

definition do_exec_redirect ::
  "os \<Rightarrow> string \<Rightarrow> int \<Rightarrow> string option list \<Rightarrow> console \<Rightarrow> (bool proc \<times> console) outcome" where
  "do_exec_redirect os outputfile count args s =
     bindR (build_command count args) (\<lambda>command.
       if open_fails os then Inr (Exits 1, s\<lparr>printed := printed s @ stdio_pending os\<rparr>)
       else
         let s1 = s\<lparr>files := open_effect [O_WRONLY, O_CREAT, O_TRUNC] outputfile (files s)\<rparr> in
         if fork_fails os then Inr (Exits 1, s1\<lparr>printed := printed s1 @ stdio_pending os\<rparr>)
         else let (e, s2) = redirect_child os outputfile command s1 in Inr (Continues True, s2))"

section \<open>Facts\<close>

lemma write_after_truncation:
  "O_CREAT \<in> set flags \<Longrightarrow> O_TRUNC \<in> set flags \<Longrightarrow>
    write_from_start path out (open_effect flags path fs) = fs(path \<mapsto> out)"
  by (simp add: write_from_start_def open_effect_def split: option.split)

lemma and_low_7: "(x :: int) AND 0x7F = x mod 128"
  using take_bit_eq_mask [of 7 x] by (simp add: take_bit_eq_mod mask_eq_exp_minus_1)

lemma and_low_8: "(x :: int) AND 0xFF = x mod 256"
  using take_bit_eq_mask [of 8 x] by (simp add: take_bit_eq_mod mask_eq_exp_minus_1)

lemma WEXITSTATUS_eq: "WEXITSTATUS x = x div 256 mod 256"
proof -
  have "WEXITSTATUS x = drop_bit 8 x AND drop_bit 8 0xFF00"
    by (simp only: WEXITSTATUS_def drop_bit_and)
  also have "\<dots> = drop_bit 8 x AND 0xFF" by simp
  finally show ?thesis by (simp only: and_low_8) (simp add: drop_bit_eq_div)
qed

lemma wait_status_Exited [simp]:
  "WIFEXITED (wait_status (Exited c))" "WEXITSTATUS (wait_status (Exited c)) = c mod 256"
  by (simp_all add: WIFEXITED_def WEXITSTATUS_eq wait_status_def and_low_7 and_low_8 push_bit_eq_mult)

lemma wait_status_Killed [simp]:
  "signals_ok (Killed signo core) \<Longrightarrow> \<not> WIFEXITED (wait_status (Killed signo core))"
  by (simp add: WIFEXITED_def wait_status_def and_low_7 signals_ok_def)

lemma wait_status_0_iff: "signals_ok e \<Longrightarrow> wait_status e = 0 \<longleftrightarrow> (\<exists>c. e = Exited c \<and> c mod 256 = 0)"
  by (cases e) (auto simp: wait_status_def and_low_8 push_bit_eq_mult signals_ok_def)

lemma va_loop_eq:
  "va_loop n args command =
    (if n \<le> length args then Inr (command @ take n args) else Inl Out_Of_Bounds)"
  by (induction n args command rule: va_loop.induct) auto

lemma build_command_eq:
  assumes "0 \<le> count" and "count < INT_MAX" and "nat count \<le> length args"
  shows "build_command count args = Inr (take (nat count) args @ [None])"
  using assms by (simp add: build_command_def va_loop_eq)

text \<open>The array passed on stops at the first NULL, which may come before the one the code adds.\<close>

definition argument_vector :: "int \<Rightarrow> string option list \<Rightarrow> string list" where
  "argument_vector count args = map the (takeWhile (\<lambda>a. a \<noteq> None) (take (nat count) args))"

lemma takeWhile_stop: "\<not> P x \<Longrightarrow> takeWhile P (xs @ [x]) = takeWhile P xs"
  by (induction xs) auto

lemma execv_command:
  "execv os (take n args @ [None]) =
    (case map the (takeWhile (\<lambda>a. a \<noteq> None) (take n args)) of
       [] \<Rightarrow> None | path # rest \<Rightarrow> program os path (path # rest))"
proof (cases "take n args")
  case (Cons a rest)
  then show ?thesis
    using takeWhile_stop [of "\<lambda>a. a \<noteq> None" None rest] by (auto simp: execv_def split: option.splits)
qed (auto simp: execv_def)

text \<open>What running the command comes to, for the arguments a caller passed.\<close>

definition run_command :: "os \<Rightarrow> int \<Rightarrow> string option list \<Rightarrow> (ending \<times> string) option" where
  "run_command os count args =
     (case argument_vector count args of [] \<Rightarrow> None | path # rest \<Rightarrow> program os path (path # rest))"

lemma execv_run_command: "execv os (take (nat count) args @ [None]) = run_command os count args"
  by (simp add: execv_command run_command_def argument_vector_def)

section \<open>Properties\<close>

text \<open>
  C35. \<open>do_exec\<close> returns true exactly when \<open>fork\<close> and \<open>waitpid\<close> succeeded, the command could be
  executed, and it exited (was not killed) with a status whose low eight bits are zero. In
  particular a failed \<open>execv\<close>, which ends the child with \<open>_exit(-1)\<close>, is seen by the parent.
\<close>

theorem do_exec_spec:
  assumes "0 \<le> count" and "count < INT_MAX" and "nat count \<le> length args"
    and "os_ok os"
  shows "do_exec os count args = Inr
    (\<not> fork_fails os \<and> \<not> waitpid_fails os \<and>
     (\<exists>c out. run_command os count args = Some (Exited c, out) \<and> c mod 256 = 0))"
proof (cases "run_command os count args")
  case None
  with assms show ?thesis
    by (simp add: do_exec_def build_command_eq exec_child_def execv_run_command)
next
  case (Some r)
  obtain e out where r: "r = (e, out)" by (cases r)
  have "signals_ok e"
    using Some r assms(4) by (fastforce simp: run_command_def os_ok_def split: list.splits)
  with Some r assms(1-3) show ?thesis
    by (cases e) (auto simp: do_exec_def build_command_eq exec_child_def execv_run_command Let_def)
qed

definition example_os :: os where
  "example_os =
     \<lparr>fork_fails = False, waitpid_fails = False, open_fails = False, dup2_fails = False,
      shell_available = True, shell = (\<lambda>_. Exited 0),
      program = (\<lambda>path argv.
        if path = ''/bin/echo'' then Some (Exited 0, concat (tl argv))
        else if path = ''/bin/false'' then Some (Exited 1, [])
        else None),
      stdio_pending = ''log''\<rparr>"

lemma example_os_ok: "os_ok example_os"
  by (auto simp: os_ok_def example_os_def signals_ok_def split: if_splits)

lemma do_exec_spec_witness:
  "do_exec example_os 2 [Some ''/bin/echo'', Some ''hi''] = Inr True \<and>
   do_exec example_os 1 [Some ''/bin/false''] = Inr False \<and>
   do_exec example_os 1 [Some ''echo''] = Inr False"
  using do_exec_spec [of 2 "[Some ''/bin/echo'', Some ''hi'']" example_os]
    do_exec_spec [of 1 "[Some ''/bin/false'']" example_os]
    do_exec_spec [of 1 "[Some ''echo'']" example_os] example_os_ok
  by (simp add: run_command_def argument_vector_def) (simp add: example_os_def)

text \<open>
  \<open>do_exec_redirect\<close> returns true whenever the file could be opened and the process forked:
  the status of the child is never looked at. Where \<open>do_exec\<close> returns false (the command does not
  exist, exits with an error, is killed, or \<open>waitpid\<close> fails), the redirected call returns true.
\<close>

theorem do_exec_redirect_ignores_status:
  assumes "do_exec os count args = Inr False" and "\<not> fork_fails os" and "\<not> open_fails os"
  shows "\<exists>s'. do_exec_redirect os outputfile count args s = Inr (Continues True, s')"
  using assms
  by (cases "build_command count args") (auto simp: do_exec_def do_exec_redirect_def Let_def split: prod.splits)

lemma do_exec_redirect_ignores_status_witness:
  "\<exists>s'. do_exec_redirect example_os ''out'' 1 [Some ''/bin/false''] \<lparr>files = Map.empty, printed = []\<rparr> =
    Inr (Continues True, s')"
proof (rule do_exec_redirect_ignores_status)
  show "do_exec example_os 1 [Some ''/bin/false''] = Inr False"
    by (simp add: do_exec_def build_command_def exec_child_def execv_def example_os_def Let_def)
qed (simp_all add: example_os_def)

text \<open>
  C36. The redirection itself does what it says: when the file can be opened, the process forks,
  \<open>dup2\<close> succeeds and the command runs, the file holds exactly what the command wrote to its standard output, because
  what it held before, which may be longer, is cut off when it is opened; and nothing appears on the
  caller's standard output. The number of arguments is that of the arguments passed.
\<close>

theorem do_exec_redirect_captures_output:
  assumes "0 \<le> count" and "count < INT_MAX" and "nat count \<le> length args"
    and "\<not> open_fails os" and "\<not> fork_fails os" and "\<not> dup2_fails os"
    and "run_command os count args = Some (e, out)"
  shows "do_exec_redirect os outputfile count args s =
    Inr (Continues True, s\<lparr>files := (files s)(outputfile \<mapsto> out)\<rparr>)"
  using assms
  by (simp add: do_exec_redirect_def build_command_eq redirect_child_def execv_run_command
      write_after_truncation Let_def)

lemma do_exec_redirect_captures_output_witness:
  "do_exec_redirect example_os ''out'' 2 [Some ''/bin/echo'', Some ''hi'']
     \<lparr>files = [''out'' \<mapsto> ''older''], printed = []\<rparr> =
   Inr (Continues True, \<lparr>files = [''out'' \<mapsto> ''hi''], printed = []\<rparr>)"
  using do_exec_redirect_captures_output
    [of 2 "[Some ''/bin/echo'', Some ''hi'']" example_os "Exited 0" "''hi''" "''out''"
       "\<lparr>files = [''out'' \<mapsto> ''older''], printed = []\<rparr>"]
  by (simp add: run_command_def argument_vector_def example_os_def)

text \<open>
  When the command of \<open>do_exec_redirect\<close> cannot be executed, its child ends through \<open>exit\<close>,
  after the redirection: what the caller had printed and not flushed lands in the output file.
  \<open>do_exec\<close> uses \<open>_exit\<close> and has no such effect.
\<close>

theorem failed_redirect_writes_callers_output:
  assumes "0 \<le> count" and "count < INT_MAX" and "nat count \<le> length args"
    and "\<not> open_fails os" and "\<not> fork_fails os" and "\<not> dup2_fails os"
    and "run_command os count args = None"
  shows "do_exec_redirect os outputfile count args s =
    Inr (Continues True, s\<lparr>files := (files s)(outputfile \<mapsto> stdio_pending os)\<rparr>)"
  using assms
  by (simp add: do_exec_redirect_def build_command_eq redirect_child_def execv_run_command
      write_after_truncation Let_def)

lemma failed_redirect_writes_callers_output_witness:
  "do_exec_redirect example_os ''out'' 1 [Some ''echo''] \<lparr>files = Map.empty, printed = []\<rparr> =
   Inr (Continues True, \<lparr>files = [''out'' \<mapsto> ''log''], printed = []\<rparr>)"
  using failed_redirect_writes_callers_output
    [of 1 "[Some ''echo'']" example_os "''out''" "\<lparr>files = Map.empty, printed = []\<rparr>"]
  by (simp add: run_command_def argument_vector_def example_os_def)

text \<open>
  \<open>do_system\<close> with a command returns true exactly when the shell could be started and exited
  with a status whose low eight bits are zero; with NULL, the question whether there is a shell,
  it returns true exactly when there is none.
\<close>

theorem do_system_spec:
  assumes "os_ok os"
  shows "do_system os cmd =
    (case cmd of
       None \<Rightarrow> \<not> shell_available os
     | Some c \<Rightarrow> \<not> fork_fails os \<and> shell_available os \<and>
         (\<exists>status. shell os c = Exited status \<and> status mod 256 = 0))"
proof (cases cmd)
  case (Some c)
  have "wait_status (Exited 127) \<noteq> 0"
    by (simp add: wait_status_0_iff signals_ok_def)
  with Some assms wait_status_0_iff [of "shell os c"] show ?thesis
    by (simp add: do_system_def libc_system_def os_ok_def)
qed (simp add: do_system_def libc_system_def)

lemma do_system_spec_witness: "do_system example_os (Some ''ls'') \<and> \<not> do_system example_os None"
  using do_system_spec [OF example_os_ok] by (simp add: example_os_def)

text \<open>
  The number of arguments is not checked against the arguments: a \<open>count\<close> larger than the
  number of arguments passed, or a negative one, is undefined behaviour, before any process is
  created.
\<close>

theorem do_exec_count:
  assumes "count < INT_MAX"
  shows "do_exec os count args = Inl Out_Of_Bounds \<longleftrightarrow> count < 0 \<or> length args < nat count"
  using assms by (auto simp: do_exec_def build_command_def va_loop_eq Let_def)

lemma do_exec_count_witness: "do_exec example_os 3 [Some ''/bin/echo'', Some ''hi''] = Inl Out_Of_Bounds"
  using do_exec_count [of 3 example_os "[Some ''/bin/echo'', Some ''hi'']"] by simp

end
