(* ===== verification/Writer.thy ===== *)
theory Writer imports Main Aesd_Prelude begin

text \<open>
  \<^verbatim>\<open>finder-app/writer.c\<close>: a file is overwritten with one line of text. Whether the file can be
  opened, how many bytes the disk takes and the text of the last error are parameters; neither
  \<open>fprintf\<close> nor \<open>fclose\<close> is checked by the program.
\<close>

datatype level = LOG_ERR | LOG_DEBUG

record disk =
  fopen_fails :: "string \<Rightarrow> bool"
  disk_room :: nat
  strerror :: string

record writer_state =
  written :: "string \<rightharpoonup> string"
  syslogged :: "(level \<times> string) list"
  stderr_text :: string
  log_ident :: "string option"

definition syslog :: "level \<Rightarrow> string \<Rightarrow> writer_state \<Rightarrow> writer_state" where
  "syslog l msg s = s\<lparr>syslogged := syslogged s @ [(l, msg)]\<rparr>"

text \<open>
  What \<open>fopen\<close> makes of the file: the mode \<open>"w"\<close> empties or creates it, other modes do not. What is
  printed then goes to the first byte and on.
\<close>

definition fopen_effect :: "string \<Rightarrow> string option \<Rightarrow> string option" where
  "fopen_effect mode old = (if mode = ''w'' then Some [] else old)"

definition fprintf_effect :: "string \<Rightarrow> string option \<Rightarrow> string option" where
  "fprintf_effect out old = Some (put_front out (case old of None \<Rightarrow> [] | Some bs \<Rightarrow> bs))"

definition writeToLogFile :: "disk \<Rightarrow> string \<Rightarrow> string \<Rightarrow> writer_state \<Rightarrow> unit proc \<times> writer_state" where
  "writeToLogFile d filename txt s =
     (if fopen_fails d filename
      then (Exits 1, syslog LOG_ERR (''Error opening file '' @ filename @ '' for writing: '' @ strerror d) s)
      else
        let s1 = s\<lparr>written := (written s)(filename := fopen_effect ''w'' (written s filename))\<rparr>;
            s2 = s1\<lparr>written := (written s1)
              (filename := fprintf_effect (take (disk_room d) (txt @ [newline])) (written s1 filename))\<rparr>
        in (Continues (),
            syslog LOG_DEBUG (''Writing '' @ [CHR 0x22] @ txt @ [CHR 0x22] @ '' to '' @ filename) s2))"

lemma written_anew [simp]: "fprintf_effect out (fopen_effect ''w'' old) = Some out"
  by (simp add: fprintf_effect_def fopen_effect_def)

text \<open>
  \<open>main\<close>, with the exit status of the process. A process can be started without any argument, then
  \<open>argv[0]\<close> is NULL and the usage message prints it.
\<close>

definition writer_main :: "disk \<Rightarrow> string list \<Rightarrow> writer_state \<Rightarrow> (int \<times> writer_state) outcome" where
  "writer_main d argv s =
     (if length argv \<noteq> 3 then
        (case argv of
           [] \<Rightarrow> Inl Null_Deref
         | prog # _ \<Rightarrow>
             Inr (1, s\<lparr>stderr_text := stderr_text s @ ''Usage: '' @ prog @ '' <filename> <string>'' @ [newline]\<rparr>))
      else
        let s1 = s\<lparr>log_ident := Some (argv ! 0)\<rparr> in
        case writeToLogFile d (argv ! 1) (argv ! 2) s1 of
          (Exits status, s2) \<Rightarrow> Inr (status, s2)
        | (Continues _, s2) \<Rightarrow> Inr (0, s2\<lparr>log_ident := None\<rparr>))"

text \<open>
  C40. Called with a file and a text, the program leaves the file with the text and a newline and nothing
  else, whatever was in it, and exits with 0, when the file can be opened and the disk takes the
  line. A file that cannot be opened is logged and gives exit status 1; a wrong number of arguments,
  as long as there is a name of the program, gives exit status 1, logs nothing and touches no file.
\<close>

theorem writer_main_spec:
  assumes "argv \<noteq> []" and "length argv = 3 \<Longrightarrow> length (argv ! 2) < disk_room d"
  shows "\<exists>status s'. writer_main d argv s = Inr (status, s') \<and>
    (if length argv = 3 \<and> \<not> fopen_fails d (argv ! 1)
     then status = 0 \<and> written s' = (written s)(argv ! 1 \<mapsto> argv ! 2 @ [newline])
     else status = 1 \<and> written s' = written s) \<and>
    map fst (syslogged s') = map fst (syslogged s) @
      (if length argv \<noteq> 3 then [] else if fopen_fails d (argv ! 1) then [LOG_ERR] else [LOG_DEBUG])"
proof (cases "length argv = 3")
  case True
  then have "length (argv ! 2) < disk_room d" using assms(2) by simp
  with True assms(1) show ?thesis
    by (simp add: writer_main_def writeToLogFile_def syslog_def take_Cons')
next
  case False
  with assms(1) show ?thesis by (cases argv) (simp_all add: writer_main_def)
qed

definition example_disk :: "nat \<Rightarrow> disk" where
  "example_disk room = \<lparr>fopen_fails = (\<lambda>f. f = ''/root/x''), disk_room = room, strerror = ''denied''\<rparr>"

definition example_writer :: writer_state where
  "example_writer = \<lparr>written = [''/tmp/x'' \<mapsto> ''older''], syslogged = [], stderr_text = [], log_ident = None\<rparr>"

lemma writer_main_spec_witness:
  "\<exists>s'. writer_main (example_disk 9) [''writer'', ''/tmp/x'', ''hi''] example_writer = Inr (0, s') \<and>
    written s' = [''/tmp/x'' \<mapsto> ''hi'' @ [newline]] \<and>
    (\<exists>s'. writer_main (example_disk 9) [''writer'', ''/tmp/x''] example_writer = Inr (1, s') \<and>
      written s' = [''/tmp/x'' \<mapsto> ''older''] \<and> syslogged s' = [])"
  using writer_main_spec [of "[''writer'', ''/tmp/x'', ''hi'']" "example_disk 9" example_writer]
    writer_main_spec [of "[''writer'', ''/tmp/x'']" "example_disk 9" example_writer]
  by (auto simp: example_disk_def example_writer_def)

text \<open>
  The result of the write is not checked: when the disk takes only a part of the line, the
  file is left with that part, the log still reports the whole text as written, and the exit
  status is 0.
\<close>

theorem short_write_reported_as_success:
  assumes "length argv = 3" and "\<not> fopen_fails d (argv ! 1)" and "disk_room d \<le> length (argv ! 2)"
  shows "\<exists>s'. writer_main d argv s = Inr (0, s') \<and>
    written s' = (written s)(argv ! 1 \<mapsto> take (disk_room d) (argv ! 2)) \<and>
    syslogged s' = syslogged s @
      [(LOG_DEBUG, ''Writing '' @ [CHR 0x22] @ argv ! 2 @ [CHR 0x22] @ '' to '' @ argv ! 1)]"
  using assms by (simp add: writer_main_def writeToLogFile_def syslog_def)

lemma short_write_reported_as_success_witness:
  "\<exists>s'. writer_main (example_disk 1) [''writer'', ''/tmp/x'', ''hi''] example_writer = Inr (0, s') \<and>
    written s' = [''/tmp/x'' \<mapsto> ''h'']"
  using short_write_reported_as_success
    [of "[''writer'', ''/tmp/x'', ''hi'']" "example_disk 1" example_writer]
  by (auto simp: example_disk_def example_writer_def)

end
