(* ===== verification/Seek_Request.thy ===== *)
theory Seek_Request imports Main Server_Device begin

text \<open>
  The text of the seek command. A client writes two numbers in decimal; the theory shows that the
  server's \<open>sscanf\<close> reads the same numbers back while they fit 32 bits, that larger ones are undefined
  behaviour, and so what the whole system answers to \<open>AESDCHAR_IOCSEEKTO:X,Y\<close> given X and Y as numbers.
\<close>

section \<open>Decimal numbers\<close>

definition digit_char :: "nat \<Rightarrow> byte" where
  "digit_char d = char_of (48 + d)"

fun show_nat :: "nat \<Rightarrow> byte list" where
  "show_nat n = (let front = (if n div 10 = 0 then [] else show_nat (n div 10)) in front @ [digit_char (n mod 10)])"

declare show_nat.simps [simp del]

lemma digit_char_value: "d < 10 \<Longrightarrow> of_char (digit_char d) = (48 + d :: nat)"
  by (simp add: digit_char_def)

lemma digit_char_is_digit: "d < 10 \<Longrightarrow> is_digit (digit_char d)"
  by (simp add: is_digit_def digit_char_value)

lemma digits_value_snoc: "digits_value (ds @ [c]) = 10 * digits_value ds + (of_char c - 48)"
  by (simp add: digits_value_def)

lemma digits_value_show: "digits_value (show_nat n) = n"
proof (induction n rule: less_induct)
  case (less n)
  have "digits_value (if n div 10 = 0 then [] else show_nat (n div 10)) = n div 10"
    using less [of "n div 10"] by (simp add: digits_value_def)
  then show ?case
    by (subst show_nat.simps) (simp add: Let_def digits_value_snoc digit_char_value)
qed

lemma show_nat_digits: "c \<in> set (show_nat n) \<Longrightarrow> is_digit c"
proof (induction n rule: less_induct)
  case (less n)
  have "c = digit_char (n mod 10) \<or> n div 10 \<noteq> 0 \<and> c \<in> set (show_nat (n div 10))"
    using less.prems by (subst (asm) show_nat.simps) (auto simp: Let_def split: if_splits)
  then show ?case using less.IH [of "n div 10"] digit_char_is_digit [of "n mod 10"] by auto
qed

lemma show_nat_Nil [simp]: "show_nat n \<noteq> []"
  by (subst show_nat.simps) (simp add: Let_def)

text \<open>A digit is neither white space nor a sign.\<close>

lemma digit_not_special:
  assumes "is_digit c" shows "\<not> is_space c" and "c \<noteq> CHR ''-''" and "c \<noteq> CHR ''+''" and "c \<noteq> CHR 0x00"
    and "c \<noteq> newline"
  using assms by (auto simp: is_digit_def is_space_def)

definition ends_number :: "byte list \<Rightarrow> bool" where
  "ends_number rest \<longleftrightarrow> (case rest of [] \<Rightarrow> True | c # _ \<Rightarrow> \<not> is_digit c)"

lemma span_digits:
  assumes "\<And>c. c \<in> set ds \<Longrightarrow> is_digit c" and "ends_number rest"
  shows "takeWhile is_digit (ds @ rest) = ds" and "dropWhile is_digit (ds @ rest) = rest"
  using assms by (induction ds) (auto simp: ends_number_def split: list.splits)

text \<open>What \<open>%u\<close> makes of a number.\<close>

lemma scan_u_show:
  assumes "ends_number rest"
  shows "scan_u (show_nat n @ rest) = (if n < 2 ^ 32 then Inr (Some (of_nat n, rest)) else Inl Bad_Conversion)"
proof -
  obtain c cs where c: "show_nat n = c # cs" by (cases "show_nat n") auto
  then have "is_digit c" using show_nat_digits [of c n] by simp
  note special = digit_not_special [OF this]
  have sp: "dropWhile is_space (show_nat n @ rest) = show_nat n @ rest" using c special by simp
  have sg: "scan_sign (show_nat n @ rest) = (False, show_nat n @ rest)"
    using c special by (simp add: scan_sign_def)
  note span = span_digits [of "show_nat n", OF show_nat_digits assms]
  show ?thesis
    unfolding scan_u_def sp sg Let_def prod.case by (simp add: span digits_value_show)
qed

lemma sscanf_show:
  "sscanf_u_u (show_nat m @ CHR '','' # show_nat n @ newline # rest) =
    (if m < 2 ^ 32 \<and> n < 2 ^ 32 then Inr (Some (of_nat m, of_nat n)) else Inl Bad_Conversion)"
proof -
  have "ends_number (CHR '','' # show_nat n @ newline # rest)" "ends_number (newline # rest)"
    by (simp_all add: ends_number_def is_digit_def)
  then show ?thesis by (simp add: sscanf_u_u_def scan_u_show)
qed

lemma unat_less_32: "unat (a :: uint32_t) < 4294967296"
  using unsigned_less [of a] by simp

section \<open>The command over the socket\<close>

lemma drop_cmd_pos:
  assumes "x < length (cmds l)" and "y < length (cmds l ! x)"
  shows "drop (cmd_pos l x y) (contents l) = drop y (cmds l ! x) @ concat (drop (Suc x) (cmds l))"
proof -
  have "contents l = concat (take x (cmds l)) @ cmds l ! x @ concat (drop (Suc x) (cmds l))"
    unfolding contents_def by (subst id_take_nth_drop [OF assms(1)]) simp
  moreover have "cmd_pos l x y = length (concat (take x (cmds l))) + y"
    by (simp add: cmd_pos_def length_concat)
  ultimately show ?thesis using assms(2) by simp
qed

definition seek_args :: "nat \<Rightarrow> nat \<Rightarrow> byte list" where
  "seek_args m n = show_nat m @ CHR '','' # show_nat n"

lemma seek_args_plain: "CHR 0x00 \<notin> set (seek_args m n)"
  using show_nat_digits digit_not_special(4) by (auto simp: seek_args_def)

text \<open>What the server finds in its buffer, whatever the chunk left there of the stack.\<close>

lemma seek_line_received:
  assumes "CHR 0x00 \<in> set (drop (length (seek_line (seek_args m n))) old)"
  shows "take 19 (recv_into (seek_line (seek_args m n)) old) = seek_prefix"
    and "\<exists>str. c_string (drop 19 (recv_into (seek_line (seek_args m n)) old)) = Inr str \<and>
      sscanf_u_u str = (if m < 2 ^ 32 \<and> n < 2 ^ 32 then Inr (Some (of_nat m, of_nat n)) else Inl Bad_Conversion)"
proof -
  have 19: "length seek_prefix = 19" by (simp add: seek_prefix_def)
  let ?rest = "drop (length (seek_line (seek_args m n))) old"
  show "take 19 (recv_into (seek_line (seek_args m n)) old) = seek_prefix"
    using 19 by (simp add: recv_into_def seek_line_def)
  have "drop 19 (recv_into (seek_line (seek_args m n)) old) = seek_args m n @ newline # ?rest"
    using 19 by (simp add: recv_into_def seek_line_def)
  moreover have "takeWhile (\<lambda>c. c \<noteq> CHR 0x00) (seek_args m n @ newline # ?rest) =
      seek_args m n @ newline # takeWhile (\<lambda>c. c \<noteq> CHR 0x00) ?rest"
    using seek_args_plain by (subst takeWhile_append2) auto
  ultimately show "\<exists>str. c_string (drop 19 (recv_into (seek_line (seek_args m n)) old)) = Inr str \<and>
      sscanf_u_u str = (if m < 2 ^ 32 \<and> n < 2 ^ 32 then Inr (Some (of_nat m, of_nat n)) else Inl Bad_Conversion)"
    using assms sscanf_show [of m n] by (simp add: c_string_def) (simp add: seek_args_def)
qed

section \<open>Properties\<close>

text \<open>
  C16. The two numbers of a seek command survive the way through the text: printed in decimal with a
  comma between and a newline behind, the server's \<open>sscanf\<close> reads exactly them, whatever follows.
\<close>

theorem seek_numbers_roundtrip:
  "sscanf_u_u (show_nat (unat a) @ CHR '','' # show_nat (unat b) @ newline # rest) = Inr (Some (a, b))"
  by (simp add: sscanf_show unat_less_32)

text \<open>
  C15. A client that sends \<open>AESDCHAR_IOCSEEKTO:X,Y\<close> and a newline in one chunk, with X and Y in decimal
  below two to the 32, gets, until the ring has wrapped, the contents of the device from byte Y of
  command X to the end; nothing is written and no descriptor is lost. When there is no such
  command or byte, the whole server exits. It takes a byte of zero in what the buffer, which nobody
  initialises, holds behind the line; without it \<open>sscanf\<close> reads past the buffer. Further a free
  descriptor, a client that takes what is sent, and a kernel as in \<open>machine_ok\<close>.
\<close>

theorem seek_by_numbers:
  assumes "device_ok mc (data_file s)" and "file_mutex s = None" and "reliable cl"
    and "recvs cl = seek_line (seek_args x y) # rest" and "x < 2 ^ 32" and "y < 2 ^ 32"
    and "CHR 0x00 \<in> set (drop (length (seek_line (seek_args x y))) (stale cl))"
    and "0 < free_fds (device_view (data_file s))" and "out_offs (buffer (dev (kern (data_file s)))) = 0"
  shows "let l = drv_abs (kern (data_file s)) in
    if x < length (cmds l) \<and> y < length (cmds l ! x) then
      \<exists>w'. handle_client char_device (device_ops mc me) me cl s = Some (Inr (Replied, s\<lparr>data_file := w',
          sent := drop y (cmds l ! x) @ concat (drop (Suc x) (cmds l))\<rparr>)) \<and>
        device_ok mc w' \<and> device_view w' = device_view (data_file s)
    else \<exists>s'. handle_client char_device (device_ops mc me) me cl s = Some (Inr (Server_Exits, s'))"
proof -
  let ?l = "drv_abs (kern (data_file s))" and ?st = "\<lparr>write_cmd = of_nat x, write_cmd_offset = of_nat y\<rparr>"
  note got = seek_line_received [OF assms(7)]
  have nl: "newline \<in> set (seek_line (seek_args x y))" by (simp add: seek_line_def)
  have log: "file_data (device_view (data_file s)) = ?l" and order: "in_order (device_view (data_file s))"
    using assms(9) by (simp_all add: device_view_def)
  obtain str where str: "c_string (drop 19 (recv_into (seek_line (seek_args x y)) (stale cl))) = Inr str"
    "sscanf_u_u str = Inr (Some (of_nat x, of_nat y))" using got(2) assms(5,6) by auto
  have u: "unat (of_nat x :: uint32_t) = x" "unat (of_nat y :: uint32_t) = y"
    using assms(5,6) by (simp_all add: unat_of_nat)
  have pos: "seek_pos ?st ?l = (if x < length (cmds ?l) \<and> y < length (cmds ?l ! x) then Some (cmd_pos ?l x y) else None)"
    by (simp add: seek_pos_def u Let_def)
  have "drop (cmd_pos ?l x y) (contents ?l) = drop y (cmds ?l ! x) @ concat (drop (Suc x) (cmds ?l))"
    if "x < length (cmds ?l)" "y < length (cmds ?l ! x)"
    using that by (simp add: drop_cmd_pos)
  with device_log.client_seeks [OF assms(1-4) nl assms(8) got(1) str order, of char_device me, unfolded log]
  show ?thesis unfolding pos Let_def by (auto split: if_splits)
qed

lemma seek_by_numbers_witness:
  "(\<exists>s'. handle_client True (device_ops example_machine 1) 1 (example_client [seek_line (seek_args 1 2)])
      example_server = Some (Inr (Replied, s')) \<and> sent s' = ''e'' @ [newline]) \<and>
   (\<exists>s'. handle_client True (device_ops example_machine 1) 1 (example_client [seek_line (seek_args 7 0)])
      example_server = Some (Inr (Server_Exits, s')))"
proof -
  let ?l = "drv_abs (kern (data_file example_server))"
  have l: "?l = \<lparr>cmds = [''ab'' @ [newline], ''cde'' @ [newline]], pending = []\<rparr>"
    by (simp add: example_server_def example_abs)
  have short: "length (seek_line (seek_args x y)) = 23" if "x < 10" "y < 10" for x y
    using that by (simp add: seek_line_def seek_args_def seek_prefix_def show_nat.simps)
  have *: "let l = ?l in
    if x < length (cmds l) \<and> y < length (cmds l ! x) then
      \<exists>w'. handle_client True (device_ops example_machine 1) 1 (example_client [seek_line (seek_args x y)])
          example_server = Some (Inr (Replied, example_server\<lparr>data_file := w',
          sent := drop y (cmds l ! x) @ concat (drop (Suc x) (cmds l))\<rparr>)) \<and>
        device_ok example_machine w' \<and> device_view w' = device_view (data_file example_server)
    else \<exists>s'. handle_client True (device_ops example_machine 1) 1 (example_client [seek_line (seek_args x y)])
      example_server = Some (Inr (Server_Exits, s'))"
    if "x < 10" "y < 10" for x y
    by (rule seek_by_numbers [OF example_server_ok, where rest = "[]"])
      (use that short [OF that] in \<open>simp_all add: example_server_view\<close>,
       simp_all add: example_server_def example_state_def)
  show ?thesis
    using * [of 1 2] * [of 7 0] unfolding Let_def l by auto
qed

text \<open>
  C33. Nothing looks at the numbers before \<open>sscanf\<close> converts them. A client that sends a seek command with
  a number of more than 32 bits in one chunk brings the server to a conversion whose result the C
  standard leaves undefined, whatever the file behind it, when \<open>file_mutex\<close> is free, the file can be
  opened and the buffer holds a byte of zero behind the line (without it \<open>sscanf\<close> reads past the buffer).
\<close>

theorem wide_numbers_undefined:
  assumes "file_mutex s = None" and "recvs cl = seek_line (seek_args x y) # rest"
    and "sys_open ops RDWR_CREAT (data_file s) = Inr (fd, w)" and "fd \<noteq> -1"
    and "CHR 0x00 \<in> set (drop (length (seek_line (seek_args x y))) (stale cl))"
    and "2 ^ 32 \<le> x \<or> 2 ^ 32 \<le> y"
  shows "handle_client char_device ops me cl s = Some (Inl Bad_Conversion)"
proof -
  note got = seek_line_received [OF assms(5)]
  obtain str where "c_string (drop 19 (recv_into (seek_line (seek_args x y)) (stale cl))) = Inr str"
    "sscanf_u_u str = Inl Bad_Conversion" using got(2) assms(6) by auto
  then show ?thesis
    using assms(1-4) got(1) by (simp add: handle_client_def lock_file_mutex_def store_chunk_def Let_def)
qed

lemma wide_numbers_undefined_witness:
  "handle_client True (device_ops example_machine 1) 1 (example_client [seek_line (seek_args 4294967296 0)])
    example_server = Some (Inl Bad_Conversion)"
proof -
  obtain fd w where w: "sys_open (device_ops example_machine 1) RDWR_CREAT (data_file example_server) = Inr (fd, w)"
    "0 \<le> fd"
    using device_log.open_free [OF example_server_ok, of 1 1] by (auto simp: example_server_view)
  have "length (seek_line (seek_args 4294967296 0)) = 32"
    by (simp add: seek_line_def seek_args_def seek_prefix_def show_nat.simps)
  then have "CHR 0x00 \<in> set (drop (length (seek_line (seek_args 4294967296 0))) (replicate 1024 (CHR 0x00)))"
    by simp
  moreover have "fd \<noteq> -1" using w(2) by simp
  moreover have "file_mutex example_server = None" by (simp add: example_server_def)
  ultimately show ?thesis
    using w(1) by (intro wide_numbers_undefined [where rest = "[]" and x = 4294967296 and y = 0]) simp_all
qed

end
