(* ===== verification/Server_Threads.thy ===== *)
theory Server_Threads imports Main Server_Device Lock_Protocol begin

text \<open>
  The client threads and the timestamp thread of \<^verbatim>\<open>server/aesdsocket.c\<close> side by side. A client thread
  waits for \<open>file_mutex\<close>, then receives chunk after chunk, and ends; between any two of these steps
  other threads run. The history records what has ended, in order.

  The theory shows that \<open>file_mutex\<close> makes this the same as serving the clients one after the other,
  and what a client that hangs up does to the others.
\<close>

section \<open>Steps\<close>

text \<open>The phases of \<open>handle_client\<close> in a thread.\<close>

datatype client_phase =
    Waiting client
  | Serving client "byte list list" "byte list" \<comment> \<open>what is still to come, and the buffer\<close>
  | Ended

datatype event =
    Client_Done tid client client_end "byte list" \<comment> \<open>with the bytes it was sent\<close>
  | Stamp_Done tid "byte list" "unit proc"

record 'w system =
  server :: "'w server"
  phases :: "tid \<rightharpoonup> client_phase"
  history :: "event list"
  alive :: bool

text \<open>
  One iteration of the loop over \<open>recv\<close> is \<open>client_loop\<close> on the one chunk; that it ends as for a
  client that hangs up then means that it asks for more. A turn of the timestamp thread is one
  step, since all it does it does under the mutex. When a thread is gone its identifier may be given
  to another.
\<close>

inductive system_step ::
  "bool \<Rightarrow> (tid \<Rightarrow> 'w file_ops) \<Rightarrow> 'w system \<Rightarrow> 'w system \<Rightarrow> bool"
  for char_device :: bool and ops :: "tid \<Rightarrow> 'w file_ops" where
  arrive: "alive c \<Longrightarrow> phases c t = None \<Longrightarrow>
    system_step char_device ops c (c\<lparr>phases := (phases c)(t \<mapsto> Waiting cl)\<rparr>)"
| lock: "alive c \<Longrightarrow> phases c t = Some (Waiting cl) \<Longrightarrow> lock_file_mutex t (server c) = Inr s \<Longrightarrow>
    system_step char_device ops c
      (c\<lparr>server := s\<lparr>sent := []\<rparr>, phases := (phases c)(t \<mapsto> Serving cl (recvs cl) (stale cl))\<rparr>)"
| receive: "alive c \<Longrightarrow> phases c t = Some (Serving cl (chunk # chunks) buf) \<Longrightarrow>
    client_loop char_device (ops t) t cl [chunk] buf (server c) = Some (Inr (Hung_Up, s)) \<Longrightarrow>
    system_step char_device ops c
      (c\<lparr>server := s, phases := (phases c)(t \<mapsto> Serving cl chunks (recv_into chunk buf))\<rparr>)"
| finish: "alive c \<Longrightarrow> phases c t = Some (Serving cl (chunk # chunks) buf) \<Longrightarrow>
    client_loop char_device (ops t) t cl [chunk] buf (server c) = Some (Inr (r, s)) \<Longrightarrow> r \<noteq> Hung_Up \<Longrightarrow>
    system_step char_device ops c
      (c\<lparr>server := s, phases := (phases c)(t \<mapsto> Ended), history := history c @ [Client_Done t cl r (sent s)],
         alive := (r = Replied)\<rparr>)"
| hang_up: "alive c \<Longrightarrow> phases c t = Some (Serving cl [] buf) \<Longrightarrow>
    system_step char_device ops c
      (c\<lparr>phases := (phases c)(t \<mapsto> Ended), history := history c @ [Client_Done t cl Hung_Up (sent (server c))]\<rparr>)"
| stamp: "alive c \<Longrightarrow> timestamp_turn char_device (ops t) t ts (server c) = Inr (p, s) \<Longrightarrow>
    system_step char_device ops c
      (c\<lparr>server := s, history := history c @ [Stamp_Done t ts p], alive := (p = Continues ())\<rparr>)"
| depart: "alive c \<Longrightarrow> phases c t = Some Ended \<Longrightarrow>
    system_step char_device ops c (c\<lparr>phases := (phases c)(t := None)\<rparr>)"

inductive_cases system_stepE: "system_step char_device ops c c'"

definition serving :: "'w system \<Rightarrow> tid \<Rightarrow> bool" where
  "serving c t \<longleftrightarrow> (case phases c t of Some (Serving _ _ _) \<Rightarrow> True | _ \<Rightarrow> False)"

definition starting :: "'w \<Rightarrow> 'w system" where
  "starting w = \<lparr>server = \<lparr>data_file = w, file_mutex = None, sent = []\<rparr>, phases = Map.empty,
     history = [], alive = True\<rparr>"

section \<open>The mutex\<close>

lemma cleanup_mutex [simp]: "file_mutex (cleanup char_device ops s) = file_mutex s"
  by (simp add: cleanup_def)

lemma send_loop_mutex_aux:
  assumes "send_loop ops cl fd s = Some r"
  shows "\<forall>present s'. r = Inr (present, s') \<longrightarrow> file_mutex s' = file_mutex s"
proof (rule send_loop.raw_induct [where
    P = "\<lambda>ops cl fd s r. \<forall>present s'. r = Inr (present, s') \<longrightarrow> file_mutex s' = file_mutex s",
    OF _ assms])
  fix loop :: "'a file_ops \<Rightarrow> client \<Rightarrow> int \<Rightarrow> 'a server \<Rightarrow> (bool \<times> 'a server) outcome option"
    and ops cl fd and s :: "'a server" and r
  assume IH: "\<And>ops cl fd s r. loop ops cl fd s = Some r \<Longrightarrow>
      \<forall>present s'. r = Inr (present, s') \<longrightarrow> file_mutex s' = file_mutex s"
    and eq: "(case sys_read ops fd BUFFER_SIZE (data_file s) of Inl e \<Rightarrow> Some (Inl e)
      | Inr (n, bs, w) \<Rightarrow>
          if n \<le> 0 then Some (Inr (True, s\<lparr>data_file := w\<rparr>))
          else (case takes cl (sent s) bs of
              None \<Rightarrow> Some (Inr (False, s\<lparr>data_file := w\<rparr>))
            | Some arrived \<Rightarrow> loop ops cl fd (s\<lparr>data_file := w, sent := sent s @ arrived\<rparr>))) = Some r"
  show "\<forall>present s'. r = Inr (present, s') \<longrightarrow> file_mutex s' = file_mutex s"
  proof (cases "sys_read ops fd BUFFER_SIZE (data_file s)")
    case (Inl e)
    with eq show ?thesis by auto
  next
    case (Inr x)
    obtain n bs w where x: "x = (n, bs, w)" by (cases x)
    show ?thesis
    proof (cases "n \<le> 0 \<or> takes cl (sent s) bs = None")
      case True
      with eq Inr x show ?thesis by (cases "n \<le> 0") auto
    next
      case False
      with eq Inr x obtain arrived where
        "loop ops cl fd (s\<lparr>data_file := w, sent := sent s @ arrived\<rparr>) = Some r" by auto
      from IH [OF this] show ?thesis by simp
    qed
  qed
qed

lemma send_loop_mutex: "send_loop ops cl fd s = Some (Inr (present, s')) \<Longrightarrow> file_mutex s' = file_mutex s"
  using send_loop_mutex_aux by blast

lemma store_chunk_mutex: "store_chunk ops c buf fd s = Inr (r, s') \<Longrightarrow> file_mutex s' = file_mutex s"
  by (auto simp: store_chunk_def bindR_Inr_iff split: option.splits prod.splits if_splits)

text \<open>How each end of a connection leaves the mutex.\<close>

definition mutex_after :: "tid \<Rightarrow> client_end \<Rightarrow> 'w server \<Rightarrow> 'w server \<Rightarrow> bool" where
  "mutex_after me r s s' \<longleftrightarrow>
     (if r = Hung_Up \<or> r = Server_Killed then file_mutex s' = file_mutex s
      else file_mutex s = Some me \<and> file_mutex s' = None)"

lemma unlock_and_cleanup_mutex:
  "unlock_and_cleanup cd ops me s = Inr (r, s') \<Longrightarrow> mutex_after me r s s'"
  by (auto simp: unlock_and_cleanup_def unlock_file_mutex_def mutex_after_def split: if_splits)

lemma send_reply_mutex:
  assumes "send_reply cd ops me cl seekset fd s = Some (Inr (r, s'))"
  shows "mutex_after me r s s'"
proof -
  obtain n w where w: "(if seekset then Inr (0, data_file s) else sys_lseek ops fd 0 SEEK_SET (data_file s))
      = Inr (n, w)"
    using assms by (auto simp: send_reply_def split: sum.splits if_splits)
  show ?thesis
  proof (cases "n = -1")
    case True
    with assms w have "unlock_and_cleanup cd ops me (s\<lparr>data_file := sys_close ops fd w\<rparr>) = Inr (r, s')"
      by (simp add: send_reply_def Let_def)
    then show ?thesis by (auto dest!: unlock_and_cleanup_mutex simp: mutex_after_def)
  next
    case False
    with assms w obtain present s2 where s2: "send_loop ops cl fd (s\<lparr>data_file := w\<rparr>) = Some (Inr (present, s2))"
      by (auto simp: send_reply_def Let_def split: option.splits sum.splits)
    with assms w False send_loop_mutex [OF s2] show ?thesis
      by (auto simp: send_reply_def Let_def unlock_file_mutex_def mutex_after_def split: if_splits)
  qed
qed

lemma client_loop_mutex:
  "client_loop cd ops me cl chunks buf s = Some (Inr (r, s')) \<Longrightarrow> mutex_after me r s s'"
proof (induction cd ops me cl chunks buf s rule: client_loop.induct)
  case (1 cd ops me cl buf s)
  then show ?case by (simp add: mutex_after_def)
next
  case (2 cd ops me cl chunk chunks buf s)
  obtain fd w where w: "sys_open ops RDWR_CREAT (data_file s) = Inr (fd, w)"
    using 2(2) by (auto simp: Let_def split: sum.splits)
  show ?case
  proof (cases "fd = -1")
    case True
    with 2(2) w unlock_and_cleanup_mutex [of cd ops me "s\<lparr>data_file := w\<rparr>" r s'] show ?thesis
      by (auto simp: Let_def mutex_after_def split: if_splits)
  next
    case False
    obtain b s2 where s2: "store_chunk ops chunk (recv_into chunk buf) fd (s\<lparr>data_file := w\<rparr>) = Inr (b, s2)"
      using 2(2) w False by (auto simp: Let_def split: sum.splits)
    have same: "mutex_after me r s2 s' \<Longrightarrow> mutex_after me r s s'"
      using store_chunk_mutex [OF s2] by (auto simp: mutex_after_def split: if_splits)
    show ?thesis
    proof (cases b)
      case None
      with 2(2) w False s2 have "unlock_and_cleanup cd ops me s2 = Inr (r, s')" by (simp add: Let_def)
      then show ?thesis by (rule same [OF unlock_and_cleanup_mutex])
    next
      case (Some seekset)
      show ?thesis
      proof (cases "newline \<in> set chunk")
        case True
        with Some 2(2) w False s2 have "send_reply cd ops me cl seekset fd s2 = Some (Inr (r, s'))"
          by (simp add: Let_def)
        then show ?thesis by (rule same [OF send_reply_mutex])
      next
        case nl: False
        with Some 2(2) w False s2 have "client_loop cd ops me cl chunks (recv_into chunk buf) s2 = Some (Inr (r, s'))"
          by (simp add: Let_def)
        then have "mutex_after me r s2 s'"
          using 2(1) [OF refl w refl refl False s2 refl Some nl] by simp
        then show ?thesis by (rule same)
      qed
    qed
  qed
qed

lemma timestamp_turn_mutex:
  "timestamp_turn cd ops me ts s = Inr (p, s') \<Longrightarrow> file_mutex s = None"
  by (auto simp: timestamp_turn_def bindR_Inr_iff lock_file_mutex_def split: option.splits)

lemma lock_file_mutex_iff: "lock_file_mutex me s = Inr s' \<longleftrightarrow> file_mutex s = None \<and> s' = s\<lparr>file_mutex := Some me\<rparr>"
  by (auto simp: lock_file_mutex_def split: option.splits)

lemma serving_upd:
  "serving (c\<lparr>server := s, phases := (phases c)(t \<mapsto> ph)\<rparr>) u =
    (if u = t then (case ph of Serving _ _ _ \<Rightarrow> True | _ \<Rightarrow> False) else serving c u)"
  "serving (c\<lparr>phases := (phases c)(t \<mapsto> ph)\<rparr>) u =
    (if u = t then (case ph of Serving _ _ _ \<Rightarrow> True | _ \<Rightarrow> False) else serving c u)"
  "serving (c\<lparr>history := h\<rparr>) u = serving c u" "serving (c\<lparr>alive := b\<rparr>) u = serving c u"
  "serving (c\<lparr>server := s\<rparr>) u = serving c u"
  by (simp_all add: serving_def)

lemma serving_phase: "phases c t = Some (Serving cl rem buf) \<Longrightarrow> serving c t"
  by (simp add: serving_def)

text \<open>What a step of a serving thread does to the mutex, with the thread inside or outside after it.\<close>

lemma system_mutex_enter:
  assumes "system_step cd ops c c'" and "serving c' t" and "\<not> serving c t"
  shows "file_mutex (server c) = None \<and> file_mutex (server c') = Some t"
  using assms(1)
proof cases
  case (lock u cl s)
  then show ?thesis using assms(2,3) by (auto simp: serving_def lock_file_mutex_iff split: if_splits)
qed (use assms(2,3) in \<open>auto simp: serving_def split: if_splits\<close>)

lemma system_mutex_keep:
  assumes "system_step cd ops c c'" and own: "file_mutex (server c) = Some t"
    and "serving c t \<longrightarrow> serving c' t"
  shows "file_mutex (server c') = Some t"
  using assms(1)
proof cases
  case (finish u cl chunk chunks buf r s)
  then have "u \<noteq> t" using assms(3) by (auto simp: serving_def)
  with client_loop_mutex [OF finish(4)] finish(1) own show ?thesis
    by (auto simp: mutex_after_def split: if_splits)
next
  case (receive u cl chunk chunks buf s)
  with client_loop_mutex [OF receive(4)] own show ?thesis by (simp add: mutex_after_def)
next
  case (stamp u ts p s)
  with timestamp_turn_mutex [OF stamp(3)] own show ?thesis by simp
qed (use own in \<open>auto simp: lock_file_mutex_iff\<close>)

interpretation server_mutex: lock_protocol "system_step cd ops" "\<lambda>_. True"
  "\<lambda>c. file_mutex (server c)" serving for cd ops
  by unfold_locales (auto dest: system_mutex_enter system_mutex_keep)

lemma server_lock_inv:
  assumes "(system_step cd ops)\<^sup>*\<^sup>* (starting w) c"
  shows "server_mutex.lock_inv c"
  by (rule server_mutex.lock_inv_steps [OF assms server_mutex.lock_inv_outside])
    (simp_all add: starting_def serving_def)

section \<open>One after the other\<close>

text \<open>Serving what the history records, one event after the other, each as a whole.\<close>

fun serial_run :: "bool \<Rightarrow> (tid \<Rightarrow> 'w file_ops) \<Rightarrow> event list \<Rightarrow> 'w server \<Rightarrow> 'w server option" where
  "serial_run cd ops [] s = Some s"
| "serial_run cd ops (Client_Done t cl r reply # es) s =
     (case handle_client cd (ops t) t cl s of
        Some (Inr (r', s')) \<Rightarrow> if r' = r \<and> sent s' = reply then serial_run cd ops es s' else None
      | _ \<Rightarrow> None)"
| "serial_run cd ops (Stamp_Done t ts p # es) s =
     (case timestamp_turn cd (ops t) t ts s of
        Inr (p', s') \<Rightarrow> if p' = p then serial_run cd ops es s' else None
      | _ \<Rightarrow> None)"

lemma serial_run_append:
  "serial_run cd ops es s = Some s' \<Longrightarrow> serial_run cd ops (es @ fs) s = serial_run cd ops fs s'"
  by (induction cd ops es s rule: serial_run.induct) (auto split: option.splits sum.splits if_splits)

text \<open>Taking the loop over \<open>recv\<close> apart, chunk by chunk.\<close>

lemma unlock_and_cleanup_end: "unlock_and_cleanup cd ops me s = Inr (r, s') \<Longrightarrow> r \<noteq> Hung_Up"
  by (auto simp: unlock_and_cleanup_def bindR_Inr_iff)

lemma send_reply_end: "send_reply cd ops me cl seekset fd s = Some (Inr (r, s')) \<Longrightarrow> r \<noteq> Hung_Up"
  by (auto simp: send_reply_def Let_def bindR_Inr_iff dest: unlock_and_cleanup_end
      split: sum.splits prod.splits if_splits option.splits)

definition then_more ::
  "('w server \<Rightarrow> (client_end \<times> 'w server) outcome option) \<Rightarrow>
   (client_end \<times> 'w server) outcome option \<Rightarrow> (client_end \<times> 'w server) outcome option" where
  "then_more f x =
     (case x of
        Some (Inr (r, s)) \<Rightarrow> if r = Hung_Up then f s else x
      | _ \<Rightarrow> x)"

lemma then_more_id: "(\<And>s. x \<noteq> Some (Inr (Hung_Up, s))) \<Longrightarrow> then_more f x = x"
  by (auto simp: then_more_def split: option.splits sum.splits)

lemma client_loop_single:
  "client_loop cd ops me cl (chunk # chunks) buf s =
    then_more (client_loop cd ops me cl chunks (recv_into chunk buf)) (client_loop cd ops me cl [chunk] buf s)"
proof (cases "sys_open ops RDWR_CREAT (data_file s)")
  case (Inl e)
  then show ?thesis by (simp add: then_more_def)
next
  case (Inr x)
  obtain fd w where x: "x = (fd, w)" by (cases x)
  let ?s1 = "s\<lparr>data_file := w\<rparr>"
  have cleanup: "then_more f (Some (unlock_and_cleanup cd ops me s2)) = Some (unlock_and_cleanup cd ops me s2)" for f s2
    using unlock_and_cleanup_end by (intro then_more_id) fastforce
  have reply: "then_more f (send_reply cd ops me cl b fd s2) = send_reply cd ops me cl b fd s2" for f b s2
    using send_reply_end by (intro then_more_id) fastforce
  show ?thesis
  proof (cases "fd = -1")
    case True
    with Inr x show ?thesis by (simp add: cleanup Let_def)
  next
    case False
    show ?thesis
    proof (cases "store_chunk ops chunk (recv_into chunk buf) fd ?s1")
      case (Inl e)
      with Inr x False show ?thesis by (simp add: then_more_def Let_def)
    next
      case store: (Inr y)
      obtain b s2 where y: "y = (b, s2)" by (cases y)
      show ?thesis
      proof (cases b)
        case None
        with Inr x False store y show ?thesis by (simp add: cleanup Let_def)
      next
        case (Some seekset)
        show ?thesis
        proof (cases "newline \<in> set chunk")
          case True
          with Inr x False store y Some show ?thesis by (simp add: reply Let_def)
        next
          case nl: False
          with Inr x False store y Some show ?thesis by (simp add: then_more_def Let_def)
        qed
      qed
    qed
  qed
qed

lemma client_loop_first:
  assumes "client_loop cd ops me cl (chunk # chunks) buf s = Some (Inr x)"
  shows "\<exists>r s'. client_loop cd ops me cl [chunk] buf s = Some (Inr (r, s'))"
  using assms unfolding client_loop_single [of cd ops me cl chunk chunks]
  by (auto simp: then_more_def split: option.splits sum.splits)

text \<open>What a thread still does for its client is what is left of serving it as a whole.\<close>

definition served_from :: "bool \<Rightarrow> (tid \<Rightarrow> 'w file_ops) \<Rightarrow> 'w system \<Rightarrow> tid \<Rightarrow> 'w server \<Rightarrow> bool" where
  "served_from cd ops c t base \<longleftrightarrow>
     (case phases c t of
        Some (Serving cl rem buf) \<Rightarrow>
          handle_client cd (ops t) t cl base = client_loop cd (ops t) t cl rem buf (server c)
      | _ \<Rightarrow> False)"

lemma served_from_same:
  "phases c' t = phases c t \<Longrightarrow> server c' = server c \<Longrightarrow> served_from cd ops c' t base = served_from cd ops c t base"
  by (cases "phases c t") (simp_all add: served_from_def split: client_phase.split)

interpretation server_sections: atomic_sections "system_step cd ops" "\<lambda>_. True" "\<lambda>c. file_mutex (server c)" serving
  server history "serial_run cd ops" "served_from cd ops" for cd ops
proof (unfold_locales, goal_cases)
  case (1 es b b' fs)
  then show ?case by (rule serial_run_append)
next
  case (2 c c')
  note only = server_mutex.exclusion [OF 2(2)]
  have free: "file_mutex (server c) = None \<Longrightarrow> \<not> serving c t" for t
    using server_mutex.lock_invD [OF 2(2), of t] by auto
  have nobody: "\<not> serving c' u" if "serving c t" "phases c' = (phases c)(t \<mapsto> Ended)" for t u
    using only [OF that(1), of u] that(2) by (auto simp: serving_def split: if_splits)
  from 2(1) show ?case
  proof cases
    case (arrive t cl)
    then have "serving c' u = serving c u" for u by (simp add: serving_def)
    moreover have "served_from cd ops c' u base = served_from cd ops c u base" if "serving c u" for u base
      using that arrive by (intro served_from_same) (auto simp: serving_def)
    ultimately show ?thesis using arrive(1) by (intro disjI1 exI [of _ "[]"]) auto
  next
    case (depart t)
    then have "serving c' u = serving c u" for u by (simp add: serving_def)
    moreover have "served_from cd ops c' u base = served_from cd ops c u base" if "serving c u" for u base
      using that depart by (intro served_from_same) (auto simp: serving_def)
    ultimately show ?thesis using depart(1) by (intro disjI1 exI [of _ "[]"]) auto
  next
    case (lock t cl s)
    then have idle: "\<not> serving c u" for u using free by (auto simp: lock_file_mutex_iff)
    then have "serving c' u \<longleftrightarrow> u = t" for u by (simp add: lock(1) serving_def)
    moreover have "served_from cd ops c' t (server c)"
      using lock(4) by (simp add: lock(1) served_from_def handle_client_def)
    ultimately show ?thesis using idle lock(1) by (intro disjI2 disjI1) simp
  next
    case (receive t cl chunk chunks buf s)
    have t: "serving c t" using receive(3) by (rule serving_phase)
    have same: "serving c' u = serving c u" for u using t by (simp add: receive(1) serving_def)
    have "served_from cd ops c' u base" if "serving c u" "served_from cd ops c u base" for u base
    proof -
      have "u = t" using only [OF that(1) t] .
      then show ?thesis
        using that(2) receive(3,4) client_loop_single [of cd "ops t" t cl chunk chunks buf "server c"]
        by (simp add: receive(1) served_from_def then_more_def del: client_loop.simps)
    qed
    with same t receive(1) show ?thesis by (intro disjI1 exI [of _ "[]"]) auto
  next
    case (finish t cl chunk chunks buf r s)
    have t: "serving c t" using finish(3) by (rule serving_phase)
    have "serial_run cd ops [Client_Done t cl r (sent s)] base = Some s" if "served_from cd ops c t base" for base
      using that finish(3-5) client_loop_single [of cd "ops t" t cl chunk chunks buf "server c"]
      by (simp add: served_from_def then_more_def del: client_loop.simps)
    with t nobody [OF t] finish(1) show ?thesis
      by (intro disjI2 exI [of _ "Client_Done t cl r (sent s)"]) auto
  next
    case (hang_up t cl buf)
    have t: "serving c t" using hang_up(3) by (rule serving_phase)
    have "serial_run cd ops [Client_Done t cl Hung_Up (sent (server c))] base = Some (server c)"
      if "served_from cd ops c t base" for base
      using that hang_up(3) by (simp add: served_from_def)
    with t nobody [OF t] hang_up(1) show ?thesis
      by (intro disjI2 exI [of _ "Client_Done t cl Hung_Up (sent (server c))"]) auto
  next
    case (stamp t ts p s)
    have idle: "\<not> serving c u" for u using free timestamp_turn_mutex [OF stamp(3)] by simp
    then have "\<not> serving c' u" for u by (simp add: stamp(1) serving_def)
    with idle stamp show ?thesis by (intro disjI2 exI [of _ "Stamp_Done t ts p"]) auto
  qed
qed

lemma serialized_steps:
  assumes "(system_step cd ops)\<^sup>*\<^sup>* (starting w) c"
  shows "\<exists>base. serial_run cd ops (history c) (server (starting w)) = Some base \<and>
    ((\<forall>t. \<not> serving c t) \<longrightarrow> server c = base) \<and>
    (\<forall>t cl rem buf. phases c t = Some (Serving cl rem buf) \<longrightarrow>
      handle_client cd (ops t) t cl base = client_loop cd (ops t) t cl rem buf (server c))"
proof -
  have out: "\<not> serving (starting w) t" for t by (simp add: starting_def serving_def)
  have "serial_run cd ops (history (starting w)) (server (starting w)) = Some (server (starting w))"
    by (simp add: starting_def)
  then have "server_sections.replayed cd ops (server (starting w)) (starting w)"
    using out by (rule server_sections.replayed_start)
  from server_sections.replayed_steps [OF assms server_mutex.lock_inv_outside this] out
  have "server_sections.replayed cd ops (server (starting w)) c" by simp
  then obtain base where "serial_run cd ops (history c) (server (starting w)) = Some base"
    "(\<forall>t. \<not> serving c t) \<longrightarrow> server c = base" "\<And>t. serving c t \<Longrightarrow> served_from cd ops c t base"
    unfolding server_sections.replayed_def by blast
  moreover have "served_from cd ops c t base \<Longrightarrow> phases c t = Some (Serving cl rem buf) \<Longrightarrow>
      handle_client cd (ops t) t cl base = client_loop cd (ops t) t cl rem buf (server c)" for t cl rem buf base
    by (simp add: served_from_def)
  ultimately show ?thesis using serving_phase [of c] by blast
qed

section \<open>Properties\<close>

text \<open>
  Mutual exclusion on the data file: at no time, however the threads interleave, do two of them
  stand between the lock and the unlock of \<open>handle_client\<close>.
\<close>

theorem server_mutual_exclusion:
  assumes "(system_step char_device ops)\<^sup>*\<^sup>* (starting w) c" and "serving c t" and "serving c u"
  shows "t = u"
  using server_mutex.exclusion [OF server_lock_inv [OF assms(1)] assms(2,3)] .

text \<open>
  C8. The server serializes: whenever no client is being served, the data file, the mutex and every
  reply are what serving the clients and the timestamps one after the other, each as a whole, in
  the order in which they ended, gives.
\<close>

theorem server_serializable:
  assumes "(system_step char_device ops)\<^sup>*\<^sup>* (starting w) c" and "\<And>t. \<not> serving c t"
  shows "serial_run char_device ops (history c) (server (starting w)) = Some (server c)"
  using serialized_steps [OF assms(1)] assms(2) by auto

text \<open>
  C17. Once a client has hung up without a newline, no client is ever served again.
\<close>

theorem hang_up_is_final:
  assumes "(system_step char_device ops)\<^sup>*\<^sup>* (starting w) c"
    and "Client_Done t cl Hung_Up reply \<in> set (history c)"
  shows "\<not> serving c u"
proof -
  have "(\<exists>t cl reply. Client_Done t cl Hung_Up reply \<in> set (history c)) \<longrightarrow>
      (\<exists>t. file_mutex (server c) = Some t \<and> \<not> serving c t)"
    using assms(1)
  proof (induction rule: rtranclp_induct)
    case base
    then show ?case by (simp add: starting_def)
  next
    case (step c c')
    show ?case
    proof (cases "\<exists>t cl reply. Client_Done t cl Hung_Up reply \<in> set (history c)")
      case True
      then show ?thesis
        using step(3) server_mutex.abandoned_step [OF step(2)] by blast
    next
      case False
      show ?thesis
        using step(2)
      proof cases
        case (hang_up t cl buf)
        have "file_mutex (server c) = Some t"
          using server_mutex.lock_invD [OF server_lock_inv [OF step(1)] serving_phase [OF hang_up(3)]] .
        then show ?thesis by (intro impI exI [of _ t]) (simp add: hang_up(1) serving_def)
      qed (use False in auto)
    qed
  qed
  then obtain t where "file_mutex (server c) = Some t" "\<not> serving c t" using assms(2) by blast
  then show ?thesis
    using server_mutex.lock_invD [OF server_lock_inv [OF assms(1)], of u] by auto
qed

text \<open>Clients that send one line, in one or more chunks.\<close>

definition sends_line :: "client \<Rightarrow> bool" where
  "sends_line cl \<longleftrightarrow> reliable cl \<and> recvs cl \<noteq> [] \<and> plain_chunks (stale cl) (recvs cl) \<and>
     (\<forall>d \<in> set (butlast (recvs cl)). d \<noteq> [] \<and> newline \<notin> set d) \<and> newline \<in> set (last (recvs cl))"

definition line_of :: "event \<Rightarrow> byte list" where
  "line_of e = (case e of Client_Done _ cl _ _ \<Rightarrow> concat (recvs cl) | Stamp_Done _ _ _ \<Rightarrow> [])"

definition lost_fds :: "event \<Rightarrow> nat" where
  "lost_fds e = (case e of Client_Done _ cl _ _ \<Rightarrow> length (recvs cl) - 1 | Stamp_Done _ _ _ \<Rightarrow> 0)"

definition line_event :: "event \<Rightarrow> bool" where
  "line_event e \<longleftrightarrow> (case e of Client_Done _ cl _ _ \<Rightarrow> sends_line cl | Stamp_Done _ _ _ \<Rightarrow> False)"

definition log_after :: "event list \<Rightarrow> cmd_log \<Rightarrow> cmd_log" where
  "log_after es l = foldl (\<lambda>l e. log_write (line_of e) l) l es"

lemma device_line:
  assumes "device_ok mc (data_file s)" and "file_mutex s = None" and line: "sends_line cl"
    and "length (recvs cl) - 1 < free_fds (device_view (data_file s))"
    and "length (concat (recvs cl)) \<le> space (device_view (data_file s))"
  shows "\<exists>w'. handle_client cd (device_ops mc me) me cl s = Some (Inr (Replied, s\<lparr>data_file := w',
      sent := contents (log_write (concat (recvs cl)) (drv_abs (kern (data_file s))))\<rparr>)) \<and>
    device_ok mc w' \<and> drv_abs (kern w') = log_write (concat (recvs cl)) (drv_abs (kern (data_file s))) \<and>
    free_fds (device_view w') = free_fds (device_view (data_file s)) - (length (recvs cl) - 1) \<and>
    space (device_view (data_file s)) \<le> space (device_view w') + length (concat (recvs cl))"
proof -
  let ?l = "drv_abs (kern (data_file s))"
  obtain cs c where cs: "recvs cl = cs @ [c]" using line by (cases "recvs cl" rule: rev_cases) (auto simp: sends_line_def)
  have "\<exists>w'. handle_client cd (device_ops mc me) me cl s = Some (Inr (Replied, s\<lparr>data_file := w',
      sent := contents (log_write (concat cs @ c) (file_data (device_view (data_file s))))\<rparr>)) \<and>
    device_ok mc w' \<and> file_data (device_view w') = log_write (concat cs @ c) (file_data (device_view (data_file s))) \<and>
    free_fds (device_view w') = free_fds (device_view (data_file s)) - length cs"
    using assms cs by (intro device_log.client_replied [where rest = "[]"]) (auto simp: sends_line_def)
  then obtain w' where w': "handle_client cd (device_ops mc me) me cl s = Some (Inr (Replied, s\<lparr>data_file := w',
      sent := contents (log_write (concat (recvs cl)) ?l)\<rparr>))" "device_ok mc w'"
    "drv_abs (kern w') = log_write (concat (recvs cl)) ?l"
    "free_fds (device_view w') = free_fds (device_view (data_file s)) - length cs"
    by (auto simp: cs device_view_def)
  have "stored (kern w') \<le> stored (kern (data_file s)) + length (concat (recvs cl))"
    using log_write_grows [of "concat (recvs cl)" ?l] stored_log [OF device_okD(2) [OF assms(1)]]
      stored_log [OF device_okD(2) [OF w'(2)]] w'(3) by simp
  then have "space (device_view (data_file s)) \<le> space (device_view w') + length (concat (recvs cl))"
    by (simp add: device_view_def)
  with w' cs show ?thesis by auto
qed

text \<open>Every client was replied to, with the log as its line left it.\<close>

fun replies_ok :: "event list \<Rightarrow> cmd_log \<Rightarrow> bool" where
  "replies_ok [] l \<longleftrightarrow> True"
| "replies_ok (e # es) l \<longleftrightarrow>
     (case e of
        Client_Done t cl r reply \<Rightarrow> r = Replied \<and> reply = contents (log_write (line_of e) l)
      | Stamp_Done t ts p \<Rightarrow> True) \<and>
     replies_ok es (log_write (line_of e) l)"

lemma serial_lines:
  assumes "device_ok mc (data_file s)" and "file_mutex s = None"
    and "\<And>e. e \<in> set es \<Longrightarrow> line_event e"
    and "sum_list (map lost_fds es) < free_fds (device_view (data_file s))"
    and "sum_list (map (\<lambda>e. length (line_of e)) es) \<le> space (device_view (data_file s))"
    and "serial_run cd (device_ops mc) es s = Some s'"
  shows "drv_abs (kern (data_file s')) = log_after es (drv_abs (kern (data_file s)))"
    and "replies_ok es (drv_abs (kern (data_file s)))" and "file_mutex s' = None"
    and "device_ok mc (data_file s')"
    and "free_fds (device_view (data_file s')) = free_fds (device_view (data_file s)) - sum_list (map lost_fds es)"
    and "space (device_view (data_file s)) \<le>
      space (device_view (data_file s')) + sum_list (map (\<lambda>e. length (line_of e)) es)"
proof -
  have "drv_abs (kern (data_file s')) = log_after es (drv_abs (kern (data_file s))) \<and>
    replies_ok es (drv_abs (kern (data_file s))) \<and> file_mutex s' = None \<and> device_ok mc (data_file s') \<and>
    free_fds (device_view (data_file s')) = free_fds (device_view (data_file s)) - sum_list (map lost_fds es) \<and>
    space (device_view (data_file s)) \<le>
      space (device_view (data_file s')) + sum_list (map (\<lambda>e. length (line_of e)) es)"
    using assms
  proof (induction es arbitrary: s)
    case Nil
    then show ?case by (simp add: log_after_def)
  next
    case (Cons e es)
    obtain t cl r reply where e: "e = Client_Done t cl r reply" "sends_line cl"
      using Cons.prems(3) [of e] by (cases e) (auto simp: line_event_def)
    have line: "line_of e = concat (recvs cl)" "lost_fds e = length (recvs cl) - 1"
      by (simp_all add: e line_of_def lost_fds_def)
    let ?l = "log_write (line_of e) (drv_abs (kern (data_file s)))"
    let ?size = "sum_list (map (\<lambda>e. length (line_of e)) es)"
    obtain w where w: "handle_client cd (device_ops mc t) t cl s =
        Some (Inr (Replied, s\<lparr>data_file := w, sent := contents ?l\<rparr>))"
      "device_ok mc w" "drv_abs (kern w) = ?l"
      "free_fds (device_view w) = free_fds (device_view (data_file s)) - lost_fds e"
      "space (device_view (data_file s)) \<le> space (device_view w) + length (line_of e)"
      using device_line [OF Cons.prems(1,2) e(2), of cd t] Cons.prems(4,5) line by auto
    let ?s = "s\<lparr>data_file := w, sent := contents ?l\<rparr>"
    have here: "data_file ?s = w" by simp
    have r: "r = Replied" "reply = contents ?l" and rest: "serial_run cd (device_ops mc) es ?s = Some s'"
      using Cons.prems(6) w(1) e(1) by (auto split: if_splits)
    have "length (line_of e) + ?size \<le> space (device_view (data_file s))"
      using Cons.prems(5) by (simp only: list.map sum_list.Cons)
    then have fits: "?size \<le> space (device_view w)" using w(5) by linarith
    have "drv_abs (kern (data_file s')) = log_after es (drv_abs (kern (data_file ?s))) \<and>
        replies_ok es (drv_abs (kern (data_file ?s))) \<and> file_mutex s' = None \<and> device_ok mc (data_file s') \<and>
        free_fds (device_view (data_file s')) =
          free_fds (device_view (data_file ?s)) - sum_list (map lost_fds es) \<and>
        space (device_view (data_file ?s)) \<le> space (device_view (data_file s')) + ?size"
    proof (rule Cons.IH)
      show "device_ok mc (data_file ?s)" "file_mutex ?s = None" using w(2) Cons.prems(2) by simp_all
      show "line_event e'" if "e' \<in> set es" for e' using Cons.prems(3) that by simp
      show "sum_list (map lost_fds es) < free_fds (device_view (data_file ?s))"
        using Cons.prems(4) w(4) by simp
      show "?size \<le> space (device_view (data_file ?s))" unfolding here by (rule fits)
      show "serial_run cd (device_ops mc) es ?s = Some s'" by (rule rest)
    qed
    then have IH: "drv_abs (kern (data_file s')) = log_after es ?l" "replies_ok es ?l" "file_mutex s' = None"
      "device_ok mc (data_file s')"
      "free_fds (device_view (data_file s')) = free_fds (device_view w) - sum_list (map lost_fds es)"
      "space (device_view w) \<le> space (device_view (data_file s')) + ?size"
      unfolding here w(3) by blast+
    have "case e of Client_Done t cl r reply \<Rightarrow> r = Replied \<and> reply = contents ?l | Stamp_Done _ _ _ \<Rightarrow> True"
      unfolding e(1) event.case using r unfolding e(1) by (rule conjI)
    moreover have "space (device_view (data_file s)) \<le>
        space (device_view (data_file s')) + sum_list (map (\<lambda>e. length (line_of e)) (e # es))"
      unfolding list.map sum_list.Cons using w(5) IH(6) by linarith
    moreover have "free_fds (device_view (data_file s')) =
        free_fds (device_view (data_file s)) - sum_list (map lost_fds (e # es))"
      unfolding list.map sum_list.Cons using w(4) IH(5) by linarith
    ultimately show ?case using IH(1-4) by (simp add: log_after_def)
  qed
  then show "drv_abs (kern (data_file s')) = log_after es (drv_abs (kern (data_file s)))"
    and "replies_ok es (drv_abs (kern (data_file s)))" and "file_mutex s' = None"
    and "device_ok mc (data_file s')"
    and "free_fds (device_view (data_file s')) = free_fds (device_view (data_file s)) - sum_list (map lost_fds es)"
    and "space (device_view (data_file s)) \<le>
      space (device_view (data_file s')) + sum_list (map (\<lambda>e. length (line_of e)) es)"
    by blast+
qed

text \<open>A client that is being served, with room for its line after those of the history.\<close>

lemma device_serving:
  assumes "(system_step cd (device_ops mc))\<^sup>*\<^sup>* (starting w) c" and "device_ok mc w"
    and "\<And>e. e \<in> set (history c) \<Longrightarrow> line_event e"
    and t: "phases c t = Some (Serving cl rem buf)" and line: "sends_line cl"
    and "sum_list (map lost_fds (history c)) + (length (recvs cl) - 1) < free_fds (device_view w)"
    and "sum_list (map (\<lambda>e. length (line_of e)) (history c)) + length (concat (recvs cl)) \<le> space (device_view w)"
  shows "\<exists>s'. client_loop cd (device_ops mc t) t cl rem buf (server c) = Some (Inr (Replied, s'))"
proof -
  obtain base where base: "serial_run cd (device_ops mc) (history c) (server (starting w)) = Some base"
    "handle_client cd (device_ops mc t) t cl base = client_loop cd (device_ops mc t) t cl rem buf (server c)"
    using serialized_steps [OF assms(1)] t by blast
  have start: "data_file (server (starting w)) = w" "file_mutex (server (starting w)) = None"
    by (simp_all add: starting_def)
  have "sum_list (map lost_fds (history c)) < free_fds (device_view w)"
    "sum_list (map (\<lambda>e. length (line_of e)) (history c)) \<le> space (device_view w)"
    using assms(6,7) by linarith+
  note run = serial_lines [of mc "server (starting w)", unfolded start, OF assms(2) refl assms(3) this base(1)]
  have "length (recvs cl) - 1 < free_fds (device_view (data_file base))"
    "length (concat (recvs cl)) \<le> space (device_view (data_file base))"
    using run(5,6) assms(6,7) by linarith+
  from device_line [OF run(4,3) line this, of cd t] show ?thesis using base(2) by auto
qed

text \<open>
  C1. Clients at once, in any interleaving of their threads, each with one line in one or more chunks
  (not a seek command, newline in the last chunk only) and each taking its reply. Premises: every
  client that has ended is such a client; the descriptors lost to their lines, one for every chunk
  but the last, are fewer than the free ones; the ring has room for their lines; in the driver every
  allocation succeeds, \<open>krealloc\<close> moves no block and no signal interrupts the mutex. Then, whenever
  none is being served, the device holds the lines of those that have ended, each whole, in the
  order in which they ended (the last ten of them), each got as its reply the contents of the device
  up to and including its own line, and \<open>file_mutex\<close> is free.
\<close>

theorem concurrent_clients:
  assumes "(system_step char_device (device_ops mc))\<^sup>*\<^sup>* (starting w) c" and "\<And>t. \<not> serving c t"
    and "device_ok mc w" and "\<And>e. e \<in> set (history c) \<Longrightarrow> line_event e"
    and "sum_list (map lost_fds (history c)) < free_fds (device_view w)"
    and "sum_list (map (\<lambda>e. length (line_of e)) (history c)) \<le> space (device_view w)"
  shows "drv_abs (kern (data_file (server c))) = log_after (history c) (drv_abs (kern w)) \<and>
    replies_ok (history c) (drv_abs (kern w)) \<and> file_mutex (server c) = None"
proof -
  have "serial_run char_device (device_ops mc) (history c) (server (starting w)) = Some (server c)"
    using serialized_steps [OF assms(1)] assms(2) by auto
  note run = serial_lines [OF _ _ assms(4) _ _ this]
  show ?thesis
    using run(1-3) assms(3,5,6) by (simp add: starting_def)
qed

section \<open>An example\<close>

text \<open>The example device with one client: waiting, being served, and gone without a word.\<close>

abbreviation (input) example_start :: "device system" where
  "example_start \<equiv> starting (data_file example_server)"

abbreviation (input) example_step :: "device system \<Rightarrow> device system \<Rightarrow> bool" where
  "example_step \<equiv> system_step True (device_ops example_machine)"

definition example_served :: "client \<Rightarrow> device system" where
  "example_served cl = example_start\<lparr>server := example_server\<lparr>file_mutex := Some 1\<rparr>,
     phases := [1 \<mapsto> Serving cl (recvs cl) (stale cl)]\<rparr>"

definition example_gone :: "device system" where
  "example_gone = (example_served (example_client []))\<lparr>phases := [1 \<mapsto> Ended],
     history := [Client_Done 1 (example_client []) Hung_Up []]\<rparr>"

lemma example_served_reachable: "example_step\<^sup>*\<^sup>* example_start (example_served cl)"
proof -
  let ?c = "example_start\<lparr>phases := [1 \<mapsto> Waiting cl]\<rparr>"
  have "example_step example_start (example_start\<lparr>phases := (phases example_start)(1 \<mapsto> Waiting cl)\<rparr>)"
    by (rule arrive) (simp_all add: starting_def)
  then have 1: "example_step example_start ?c" by (simp add: starting_def)
  have "example_step ?c (?c\<lparr>server := ((server ?c)\<lparr>file_mutex := Some 1\<rparr>)\<lparr>sent := []\<rparr>,
      phases := (phases ?c)(1 \<mapsto> Serving cl (recvs cl) (stale cl))\<rparr>)"
    by (rule lock) (simp_all add: starting_def lock_file_mutex_def)
  then have 2: "example_step ?c (example_served cl)"
    by (simp add: starting_def example_server_def example_served_def)
  show ?thesis using r_into_rtranclp [of example_step, OF 1] 2 by (rule rtranclp.rtrancl_into_rtrancl)
qed

lemma example_gone_reachable: "example_step\<^sup>*\<^sup>* example_start example_gone"
proof -
  let ?cl = "example_client []" and ?c = "example_served (example_client [])"
  have "example_step ?c (?c\<lparr>phases := (phases ?c)(1 \<mapsto> Ended),
      history := history ?c @ [Client_Done 1 ?cl Hung_Up (sent (server ?c))]\<rparr>)"
    by (rule hang_up) (simp_all add: example_served_def starting_def)
  then have "example_step ?c example_gone"
    by (simp add: example_gone_def example_served_def starting_def example_server_def)
  with example_served_reachable show ?thesis by (rule rtranclp.rtrancl_into_rtrancl)
qed

lemma server_mutual_exclusion_witness:
  "serving (example_served (example_client [])) 1 \<and> \<not> serving (example_served (example_client [])) 2"
proof -
  have "serving (example_served (example_client [])) 1"
    by (simp add: example_served_def serving_def)
  with server_mutual_exclusion [OF example_served_reachable this, of 2] show ?thesis by auto
qed

lemma server_serializable_witness:
  "serial_run True (device_ops example_machine) [Client_Done 1 (example_client []) Hung_Up []]
     (server example_start) = Some (server example_gone)"
proof -
  have "\<not> serving example_gone t" for t by (simp add: example_gone_def serving_def)
  from server_serializable [OF example_gone_reachable this] show ?thesis
    by (simp add: example_gone_def)
qed

lemma hang_up_is_final_witness: "\<not> serving example_gone 2"
  by (rule hang_up_is_final [OF example_gone_reachable, of 1 "example_client []" "[]"])
    (simp add: example_gone_def)

lemma concurrent_clients_witness:
  "\<exists>c. example_step\<^sup>*\<^sup>* example_start c \<and>
    drv_abs (kern (data_file (server c))) =
      \<lparr>cmds = [''ab'' @ [newline], ''cde'' @ [newline], ''hi'' @ [newline]], pending = []\<rparr> \<and>
    file_mutex (server c) = None"
proof -
  let ?cl = "example_client [''hi'' @ [newline]]" and ?ops = "device_ops example_machine"
  let ?c = "example_served ?cl"
  have line: "sends_line ?cl" by (simp add: sends_line_def recv_into_def seek_prefix_def)
  have size: "length (concat (recvs ?cl)) \<le> space (device_view (data_file example_server))"
    by (simp add: example_server_view)
  have room: "length (recvs ?cl) - 1 < free_fds (device_view (data_file example_server))"
    by (simp add: example_server_view)
  have "file_mutex example_server = None" by (simp add: example_server_def)
  from device_line [OF example_server_ok this line room size] obtain w reply where
    "handle_client True (?ops 1) 1 ?cl example_server = Some (Inr (Replied,
      example_server\<lparr>data_file := w, sent := reply\<rparr>))" by blast
  then have loop: "client_loop True (?ops 1) 1 ?cl [''hi'' @ [newline]] (stale ?cl) (server ?c) = Some (Inr (Replied,
      example_server\<lparr>data_file := w, sent := reply\<rparr>))"
    by (simp add: handle_client_def lock_file_mutex_def example_server_def example_served_def del: client_loop.simps)
  let ?s = "example_server\<lparr>data_file := w, sent := reply\<rparr>"
  let ?d = "?c\<lparr>server := ?s, phases := (phases ?c)(1 \<mapsto> Ended),
      history := history ?c @ [Client_Done 1 ?cl Replied (sent ?s)], alive := (Replied = Replied)\<rparr>"
  have "example_step ?c ?d"
    by (rule finish [where ops = ?ops and t = 1 and chunks = "[]", OF _ _ loop])
      (simp_all add: example_served_def starting_def)
  with example_served_reachable have reach: "example_step\<^sup>*\<^sup>* example_start ?d"
    by (rule rtranclp.rtrancl_into_rtrancl)
  have hist: "history ?d = [Client_Done 1 ?cl Replied reply]"
    by (simp add: example_served_def starting_def)
  have idle: "\<not> serving ?d t" for t by (simp add: example_served_def serving_def)
  have "drv_abs (kern (data_file (server ?d))) = log_after (history ?d) (drv_abs (kern (data_file example_server))) \<and>
      replies_ok (history ?d) (drv_abs (kern (data_file example_server))) \<and> file_mutex (server ?d) = None"
  proof (rule concurrent_clients [OF reach idle example_server_ok])
    show "line_event e" if "e \<in> set (history ?d)" for e
      using that line unfolding hist by (simp add: line_event_def)
  qed (unfold hist, use size room in \<open>simp_all add: lost_fds_def line_of_def\<close>)
  moreover have "log_after (history ?d) (drv_abs (kern (data_file example_server))) =
      \<lparr>cmds = [''ab'' @ [newline], ''cde'' @ [newline], ''hi'' @ [newline]], pending = []\<rparr>"
    unfolding hist by (simp add: log_after_def line_of_def example_server_def example_abs log_write_def)
  ultimately show ?thesis using reach by metis
qed

end
