(* ===== verification/Server_Main.thy ===== *)
theory Server_Main imports Main Thread_List begin

text \<open>
  The process around the clients in \<^verbatim>\<open>server/aesdsocket.c\<close>: \<open>main\<close> from its arguments to its exit
  status, with \<open>daemonize\<close>, the signal handler, the loop over \<open>accept\<close>, the blocks of arguments
  handed to the threads, and the way out through \<open>join_threads\<close> and \<open>cleanup\<close>. What the operating
  system answers is a parameter; what happens beside \<open>main\<close>, signals and the ends of threads, is a
  list of events: while it waits in \<open>accept\<close>, between \<open>pthread_create\<close> and \<open>add_thread\<close>, and between
  \<open>add_thread\<close> and the test of \<open>running\<close>. What a thread does between its start and its end is in
  \<open>Aesd_Socket\<close> and \<open>Server_Threads\<close>.

  In this theory no two operations on the list overlap: a thread that ends does so before or after an
  \<open>add_thread\<close>, not in the middle of it. \<open>Server_Program\<close> has the single accesses.
\<close>

section \<open>State\<close>

record ThreadArgs =
  client_socket :: "int option" \<comment> \<open>never assigned for the timestamp thread\<close>
  server_socket :: int

text \<open>What leaves the process, in order.\<close>

datatype action = Shut_Down int | Closed int | Unlinked_Data | Joined tid

record process =
  running :: bool
  threads :: thread_list
  args_heap :: "ptr \<rightharpoonup> ThreadArgs"
  live_threads :: "tid \<rightharpoonup> ptr" \<comment> \<open>the threads that have not ended, with their arguments\<close>
  created :: "tid set" \<comment> \<open>the threads there have been, none of which has been joined\<close>
  actions :: "action list"

text \<open>
  The operating system: the results of the calls of the start, an address for a new block (or
  \<open>NULL\<close>), the identifier of a new thread (or none), which is that of no thread that has not been
  joined, ended or not. \<open>stack_tid\<close> is what stands in a \<open>pthread_t\<close> that nobody has assigned.
\<close>

record os =
  sigaction_fails :: bool
  socket_ret :: int
  setsockopt_ret :: int
  bind_ret :: int
  listen_ret :: int
  fork_ret :: int
  setsid_ret :: int
  new_args :: "(ptr \<rightharpoonup> ThreadArgs) \<Rightarrow> ptr"
  new_node :: "(ptr \<rightharpoonup> ThreadNode) \<Rightarrow> ptr"
  new_thread :: "tid set \<Rightarrow> tid option"
  stack_tid :: tid

text \<open>What memory and thread identifiers promise, when there are some left.\<close>

definition os_ok :: "os \<Rightarrow> bool" where
  "os_ok os \<longleftrightarrow>
     (\<forall>h. finite (dom h) \<longrightarrow> new_args os h \<noteq> NULL \<and> new_args os h \<notin> dom h) \<and>
     (\<forall>h. finite (dom h) \<longrightarrow> new_node os h \<noteq> NULL \<and> new_node os h \<notin> dom h) \<and>
     (\<forall>a t. new_thread os a = Some t \<longrightarrow> t \<notin> a)"

section \<open>Signals, the way out, and the daemon\<close>

abbreviation (input) SIGINT :: int where "SIGINT \<equiv> 2"
abbreviation (input) SIGTERM :: int where "SIGTERM \<equiv> 15"

definition signal_handler :: "int \<Rightarrow> process \<Rightarrow> process" where
  "signal_handler signo s = (if signo = SIGINT \<or> signo = SIGTERM then s\<lparr>running := False\<rparr> else s)"

definition exit_server :: "bool \<Rightarrow> int \<Rightarrow> process \<Rightarrow> unit proc \<times> process" where
  "exit_server char_device sock s =
     (Exits 0, s\<lparr>actions := actions s @ [Shut_Down sock, Closed sock] @
        (if char_device then [] else [Unlinked_Data])\<rparr>)"

definition daemonize :: "os \<Rightarrow> process \<Rightarrow> unit proc \<times> process" where
  "daemonize os s =
     (if fork_ret os < 0 then (Exits 1, s)
      else if fork_ret os > 0 then (Exits 0, s)
      else if setsid_ret os < 0 then (Exits 1, s)
      else (Continues (), s\<lparr>actions := actions s @ [Closed 0, Closed 1, Closed 2]\<rparr>))"

section \<open>The start\<close>

definition daemon_mode :: "byte list list \<Rightarrow> bool" where
  "daemon_mode argv \<longleftrightarrow> length argv > 1 \<and> argv ! 1 = ''-d''"

definition server_startup :: "bool \<Rightarrow> os \<Rightarrow> byte list list \<Rightarrow> process \<Rightarrow> unit proc \<times> process" where
  "server_startup char_device os argv s =
     (if sigaction_fails os then (Exits 1, s)
      else if socket_ret os = -1 then exit_server char_device (socket_ret os) s
      else if setsockopt_ret os < 0 then exit_server char_device (socket_ret os) s
      else if bind_ret os = -1 then exit_server char_device (socket_ret os) s
      else if listen_ret os = -1 then exit_server char_device (socket_ret os) s
      else if daemon_mode argv then daemonize os s
      else (Continues (), s))"

section \<open>Threads\<close>

text \<open>\<open>pthread_create\<close> with the block \<open>p\<close> of arguments, and \<open>add_thread\<close>.\<close>

definition create_thread :: "os \<Rightarrow> ptr \<Rightarrow> process \<Rightarrow> tid option \<times> process" where
  "create_thread os p s =
     (case new_thread os (created s) of
        None \<Rightarrow> (None, s)
      | Some t \<Rightarrow> (Some t, s\<lparr>live_threads := (live_threads s)(t \<mapsto> p), created := insert t (created s)\<rparr>))"

definition enlist :: "os \<Rightarrow> tid \<Rightarrow> process \<Rightarrow> unit proc \<times> process" where
  "enlist os t s =
     (case add_thread (new_node os (nodes (threads s))) t (threads s) of
        Exits n \<Rightarrow> (Exits n, s)
      | Continues l \<Rightarrow> (Continues (), s\<lparr>threads := l\<rparr>))"

text \<open>The end of a thread: it takes itself off the list and frees its arguments.\<close>

definition thread_end :: "tid \<Rightarrow> ptr \<Rightarrow> process \<Rightarrow> process outcome option" where
  "thread_end t p s =
     (case self_removal t (threads s) of
        None \<Rightarrow> None
      | Some (Inl e) \<Rightarrow> Some (Inl e)
      | Some (Inr l) \<Rightarrow>
          if args_heap s p = None then Some (Inl Bad_Free)
          else Some (Inr (s\<lparr>threads := l, args_heap := (args_heap s)(p := None),
                 live_threads := (live_threads s)(t := None)\<rparr>)))"

text \<open>What happens beside \<open>main\<close>. A signal does not interrupt it here (another thread takes it).\<close>

datatype thread_event = Caught int | Thread_Ends tid

fun happens :: "thread_event list \<Rightarrow> process \<Rightarrow> process outcome option" where
  "happens [] s = Some (Inr s)"
| "happens (Caught signo # es) s = happens es (signal_handler signo s)"
| "happens (Thread_Ends t # es) s =
     (case live_threads s t of
        None \<Rightarrow> happens es s
      | Some p \<Rightarrow>
          (case thread_end t p s of
             None \<Rightarrow> None
           | Some (Inl e) \<Rightarrow> Some (Inl e)
           | Some (Inr s1) \<Rightarrow> happens es s1))"

text \<open>
  The timestamp thread. The block of its arguments is allocated in both builds, the thread only in
  the one without the character device. When the thread cannot be created \<open>main\<close> goes on and puts
  the unassigned \<open>timestamp_tid\<close> on the list. \<open>es\<close> happens before the thread is put there.
\<close>

definition start_timer ::
  "bool \<Rightarrow> os \<Rightarrow> int \<Rightarrow> thread_event list \<Rightarrow> process \<Rightarrow> (unit proc \<times> process) outcome option" where
  "start_timer char_device os sock es s =
     (let p = new_args os (args_heap s) in
      if p = NULL then Some (Inl Null_Deref)
      else
        let s1 = s\<lparr>args_heap := (args_heap s)(p \<mapsto> \<lparr>client_socket = None, server_socket = sock\<rparr>)\<rparr> in
        if char_device then Some (Inr (Continues (), s1))
        else
          (let (created_tid, s2) = create_thread os p s1 in
           case happens es s2 of
             None \<Rightarrow> None
           | Some (Inl e) \<Rightarrow> Some (Inl e)
           | Some (Inr s3) \<Rightarrow>
               Some (Inr (enlist os (case created_tid of None \<Rightarrow> stack_tid os | Some t \<Rightarrow> t) s3))))"

section \<open>The loop over accept\<close>

text \<open>
  A connection \<open>c\<close>: its block of arguments, its thread, what happens before the thread is on the list
  (it may have ended by then), and the entry.
\<close>

definition serve_connection ::
  "os \<Rightarrow> int \<Rightarrow> int \<Rightarrow> thread_event list \<Rightarrow> process \<Rightarrow> (unit proc \<times> process) outcome option" where
  "serve_connection os sock c es s =
     (let p = new_args os (args_heap s) in
      if p = NULL then Some (Inl Null_Deref)
      else
        let s1 = s\<lparr>args_heap := (args_heap s)(p \<mapsto> \<lparr>client_socket = Some c, server_socket = sock\<rparr>)\<rparr>;
            (created_tid, s2) = create_thread os p s1 in
        (case happens es s2 of
           None \<Rightarrow> None
         | Some (Inl e) \<Rightarrow> Some (Inl e)
         | Some (Inr s3) \<Rightarrow>
             (case created_tid of
                None \<Rightarrow> Some (Inr (Continues (), s3\<lparr>actions := actions s3 @ [Closed c]\<rparr>))
              | Some t \<Rightarrow> Some (Inr (enlist os t s3)))))"

text \<open>After the loop. \<open>meanwhile\<close> is what the threads do to the list while they are waited for.\<close>

definition shut_down ::
  "(tid \<Rightarrow> thread_list \<Rightarrow> thread_list outcome option) \<Rightarrow> bool \<Rightarrow> int \<Rightarrow> process \<Rightarrow>
   (unit proc \<times> process) outcome option" where
  "shut_down meanwhile char_device sock s =
     (case join_threads meanwhile (threads s) of
        None \<Rightarrow> None
      | Some (Inl e) \<Rightarrow> Some (Inl e)
      | Some (Inr (l, joined)) \<Rightarrow>
          Some (Inr (exit_server char_device sock
            (s\<lparr>threads := l, actions := actions s @ map Joined joined\<rparr>))))"

text \<open>
  What comes to \<open>main\<close> in \<open>accept\<close>: an event beside it, the return of -1 (also when a signal
  interrupts), a connection. \<open>Accepted c before after\<close> has what happens between \<open>pthread_create\<close> and
  \<open>add_thread\<close>, and what happens between \<open>add_thread\<close> and the test of \<open>running\<close>, or the first line of
  \<open>join_threads\<close> behind it. With no more events \<open>main\<close> waits.
\<close>

datatype main_event = Meanwhile thread_event | Accept_Error | Accepted int "thread_event list" "thread_event list"

fun accept_loop ::
  "(tid \<Rightarrow> thread_list \<Rightarrow> thread_list outcome option) \<Rightarrow> bool \<Rightarrow> os \<Rightarrow> int \<Rightarrow> main_event list \<Rightarrow> process \<Rightarrow>
   (unit proc \<times> process) outcome option" where
  "accept_loop meanwhile char_device os sock [] s = Some (Inr (Continues (), s))"
| "accept_loop meanwhile char_device os sock (Meanwhile e # es) s =
     (case happens [e] s of
        None \<Rightarrow> None
      | Some (Inl f) \<Rightarrow> Some (Inl f)
      | Some (Inr s1) \<Rightarrow> accept_loop meanwhile char_device os sock es s1)"
| "accept_loop meanwhile char_device os sock (Accept_Error # es) s = Some (Inr (exit_server char_device sock s))"
| "accept_loop meanwhile char_device os sock (Accepted c before after # es) s =
     (case serve_connection os sock c before s of
        None \<Rightarrow> None
      | Some (Inl e) \<Rightarrow> Some (Inl e)
      | Some (Inr (Exits n, s1)) \<Rightarrow> Some (Inr (Exits n, s1))
      | Some (Inr (Continues _, s1)) \<Rightarrow>
          (case happens after s1 of
             None \<Rightarrow> None
           | Some (Inl e) \<Rightarrow> Some (Inl e)
           | Some (Inr s2) \<Rightarrow>
               if running s2 then accept_loop meanwhile char_device os sock es s2
               else shut_down meanwhile char_device sock s2))"

definition server_main ::
  "(tid \<Rightarrow> thread_list \<Rightarrow> thread_list outcome option) \<Rightarrow> bool \<Rightarrow> os \<Rightarrow> byte list list \<Rightarrow>
   thread_event list \<Rightarrow> main_event list \<Rightarrow> process \<Rightarrow> (unit proc \<times> process) outcome option" where
  "server_main meanwhile char_device os argv first es s =
     (case server_startup char_device os argv s of
        (Exits n, s1) \<Rightarrow> Some (Inr (Exits n, s1))
      | (Continues _, s1) \<Rightarrow>
          (case start_timer char_device os (socket_ret os) first s1 of
             None \<Rightarrow> None
           | Some (Inl e) \<Rightarrow> Some (Inl e)
           | Some (Inr (Exits n, s2)) \<Rightarrow> Some (Inr (Exits n, s2))
           | Some (Inr (Continues _, s2)) \<Rightarrow>
               if running s2 then accept_loop meanwhile char_device os (socket_ret os) es s2
               else shut_down meanwhile char_device (socket_ret os) s2))"

definition initial_process :: process where
  "initial_process =
     \<lparr>running = True, threads = \<lparr>nodes = (\<lambda>_. None), head = NULL\<rparr>, args_heap = (\<lambda>_. None),
      live_threads = (\<lambda>_. None), created = {}, actions = []\<rparr>"

section \<open>Invariant\<close>

text \<open>
  Every thread that has not ended is on the list, once, or is one of \<open>P\<close>, which \<open>main\<close> has created and
  not put there yet, and has a block of arguments of its own. A thread on the list may have ended:
  it did so before it was put there.
\<close>

definition main_inv :: "process \<Rightarrow> (ptr \<times> tid) list \<Rightarrow> tid set \<Rightarrow> bool" where
  "main_inv s xs P \<longleftrightarrow>
     list_inv (threads s) xs \<and> distinct (map snd xs) \<and>
     dom (live_threads s) \<subseteq> snd ` set xs \<union> P \<and> snd ` set xs \<union> P \<subseteq> created s \<and> P \<inter> snd ` set xs = {} \<and>
     ran (live_threads s) \<subseteq> dom (args_heap s) \<and> inj_on (live_threads s) (dom (live_threads s)) \<and>
     finite (dom (args_heap s)) \<and> finite (created s)"

text \<open>Blocks of arguments that no thread will free.\<close>

definition lost_args :: "process \<Rightarrow> ptr set" where
  "lost_args s = dom (args_heap s) - ran (live_threads s)"

lemma main_invD:
  assumes "main_inv s xs P"
  shows "list_inv (threads s) xs" "distinct (map snd xs)" "dom (live_threads s) \<subseteq> snd ` set xs \<union> P"
    "ran (live_threads s) \<subseteq> dom (args_heap s)" "inj_on (live_threads s) (dom (live_threads s))"
    "finite (dom (args_heap s))" "finite (dom (nodes (threads s)))" "snd ` set xs \<union> P \<subseteq> created s"
    "P \<inter> snd ` set xs = {}" "finite (created s)" "dom (live_threads s) \<subseteq> created s"
proof -
  have "dom (nodes (threads s)) = fst ` set xs" using assms unfolding main_inv_def list_inv_def by (elim conjE)
  then show "finite (dom (nodes (threads s)))" by simp
  have "dom (live_threads s) \<subseteq> snd ` set xs \<union> P" "snd ` set xs \<union> P \<subseteq> created s"
    by (insert assms, unfold main_inv_def, (elim conjE, assumption)+)
  then show "dom (live_threads s) \<subseteq> created s" by (rule subset_trans)
qed (insert assms, unfold main_inv_def, (elim conjE, assumption)+)

lemma os_okD:
  assumes "os_ok os"
  shows "finite (dom h) \<Longrightarrow> new_args os h \<noteq> NULL" "finite (dom h) \<Longrightarrow> new_args os h \<notin> dom h"
    "finite (dom g) \<Longrightarrow> new_node os g \<noteq> NULL" "finite (dom g) \<Longrightarrow> g (new_node os g) = None"
    "new_thread os a = Some t \<Longrightarrow> t \<notin> a"
  using assms by (auto simp: os_ok_def)

lemma initial_inv: "main_inv initial_process [] {}"
  by (simp add: main_inv_def initial_process_def list_inv_def)

lemma inv_new_block:
  assumes "main_inv s xs P" and "p \<notin> dom (args_heap s)"
  shows "main_inv (s\<lparr>args_heap := (args_heap s)(p \<mapsto> a)\<rparr>) xs P"
    and "lost_args (s\<lparr>args_heap := (args_heap s)(p \<mapsto> a)\<rparr>) = insert p (lost_args s)"
proof -
  have "p \<notin> ran (live_threads s)" using main_invD(4) [OF assms(1)] assms(2) by auto
  then show "lost_args (s\<lparr>args_heap := (args_heap s)(p \<mapsto> a)\<rparr>) = insert p (lost_args s)"
    by (auto simp: lost_args_def)
  show "main_inv (s\<lparr>args_heap := (args_heap s)(p \<mapsto> a)\<rparr>) xs P"
    using assms(1) by (auto simp: main_inv_def)
qed

lemma inv_created:
  assumes "os_ok os" and "main_inv s xs {}" and "p \<in> lost_args s" and "new_thread os (created s) = Some t"
  defines "s1 \<equiv> s\<lparr>live_threads := (live_threads s)(t \<mapsto> p), created := insert t (created s)\<rparr>"
  shows "create_thread os p s = (Some t, s1)" and "main_inv s1 xs {t}" and "lost_args s1 = lost_args s - {p}"
    and "t \<notin> dom (live_threads s)" and "t \<notin> snd ` set xs"
proof -
  note inv = main_invD [OF assms(2)]
  have t: "t \<notin> created s" using os_okD(5) [OF assms(1,4)] .
  then show new: "t \<notin> dom (live_threads s)" and "t \<notin> snd ` set xs" using inv(8,11) by blast+
  let ?live = "(live_threads s)(t \<mapsto> p)"
  have p: "p \<in> dom (args_heap s)" "p \<notin> ran (live_threads s)" using assms(3) by (auto simp: lost_args_def)
  have ran: "ran ?live = insert p (ran (live_threads s))" using new by (intro ran_map_upd) auto
  have "inj_on ?live (dom ?live)" using inv(5) p(2) by (auto simp: inj_on_def ran_def)
  then show "main_inv s1 xs {t}"
    using inv t p(1) ran by (auto simp: main_inv_def s1_def)
  show "lost_args s1 = lost_args s - {p}" using ran by (auto simp: lost_args_def s1_def)
  show "create_thread os p s = (Some t, s1)" using assms(4) by (simp add: create_thread_def s1_def)
qed

lemma inv_enlist:
  assumes "os_ok os" and "main_inv s xs {t}"
  shows "\<exists>l a. enlist os t s = (Continues (), s\<lparr>threads := l\<rparr>) \<and> main_inv (s\<lparr>threads := l\<rparr>) ((a, t) # xs) {}"
proof -
  note inv = main_invD [OF assms(2)]
  let ?a = "new_node os (nodes (threads s))"
  have "?a \<noteq> NULL" "nodes (threads s) ?a = None"
    using os_okD(3,4) [OF assms(1) inv(7)] by simp_all
  from add_thread_aux [OF inv(1) this(2,1), of t] obtain l where
    "add_thread ?a t (threads s) = Continues l" "list_inv l ((?a, t) # xs)" by blast
  with inv show ?thesis
    by (intro exI [of _ l] exI [of _ ?a]) (auto simp: enlist_def main_inv_def)
qed

lemma finite_lost: "main_inv s xs P \<Longrightarrow> finite (lost_args s)"
  using main_invD(6) by (auto simp: lost_args_def)

lemma main_inv_fields [simp]:
  "main_inv (s\<lparr>running := b\<rparr>) xs P = main_inv s xs P" "lost_args (s\<lparr>running := b\<rparr>) = lost_args s"
  "main_inv (s\<lparr>actions := as\<rparr>) xs P = main_inv s xs P" "lost_args (s\<lparr>actions := as\<rparr>) = lost_args s"
  by (simp_all add: main_inv_def lost_args_def)

section \<open>What happens beside main\<close>

definition ended :: "thread_event list \<Rightarrow> tid set" where
  "ended es = {t. Thread_Ends t \<in> set es}"

definition stops :: "thread_event list \<Rightarrow> bool" where
  "stops es \<longleftrightarrow> Caught SIGINT \<in> set es \<or> Caught SIGTERM \<in> set es"

lemma event_simps [simp]:
  "ended [] = {}" "ended (Caught n # es) = ended es" "ended (Thread_Ends t # es) = insert t (ended es)"
  "stops [] \<longleftrightarrow> False" "stops (Caught n # es) \<longleftrightarrow> n = SIGINT \<or> n = SIGTERM \<or> stops es"
  "stops (Thread_Ends t # es) \<longleftrightarrow> stops es"
  by (auto simp: ended_def stops_def)

lemma thread_end_inv:
  assumes "main_inv s xs P" and "live_threads s t = Some p"
  shows "\<exists>s'. thread_end t p s = Some (Inr s') \<and> main_inv s' (filter (\<lambda>x. snd x \<noteq> t) xs) P \<and>
    running s' = running s \<and> actions s' = actions s \<and> lost_args s' = lost_args s \<and> created s' = created s \<and>
    live_threads s' = (live_threads s)(t := None)"
proof -
  note inv = main_invD [OF assms(1)]
  let ?xs = "filter (\<lambda>x. snd x \<noteq> t) xs"
  obtain l where l: "self_removal t (threads s) = Some (Inr l)" "list_inv l ?xs"
    using remove_thread_aux [OF inv(1), of t] without_filter [OF inv(2)] by (auto simp: self_removal_def)
  let ?live = "(live_threads s)(t := None)" and ?args = "(args_heap s)(p := None)"
  let ?s = "s\<lparr>threads := l, args_heap := ?args, live_threads := ?live\<rparr>"
  have pr: "p \<in> ran (live_threads s)" using assms(2) by (rule ranI)
  then have p: "args_heap s p \<noteq> None" using inv(4) by auto
  have ran: "ran ?live = ran (live_threads s) - {p}"
  proof (intro set_eqI iffI)
    fix x assume "x \<in> ran ?live"
    then obtain u where "u \<noteq> t" "live_threads s u = Some x" by (auto simp: ran_def split: if_splits)
    then show "x \<in> ran (live_threads s) - {p}"
      using inj_onD [OF inv(5), of u t] assms(2) by (auto simp: ran_def)
  next
    fix x assume "x \<in> ran (live_threads s) - {p}"
    then obtain u where "live_threads s u = Some x" "x \<noteq> p" by (auto simp: ran_def)
    then show "x \<in> ran ?live" using assms(2) by (intro ranI [of _ u]) auto
  qed
  have "inj_on ?live (dom ?live)" using inv(5) by (auto simp: inj_on_def)
  moreover have "distinct (map snd ?xs)" using inv(2) by (simp add: distinct_map_filter)
  ultimately have "main_inv ?s ?xs P"
    using l(2) inv ran by (auto simp: main_inv_def)
  moreover have "lost_args ?s = lost_args s"
    using ran pr by (auto simp: lost_args_def)
  ultimately show ?thesis
    using l(1) p by (intro exI [of _ ?s]) (auto simp: thread_end_def)
qed

text \<open>Exactly the threads that end and have not ended before leave the list, the others keep their order.\<close>

lemma happens_inv:
  assumes "main_inv s xs P"
  shows "\<exists>s'. happens es s = Some (Inr s') \<and>
    main_inv s' (filter (\<lambda>x. snd x \<notin> dom (live_threads s) \<inter> ended es) xs) P \<and>
    running s' = (running s \<and> \<not> stops es) \<and> actions s' = actions s \<and> lost_args s' = lost_args s \<and>
    created s' = created s \<and> dom (live_threads s') = dom (live_threads s) - ended es"
  using assms
proof (induction es arbitrary: s xs)
  case Nil
  then show ?case by simp
next
  case (Cons e es)
  show ?case
  proof (cases e)
    case (Caught n)
    have "main_inv (signal_handler n s) xs P" using Cons.prems by (simp add: signal_handler_def)
    from Cons.IH [OF this] Caught show ?thesis by (auto simp: signal_handler_def)
  next
    case (Thread_Ends t)
    show ?thesis
    proof (cases "live_threads s t")
      case None
      then have "filter (\<lambda>x. snd x \<notin> dom (live_threads s) \<inter> ended (e # es)) xs =
          filter (\<lambda>x. snd x \<notin> dom (live_threads s) \<inter> ended es) xs"
        by (intro filter_cong) (auto simp: Thread_Ends)
      with Cons.IH [OF Cons.prems] None Thread_Ends show ?thesis by auto
    next
      case (Some p)
      obtain s1 where s1: "thread_end t p s = Some (Inr s1)" "main_inv s1 (filter (\<lambda>x. snd x \<noteq> t) xs) P"
        "running s1 = running s" "actions s1 = actions s" "lost_args s1 = lost_args s" "created s1 = created s"
        "live_threads s1 = (live_threads s)(t := None)"
        using thread_end_inv [OF Cons.prems Some] by blast
      have "filter (\<lambda>x. snd x \<notin> dom (live_threads s1) \<inter> ended es) (filter (\<lambda>x. snd x \<noteq> t) xs) =
          filter (\<lambda>x. snd x \<notin> dom (live_threads s) \<inter> ended (e # es)) xs"
        using Some unfolding filter_filter by (intro filter_cong) (auto simp: Thread_Ends s1(7))
      moreover have "dom (live_threads s1) - ended es = dom (live_threads s) - ended (e # es)"
        by (auto simp: Thread_Ends s1(7))
      ultimately show ?thesis using Cons.IH [OF s1(2)] Some Thread_Ends s1(1,3-6) by auto
    qed
  qed
qed

text \<open>The threads on the list that have ended.\<close>

definition ended_entries :: "process \<Rightarrow> (ptr \<times> tid) list \<Rightarrow> tid set" where
  "ended_entries s xs = snd ` set xs - dom (live_threads s)"

text \<open>A connection is either handed to a thread or closed, and then its block is lost.\<close>

lemma connection_served:
  assumes "os_ok os" and "main_inv s xs {}"
  shows "\<exists>s' xs'. serve_connection os sock c es s = Some (Inr (Continues (), s')) \<and> main_inv s' xs' {} \<and>
    running s' = (running s \<and> \<not> stops es) \<and>
    (case new_thread os (created s) of
       None \<Rightarrow> ended_entries s' xs' = ended_entries s xs \<and> actions s' = actions s @ [Closed c] \<and>
         dom (live_threads s') = dom (live_threads s) - ended es \<and>
         card (lost_args s') = Suc (card (lost_args s))
     | Some t \<Rightarrow> (\<exists>a ys. xs' = (a, t) # ys) \<and> ended_entries s' xs' = ended_entries s xs \<union> {t} \<inter> ended es \<and>
         dom (live_threads s') = insert t (dom (live_threads s)) - ended es \<and>
         actions s' = actions s \<and> card (lost_args s') = card (lost_args s))"
proof -
  let ?p = "new_args os (args_heap s)" and ?a = "\<lparr>client_socket = Some c, server_socket = sock\<rparr>"
  let ?s1 = "s\<lparr>args_heap := (args_heap s)(?p \<mapsto> ?a)\<rparr>"
  have fin: "finite (dom (args_heap s))" using main_invD(6) [OF assms(2)] .
  have nonnull: "?p \<noteq> NULL" and new: "?p \<notin> dom (args_heap s)" using os_okD(1,2) [OF assms(1) fin] by simp_all
  note inv1 = inv_new_block [OF assms(2) new, of ?a]
  have p: "?p \<notin> lost_args s" using new by (simp add: lost_args_def)
  then have card: "card (lost_args ?s1) = Suc (card (lost_args s))"
    unfolding inv1(2) using finite_lost [OF assms(2)] by simp
  show ?thesis
  proof (cases "new_thread os (created s)")
    case None
    then have create: "create_thread os ?p ?s1 = (None, ?s1)" by (simp add: create_thread_def)
    obtain s3 where s3: "happens es ?s1 = Some (Inr s3)"
      "main_inv s3 (filter (\<lambda>x. snd x \<notin> dom (live_threads s) \<inter> ended es) xs) {}"
      "running s3 = (running s \<and> \<not> stops es)" "actions s3 = actions s" "lost_args s3 = lost_args ?s1"
      "dom (live_threads s3) = dom (live_threads s) - ended es"
      using happens_inv [OF inv1(1), of es] by auto
    have "serve_connection os sock c es s = Some (Inr (Continues (), s3\<lparr>actions := actions s3 @ [Closed c]\<rparr>))"
      using nonnull create s3(1) by (simp add: serve_connection_def Let_def)
    with None s3 card show ?thesis
      by (intro exI [of _ "s3\<lparr>actions := actions s3 @ [Closed c]\<rparr>"]
          exI [of _ "filter (\<lambda>x. snd x \<notin> dom (live_threads s) \<inter> ended es) xs"]) (auto simp: ended_entries_def)
  next
    case (Some t)
    let ?s2 = "?s1\<lparr>live_threads := (live_threads ?s1)(t \<mapsto> ?p), created := insert t (created ?s1)\<rparr>"
    have "?p \<in> lost_args ?s1" "new_thread os (created ?s1) = Some t" using inv1(2) Some by simp_all
    note created = inv_created [OF assms(1) inv1(1) this]
    obtain s3 where s3: "happens es ?s2 = Some (Inr s3)"
      "main_inv s3 (filter (\<lambda>x. snd x \<notin> dom (live_threads ?s2) \<inter> ended es) xs) {t}"
      "running s3 = (running s \<and> \<not> stops es)" "actions s3 = actions s" "lost_args s3 = lost_args ?s2"
      "dom (live_threads s3) = dom (live_threads ?s2) - ended es"
      using happens_inv [OF created(2), of es] by auto
    let ?xs = "filter (\<lambda>x. snd x \<notin> dom (live_threads ?s2) \<inter> ended es) xs"
    obtain l a where l: "enlist os t s3 = (Continues (), s3\<lparr>threads := l\<rparr>)" "main_inv (s3\<lparr>threads := l\<rparr>) ((a, t) # ?xs) {}"
      using inv_enlist [OF assms(1) s3(2)] by blast
    have "serve_connection os sock c es s = Some (Inr (Continues (), s3\<lparr>threads := l\<rparr>))"
      using nonnull created(1) s3(1) l(1) by (simp add: serve_connection_def Let_def)
    moreover have "lost_args (s3\<lparr>threads := l\<rparr>) = lost_args s"
      using s3(5) created(3) inv1(2) p unfolding lost_args_def by auto
    moreover have "ended_entries (s3\<lparr>threads := l\<rparr>) ((a, t) # ?xs) = ended_entries s xs \<union> {t} \<inter> ended es"
      using s3(6) created(4,5) by (auto simp: ended_entries_def)
    ultimately show ?thesis
      using Some s3(3,4,6) l(2) by (intro exI [of _ "s3\<lparr>threads := l\<rparr>"] exI [of _ "(a, t) # ?xs"]) simp
  qed
qed

lemma timer_started:
  assumes "os_ok os" and "main_inv s [] {}" and "cd \<or> new_thread os (created s) \<noteq> None" and "live_threads s = (\<lambda>_. None)"
  shows "\<exists>s' xs'. start_timer cd os sock es s = Some (Inr (Continues (), s')) \<and> main_inv s' xs' {} \<and>
    running s' = (running s \<and> (cd \<or> \<not> stops es)) \<and> actions s' = actions s \<and> ended_entries s' xs' \<subseteq> ended es \<and>
    card (lost_args s') = (if cd then Suc (card (lost_args s)) else card (lost_args s))"
proof -
  let ?p = "new_args os (args_heap s)" and ?a = "\<lparr>client_socket = None, server_socket = sock\<rparr>"
  let ?s1 = "s\<lparr>args_heap := (args_heap s)(?p \<mapsto> ?a)\<rparr>"
  have fin: "finite (dom (args_heap s))" using main_invD(6) [OF assms(2)] .
  have nonnull: "?p \<noteq> NULL" and new: "?p \<notin> dom (args_heap s)" using os_okD(1,2) [OF assms(1) fin] by simp_all
  note inv1 = inv_new_block [OF assms(2) new, of ?a]
  have p: "?p \<notin> lost_args s" using new by (simp add: lost_args_def)
  then have card: "card (lost_args ?s1) = Suc (card (lost_args s))"
    unfolding inv1(2) using finite_lost [OF assms(2)] by simp
  show ?thesis
  proof (cases cd)
    case True
    with nonnull inv1(1) card show ?thesis
      by (intro exI [of _ ?s1] exI [of _ "[]"]) (simp add: start_timer_def ended_entries_def)
  next
    case False
    then obtain t where t: "new_thread os (created ?s1) = Some t" using assms(3) by auto
    let ?s2 = "?s1\<lparr>live_threads := (live_threads ?s1)(t \<mapsto> ?p), created := insert t (created ?s1)\<rparr>"
    have "?p \<in> lost_args ?s1" using inv1(2) by simp
    note created = inv_created [OF assms(1) inv1(1) this t]
    obtain s3 where s3: "happens es ?s2 = Some (Inr s3)" "main_inv s3 [] {t}"
      "running s3 = (running s \<and> \<not> stops es)" "actions s3 = actions s" "lost_args s3 = lost_args ?s2"
      "dom (live_threads s3) = {t} - ended es"
      using happens_inv [OF created(2), of es] assms(4) by auto
    obtain l a where l: "enlist os t s3 = (Continues (), s3\<lparr>threads := l\<rparr>)" "main_inv (s3\<lparr>threads := l\<rparr>) [(a, t)] {}"
      using inv_enlist [OF assms(1) s3(2)] by blast
    have "start_timer cd os sock es s = Some (Inr (Continues (), s3\<lparr>threads := l\<rparr>))"
      using False nonnull created(1) s3(1) l(1) by (simp add: start_timer_def Let_def)
    moreover have "lost_args (s3\<lparr>threads := l\<rparr>) = lost_args s"
      using s3(5) created(3) inv1(2) p unfolding lost_args_def by auto
    ultimately show ?thesis
      using False s3(3,4,6) l(2)
      by (intro exI [of _ "s3\<lparr>threads := l\<rparr>"] exI [of _ "[(a, t)]"]) (auto simp: ended_entries_def)
  qed
qed

section \<open>Runs of the loop\<close>

text \<open>Events that do not end the loop.\<close>

definition works :: "main_event \<Rightarrow> bool" where
  "works e \<longleftrightarrow>
     (case e of
        Meanwhile te \<Rightarrow> \<not> stops [te]
      | Accept_Error \<Rightarrow> False
      | Accepted c before after \<Rightarrow> \<not> stops before \<and> \<not> stops after)"

text \<open>The threads that end while \<open>main\<close> stands between \<open>pthread_create\<close> and \<open>add_thread\<close>.\<close>

definition early_ends :: "main_event list \<Rightarrow> tid set" where
  "early_ends es = {t. \<exists>c before after. Accepted c before after \<in> set es \<and> t \<in> ended before}"

lemma early_ends_simps [simp]:
  "early_ends [] = {}" "early_ends (Meanwhile te # es) = early_ends es"
  "early_ends (Accept_Error # es) = early_ends es"
  "early_ends (Accepted c before after # es) = ended before \<union> early_ends es"
  by (auto simp: early_ends_def)

lemma happens_stale:
  assumes "main_inv s xs {}"
  shows "\<exists>s' xs'. happens es s = Some (Inr s') \<and> main_inv s' xs' {} \<and> ended_entries s' xs' = ended_entries s xs \<and>
    running s' = (running s \<and> \<not> stops es) \<and> actions s' = actions s \<and> lost_args s' = lost_args s"
proof -
  let ?xs = "filter (\<lambda>x. snd x \<notin> dom (live_threads s) \<inter> ended es) xs"
  obtain s' where s': "happens es s = Some (Inr s')" "main_inv s' ?xs {}" "running s' = (running s \<and> \<not> stops es)"
    "actions s' = actions s" "lost_args s' = lost_args s" "dom (live_threads s') = dom (live_threads s) - ended es"
    using happens_inv [OF assms, of es] by blast
  then show ?thesis by (intro exI [of _ s'] exI [of _ ?xs]) (auto simp: ended_entries_def)
qed

text \<open>What one event makes of the state, when the loop goes on.\<close>

lemma loop_event:
  assumes "os_ok os" and "main_inv s xs {}" and "running s" and "works e"
  shows "\<exists>s' xs'. (\<forall>rest. accept_loop m cd os sock (e # rest) s = accept_loop m cd os sock rest s') \<and>
    main_inv s' xs' {} \<and> running s' \<and> ended_entries s' xs' \<subseteq> ended_entries s xs \<union> early_ends [e] \<and>
    card (lost_args s') + length (actions s) = card (lost_args s) + length (actions s')"
proof (cases e)
  case (Meanwhile te)
  obtain s' xs' where s': "happens [te] s = Some (Inr s')" "main_inv s' xs' {}" "ended_entries s' xs' = ended_entries s xs"
    "running s' = (running s \<and> \<not> stops [te])" "actions s' = actions s" "lost_args s' = lost_args s"
    using happens_stale [OF assms(2), of "[te]"] by blast
  show ?thesis
    unfolding Meanwhile accept_loop.simps(2) s'(1)
    by (rule exI [of _ s'], rule exI [of _ xs']) (use s' Meanwhile assms(3,4) in \<open>simp add: works_def\<close>)
next
  case Accept_Error
  with assms(4) show ?thesis by (simp add: works_def)
next
  case (Accepted c before after)
  obtain s1 xs1 where s1: "serve_connection os sock c before s = Some (Inr (Continues (), s1))" "main_inv s1 xs1 {}"
    "running s1 = (running s \<and> \<not> stops before)" and
    out: "case new_thread os (created s) of
       None \<Rightarrow> ended_entries s1 xs1 = ended_entries s xs \<and> actions s1 = actions s @ [Closed c] \<and>
         dom (live_threads s1) = dom (live_threads s) - ended before \<and>
         card (lost_args s1) = Suc (card (lost_args s))
     | Some t \<Rightarrow> (\<exists>a ys. xs1 = (a, t) # ys) \<and> ended_entries s1 xs1 = ended_entries s xs \<union> {t} \<inter> ended before \<and>
         dom (live_threads s1) = insert t (dom (live_threads s)) - ended before \<and>
         actions s1 = actions s \<and> card (lost_args s1) = card (lost_args s)"
    using connection_served [OF assms(1,2), of sock c before] by blast
  have sides: "ended_entries s1 xs1 \<subseteq> ended_entries s xs \<union> early_ends [e]"
    "card (lost_args s1) + length (actions s) = card (lost_args s) + length (actions s1)"
    using out by (auto simp: Accepted split: option.splits)
  obtain s' xs' where s': "happens after s1 = Some (Inr s')" "main_inv s' xs' {}" "ended_entries s' xs' = ended_entries s1 xs1"
    "running s' = (running s1 \<and> \<not> stops after)" "actions s' = actions s1" "lost_args s' = lost_args s1"
    using happens_stale [OF s1(2), of after] by blast
  have "running s'" using s1(3) s'(4) assms(3,4) by (simp add: works_def Accepted)
  with s1(1) s' sides show ?thesis by (intro exI [of _ s'] exI [of _ xs']) (simp add: Accepted)
qed

lemma early_ends_Cons: "early_ends (e # es) = early_ends [e] \<union> early_ends es"
  by (cases e) auto

lemma work_loop:
  assumes "os_ok os" and "main_inv s xs {}" and "running s" and "\<forall>e \<in> set es. works e"
  shows "\<exists>s' xs'. (\<forall>rest. accept_loop m cd os sock (es @ rest) s = accept_loop m cd os sock rest s') \<and>
    main_inv s' xs' {} \<and> running s' \<and> ended_entries s' xs' \<subseteq> ended_entries s xs \<union> early_ends es \<and>
    card (lost_args s') + length (actions s) = card (lost_args s) + length (actions s')"
  using assms(2-)
proof (induction es arbitrary: s xs)
  case Nil
  then show ?case by (intro exI [of _ s] exI [of _ xs]) simp
next
  case (Cons e es)
  have "works e" using Cons.prems(3) by simp
  from loop_event [OF assms(1) Cons.prems(1,2) this] obtain s1 xs1 where
    s1: "\<And>rest. accept_loop m cd os sock (e # rest) s = accept_loop m cd os sock rest s1"
      "main_inv s1 xs1 {}" "running s1" "ended_entries s1 xs1 \<subseteq> ended_entries s xs \<union> early_ends [e]"
      "card (lost_args s1) + length (actions s) = card (lost_args s) + length (actions s1)"
    by blast
  obtain s' xs' where s': "\<And>rest. accept_loop m cd os sock (es @ rest) s1 = accept_loop m cd os sock rest s'"
    "main_inv s' xs' {}" "running s'" "ended_entries s' xs' \<subseteq> ended_entries s1 xs1 \<union> early_ends es"
    "card (lost_args s') + length (actions s1) = card (lost_args s1) + length (actions s')"
    using Cons.IH [OF s1(2,3)] Cons.prems(3) by auto
  have "ended_entries s' xs' \<subseteq> ended_entries s xs \<union> early_ends (e # es)"
    using s1(4) s'(4) early_ends_Cons [of e es] by blast
  with s1(1,5) s' show ?case by (intro exI [of _ s'] exI [of _ xs']) simp
qed

text \<open>A loop that is back in \<open>accept\<close>, signals or not.\<close>

lemma loop_waits:
  assumes "os_ok os" and "main_inv s xs {}" and "accept_loop m cd os sock es s = Some (Inr (Continues (), s'))"
  shows "\<exists>xs'. main_inv s' xs' {} \<and> accept_loop m cd os sock (es @ rest) s = accept_loop m cd os sock rest s'"
  using assms(2-)
proof (induction es arbitrary: s xs)
  case (Cons e es)
  show ?case
  proof (cases e)
    case (Meanwhile te)
    obtain s1 xs1 where s1: "happens [te] s = Some (Inr s1)" "main_inv s1 xs1 {}"
      using happens_stale [OF Cons.prems(1), of "[te]"] by blast
    have "accept_loop m cd os sock (e # rest) s = accept_loop m cd os sock rest s1" for rest
      unfolding Meanwhile accept_loop.simps(2) s1(1) by simp
    with Cons.IH [OF s1(2)] Cons.prems(2) show ?thesis by simp
  next
    case Accept_Error
    with Cons.prems(2) show ?thesis by (simp add: exit_server_def)
  next
    case (Accepted c before after)
    obtain s1 xs1 where s1: "serve_connection os sock c before s = Some (Inr (Continues (), s1))" "main_inv s1 xs1 {}"
      using connection_served [OF assms(1) Cons.prems(1), of sock c before] by blast
    obtain s2 xs2 where s2: "happens after s1 = Some (Inr s2)" "main_inv s2 xs2 {}"
      using happens_stale [OF s1(2), of after] by blast
    show ?thesis
    proof (cases "running s2")
      case True
      with Cons.IH [OF s2(2)] Cons.prems(2) s1(1) s2(1) Accepted show ?thesis by simp
    next
      case False
      with Cons.prems(2) s1(1) s2(1) Accepted show ?thesis
        by (auto simp: shut_down_def exit_server_def split: option.splits sum.splits)
    qed
  qed
qed auto

text \<open>The loop itself never ends the process with another status than zero, as long as there is memory.\<close>

lemma enlist_continues:
  assumes "\<And>h. new_node os h \<noteq> NULL" and "enlist os t s = (r, s')"
  shows "r = Continues ()"
  using assms(1) [of "nodes (threads s)"] assms(2) by (simp add: enlist_def add_thread_def)

lemma shut_down_status: "shut_down m cd sock s = Some (Inr (Exits n, s')) \<Longrightarrow> n = 0"
  by (auto simp: shut_down_def exit_server_def split: option.splits sum.splits)

lemma serve_connection_status:
  assumes "\<And>h. new_node os h \<noteq> NULL" and "serve_connection os sock c es s = Some (Inr (r, s'))"
  shows "r = Continues ()"
  using assms(2)
  by (auto simp: serve_connection_def Let_def split: if_splits option.splits sum.splits prod.splits
      dest: enlist_continues [OF assms(1)])

lemma accept_loop_status:
  "accept_loop m cd os sock es s = Some (Inr (Exits n, s')) \<Longrightarrow> \<forall>h. new_node os h \<noteq> NULL \<Longrightarrow> n = 0"
proof (induction m cd os sock es s rule: accept_loop.induct)
  case (2 m cd os sock e es s)
  then show ?case by (auto simp del: happens.simps split: option.splits sum.splits)
next
  case (4 m cd os sock c before after es s)
  have "r = Continues ()" if "serve_connection os sock c before s = Some (Inr (r, s1))" for r s1
    using serve_connection_status [OF _ that] 4(3) by blast
  with 4 show ?case
    by (auto split: option.splits sum.splits proc.splits if_splits dest: shut_down_status)
qed (auto simp: exit_server_def)

lemma start_timer_status:
  assumes "\<And>h. new_node os h \<noteq> NULL" and "start_timer cd os sock es s = Some (Inr (r, s'))"
  shows "r = Continues ()"
  using assms(2)
  by (auto simp: start_timer_def Let_def split: if_splits option.splits sum.splits prod.splits
      dest: enlist_continues [OF assms(1)])

text \<open>A start that goes on has only closed the standard streams.\<close>

lemma startup_actions:
  "server_startup cd os argv s = (Continues (), s0) \<Longrightarrow> \<exists>as. s0 = s\<lparr>actions := as\<rparr>"
  by (auto simp: server_startup_def exit_server_def daemonize_def split: if_splits
      intro: exI [of _ "actions s"] exI [of _ "actions s @ [Closed 0, Closed 1, Closed 2]"])

section \<open>Properties\<close>

text \<open>The start went through.\<close>

definition sockets_ready :: "os \<Rightarrow> bool" where
  "sockets_ready os \<longleftrightarrow> socket_ret os \<noteq> -1 \<and> 0 \<le> setsockopt_ret os \<and> bind_ret os \<noteq> -1 \<and> listen_ret os \<noteq> -1"

definition daemon_fails :: "os \<Rightarrow> byte list list \<Rightarrow> bool" where
  "daemon_fails os argv \<longleftrightarrow> daemon_mode argv \<and> (fork_ret os < 0 \<or> fork_ret os = 0 \<and> setsid_ret os < 0)"

text \<open>
  C14. From the start of the process on, whatever connections come and whatever threads end in whatever
  order, before or after they are put on the list: as long as no signal stops the loop, \<open>accept\<close> does not
  fail, memory lasts, the timestamp thread could be created where there is one, and no two operations
  on the list overlap, \<open>main\<close> goes on waiting; every thread that has not ended
  is on the list, once, and has a live block of arguments of its own; and a thread on the list that
  has ended did so between its \<open>pthread_create\<close> and its \<open>add_thread\<close>. The blocks that nobody will free
  are one for every connection whose thread could not be created and, on the character device, the
  one of the timestamp thread that is never started.
\<close>

theorem main_tracks_threads:
  assumes "os_ok os" and "server_startup cd os argv initial_process = (Continues (), s0)"
    and "cd \<or> new_thread os {} \<noteq> None" and "\<not> stops first" and "\<forall>e \<in> set es. works e"
  shows "\<exists>s xs. server_main meanwhile cd os argv first es initial_process = Some (Inr (Continues (), s)) \<and>
    main_inv s xs {} \<and> ended_entries s xs \<subseteq> ended first \<union> early_ends es \<and>
    card (lost_args s) + length (actions s0) = (if cd then 1 else 0) + length (actions s)"
proof -
  let ?sock = "socket_ret os"
  obtain as where "s0 = initial_process\<lparr>actions := as\<rparr>" using startup_actions [OF assms(2)] by blast
  then have s0: "main_inv s0 [] {}" "running s0" "lost_args s0 = {}" "live_threads s0 = (\<lambda>_. None)" "created s0 = {}"
    by (simp_all add: initial_inv) (simp_all add: initial_process_def lost_args_def)
  have "cd \<or> new_thread os (created s0) \<noteq> None" using assms(3) s0(5) by simp
  from timer_started [OF assms(1) s0(1) this s0(4), of ?sock first] obtain s2 xs2 where
    s2: "start_timer cd os ?sock first s0 = Some (Inr (Continues (), s2))" "main_inv s2 xs2 {}"
    "running s2" "actions s2 = actions s0" "card (lost_args s2) = (if cd then 1 else 0)" "ended_entries s2 xs2 \<subseteq> ended first"
    using s0(2,3) assms(4) by auto
  obtain s xs where run: "\<forall>rest. accept_loop meanwhile cd os ?sock (es @ rest) s2 = accept_loop meanwhile cd os ?sock rest s"
    "main_inv s xs {}" "ended_entries s xs \<subseteq> ended_entries s2 xs2 \<union> early_ends es"
    "card (lost_args s) + length (actions s2) = card (lost_args s2) + length (actions s)"
    using work_loop [OF assms(1) s2(2,3) assms(5)] by blast
  moreover have "accept_loop meanwhile cd os ?sock es s2 = Some (Inr (Continues (), s))"
    using spec [OF run(1), of "[]"] by simp
  ultimately show ?thesis
    using assms(2) s2 by (intro exI [of _ s] exI [of _ xs]) (auto simp: server_main_def)
qed

definition example_system :: os where
  "example_system =
     \<lparr>sigaction_fails = False, socket_ret = 3, setsockopt_ret = 0, bind_ret = 0, listen_ret = 0,
      fork_ret = 0, setsid_ret = 7,
      new_args = (\<lambda>h. if finite (dom h) then Suc (Max (insert 100 (dom h))) else 0),
      new_node = (\<lambda>h. if finite (dom h) then Suc (Max (insert 500 (dom h))) else 600),
      new_thread = (\<lambda>a. if finite a \<and> card a < 3 then Some (Suc (Max (insert 20 a))) else None),
      stack_tid = 99\<rparr>"

lemma fresh_above:
  assumes "finite (A :: nat set)" shows "Suc (Max (insert k A)) \<notin> A"
proof
  assume "Suc (Max (insert k A)) \<in> A"
  then have "Suc (Max (insert k A)) \<le> Max (insert k A)" using assms by (intro Max_ge) simp_all
  then show False by simp
qed

lemma example_system_ok: "os_ok example_system"
  using fresh_above by (simp add: os_ok_def example_system_def)

lemma example_startup: "server_startup cd example_system [''aesdsocket''] initial_process = (Continues (), initial_process)"
  by (simp add: server_startup_def example_system_def daemon_mode_def)

text \<open>The second connection's thread, 23, has ended before \<open>main\<close> puts it on the list; the third one gets none.\<close>

lemma main_tracks_threads_witness:
  "\<exists>s xs. server_main self_removal False example_system [''aesdsocket''] []
      [Accepted 4 [] [], Meanwhile (Thread_Ends 22), Accepted 5 [Thread_Ends 23] [], Accepted 6 [] []] initial_process =
      Some (Inr (Continues (), s)) \<and>
    main_inv s xs {} \<and> ended_entries s xs \<subseteq> {23} \<and> card (lost_args s) = length (actions s)"
  using main_tracks_threads [OF example_system_ok example_startup [of False], of "[]"
      "[Accepted 4 [] [], Meanwhile (Thread_Ends 22), Accepted 5 [Thread_Ends 23] [], Accepted 6 [] []]" self_removal]
  by (auto simp: works_def example_system_def initial_process_def)

text \<open>
  A signal that reaches \<open>main\<close> in \<open>accept\<close> makes \<open>accept\<close> fail, and \<open>cleanup\<close> is called there: the
  process exits with status zero without waiting for any thread, whatever is on the list.
\<close>

theorem interrupted_accept_joins_nobody:
  assumes "os_ok os" and "main_inv s xs {}" and "accept_loop meanwhile cd os sock es s = Some (Inr (Continues (), s1))"
  shows "\<exists>s2. accept_loop meanwhile cd os sock (es @ Meanwhile (Caught signo) # Accept_Error # rest) s = Some (Inr (Exits 0, s2)) \<and>
    live_threads s2 = live_threads s1 \<and> threads s2 = threads s1 \<and>
    actions s2 = actions s1 @ [Shut_Down sock, Closed sock] @ (if cd then [] else [Unlinked_Data])"
  using loop_waits [OF assms, of "Meanwhile (Caught signo) # Accept_Error # rest"]
  by (auto simp: exit_server_def signal_handler_def)

lemma interrupted_accept_joins_nobody_witness:
  "\<exists>s2. accept_loop self_removal False example_system 3 ([] @ Meanwhile (Caught SIGINT) # Accept_Error # []) initial_process =
      Some (Inr (Exits 0, s2)) \<and> actions s2 = [Shut_Down 3, Closed 3, Unlinked_Data]"
  using interrupted_accept_joins_nobody [OF example_system_ok initial_inv, of self_removal False 3 "[]" initial_process SIGINT "[]"]
  by (auto simp: initial_process_def)



text \<open>
  C23. The exit status. As long as memory lasts, \<open>main\<close> ends with 1 only when a signal handler cannot be
  installed or the daemon cannot be made; a failed \<open>socket\<close>, \<open>setsockopt\<close>, \<open>bind\<close> or \<open>listen\<close> ends with
  0, as if the server had done its work. Built without the character device such a start has also
  removed the data file, so a second server on the same port deletes the file of the first.
\<close>

theorem main_exit_status:
  assumes "\<forall>h. new_node os h \<noteq> NULL"
    and "server_main meanwhile cd os argv first es s = Some (Inr (Exits n, s'))"
  shows "n = (if sigaction_fails os \<or> sockets_ready os \<and> daemon_fails os argv then 1 else 0) \<and>
    (\<not> sigaction_fails os \<and> \<not> sockets_ready os \<longrightarrow>
      actions s' = actions s @ [Shut_Down (socket_ret os), Closed (socket_ret os)] @
        (if cd then [] else [Unlinked_Data]))"
proof (cases "server_startup cd os argv s")
  case (Pair r s1)
  show ?thesis
  proof (cases r)
    case (Exits k)
    with Pair assms(2) have "k = n" "s1 = s'" by (simp_all add: server_main_def)
    with Pair Exits show ?thesis
      by (auto simp: server_startup_def sockets_ready_def daemon_fails_def daemonize_def exit_server_def
          split: if_splits)
  next
    case (Continues u)
    with Pair have ready: "\<not> sigaction_fails os" "sockets_ready os" "\<not> daemon_fails os argv"
      by (auto simp: server_startup_def sockets_ready_def daemon_fails_def daemonize_def exit_server_def
          split: if_splits)
    have "n = 0"
    proof -
      obtain r2 s2 where t: "start_timer cd os (socket_ret os) first s1 = Some (Inr (r2, s2))"
        using assms(2) Pair Continues by (auto simp: server_main_def split: option.splits sum.splits)
      have "r2 = Continues ()" using start_timer_status [OF _ t] assms(1) by blast
      with assms Pair Continues t show ?thesis
        by (auto simp: server_main_def split: if_splits dest: accept_loop_status shut_down_status)
    qed
    with ready show ?thesis by simp
  qed
qed

lemma main_exit_status_witness:
  "\<exists>s'. server_main self_removal False (example_system\<lparr>bind_ret := -1, new_node := \<lambda>_. 600\<rparr>) [''aesdsocket''] [] []
      initial_process = Some (Inr (Exits 0, s')) \<and> Unlinked_Data \<in> set (actions s')"
proof -
  let ?os = "example_system\<lparr>bind_ret := -1, new_node := \<lambda>_. 600\<rparr>"
  obtain n s' where *: "server_main self_removal False ?os [''aesdsocket''] [] [] initial_process = Some (Inr (Exits n, s'))"
    by (simp add: server_main_def server_startup_def example_system_def exit_server_def)
  have "n = (if sigaction_fails ?os \<or> sockets_ready ?os \<and> daemon_fails ?os [''aesdsocket''] then 1 else 0) \<and>
    (\<not> sigaction_fails ?os \<and> \<not> sockets_ready ?os \<longrightarrow>
      actions s' = actions initial_process @ [Shut_Down (socket_ret ?os), Closed (socket_ret ?os)] @
        (if False then [] else [Unlinked_Data]))"
    by (rule main_exit_status [OF _ *]) simp
  with * show ?thesis by (simp add: sockets_ready_def example_system_def)
qed

end
