(* ===== verification/Regular_File.thy ===== *)
theory Regular_File imports Main Data_File begin

text \<open>
  The build without \<open>USE_AESD_CHAR_DEVICE\<close>, and the older server: \<open>DATA_FILE\<close> is a file on a disk.
  The model has what POSIX documents of one: a table of descriptors with a position each, a write
  at the position or, with \<open>O_APPEND\<close>, at the end, short when the disk is full, and a name that
  \<open>unlink\<close> takes away. It has no seek command. The theory shows that such a file satisfies
  \<open>chunk_file\<close>, where a chunk overwrites the file from its start.
\<close>

section \<open>The system calls\<close>

record regular =
  present :: bool
  bytes :: "byte list"
  max_size :: nat
  descs :: "(nat \<times> bool) option list" \<comment> \<open>position and \<open>O_APPEND\<close>\<close>

definition desc_at :: "int \<Rightarrow> regular \<Rightarrow> (nat \<times> bool) option" where
  "desc_at fd w = (if 0 \<le> fd \<and> nat fd < length (descs w) then descs w ! nat fd else None)"

definition set_desc :: "int \<Rightarrow> (nat \<times> bool) option \<Rightarrow> regular \<Rightarrow> regular" where
  "set_desc fd d w = w\<lparr>descs := (descs w)[nat fd := d]\<rparr>"

definition reg_open :: "open_flags \<Rightarrow> regular \<Rightarrow> (int \<times> regular) outcome" where
  "reg_open flags w =
     (case first_free (descs w) of
        None \<Rightarrow> Inr (-1, w)
      | Some i \<Rightarrow>
          if flags = RDONLY \<and> \<not> present w then Inr (-1, w)
          else
            let w1 = (if present w then w else w\<lparr>present := True, bytes := []\<rparr>) in
            Inr (int i, set_desc (int i) (Some (0, flags = WRONLY_CREAT_APPEND)) w1))"

text \<open>The bytes of a file after \<open>bs\<close> was written at \<open>p\<close>; a gap before \<open>p\<close> reads as zeros.\<close>

definition overwrite :: "nat \<Rightarrow> byte list \<Rightarrow> byte list \<Rightarrow> byte list" where
  "overwrite p bs old =
     take p old @ replicate (p - length old) (CHR 0x00) @ bs @ drop (p + length bs) old"

definition reg_write :: "int \<Rightarrow> byte list \<Rightarrow> regular \<Rightarrow> (int \<times> regular) outcome" where
  "reg_write fd bs w =
     (case desc_at fd w of
        None \<Rightarrow> Inr (-1, w)
      | Some (pos, app) \<Rightarrow>
          let p = (if app then length (bytes w) else pos);
              part = take (max_size w - p) bs
          in if part = [] \<and> bs \<noteq> [] then Inr (-1, w)
             else Inr (int (length part),
                    set_desc fd (Some (p + length part, app)) (w\<lparr>bytes := overwrite p part (bytes w)\<rparr>)))"

definition reg_read :: "int \<Rightarrow> nat \<Rightarrow> regular \<Rightarrow> (int \<times> byte list \<times> regular) outcome" where
  "reg_read fd n w =
     (case desc_at fd w of
        None \<Rightarrow> Inr (-1, [], w)
      | Some (pos, app) \<Rightarrow>
          let bs = take n (drop pos (bytes w)) in
          Inr (int (length bs), bs, set_desc fd (Some (pos + length bs, app)) w))"

definition reg_lseek :: "int \<Rightarrow> int \<Rightarrow> int \<Rightarrow> regular \<Rightarrow> (int \<times> regular) outcome" where
  "reg_lseek fd offset whence w =
     (case desc_at fd w of
        None \<Rightarrow> Inr (-1, w)
      | Some (pos, app) \<Rightarrow>
          let base = (if whence = SEEK_SET then Some 0 else if whence = SEEK_CUR then Some (int pos)
                      else if whence = SEEK_END then Some (int (length (bytes w))) else None)
          in case base of
               None \<Rightarrow> Inr (-1, w)
             | Some b \<Rightarrow>
                 if b + offset < 0 then Inr (-1, w)
                 else Inr (b + offset, set_desc fd (Some (nat (b + offset), app)) w))"

definition regular_ops :: "regular file_ops" where
  "regular_ops =
     \<lparr>sys_open = reg_open, sys_write = reg_write, sys_ioctl = (\<lambda>fd cmd st w. Inr (-1, w)),
      sys_lseek = reg_lseek, sys_read = reg_read, sys_close = (\<lambda>fd w. set_desc fd None w),
      sys_unlink = (\<lambda>w. w\<lparr>present := False\<rparr>)\<rparr>"

section \<open>The contract\<close>

definition regular_ok :: "regular \<Rightarrow> bool" where
  "regular_ok w \<longleftrightarrow> present w \<and> length (bytes w) \<le> max_size w"

definition regular_view :: "regular \<Rightarrow> byte list file_view" where
  "regular_view w =
     \<lparr>file_data = bytes w, free_fds = length (filter (\<lambda>d. d = None) (descs w)),
      space = max_size w, in_order = True\<rparr>"

definition regular_pos :: "int \<Rightarrow> regular \<Rightarrow> nat option" where
  "regular_pos fd w = (case desc_at fd w of Some (p, app) \<Rightarrow> if app then None else Some p | None \<Rightarrow> None)"

lemma desc_at_set [simp]: "desc_at fd w \<noteq> None \<Longrightarrow> desc_at fd (set_desc fd d w) = d"
  by (auto simp: desc_at_def set_desc_def split: if_splits)

lemma set_desc_simps [simp]:
  "present (set_desc fd d w) = present w" "bytes (set_desc fd d w) = bytes w"
  "max_size (set_desc fd d w) = max_size w" "descs (set_desc fd d w) = (descs w)[nat fd := d]"
  by (simp_all add: set_desc_def)

lemma desc_at_bytes [simp]: "desc_at fd (w\<lparr>bytes := bs\<rparr>) = desc_at fd w"
  by (simp add: desc_at_def)

lemma free_descs:
  assumes "desc_at fd w \<noteq> None"
  shows "length (filter (\<lambda>d. d = None) ((descs w)[nat fd := Some x])) = length (filter (\<lambda>d. d = None) (descs w))"
    and "length (filter (\<lambda>d. d = None) ((descs w)[nat fd := None])) = Suc (length (filter (\<lambda>d. d = None) (descs w)))"
  using free_update [of "nat fd" "descs w"] assms by (auto simp: desc_at_def split: if_splits)

lemma regular_pos_desc: "regular_pos fd w = Some p \<Longrightarrow> desc_at fd w = Some (p, False)"
  by (auto simp: regular_pos_def split: option.splits if_splits)

text \<open>Opening takes a descriptor and nothing else, when the file is there.\<close>

lemma reg_open_free:
  assumes "present w" and "length (filter (\<lambda>d. d = None) (descs w)) = Suc n"
  shows "\<exists>fd w'. reg_open flags w = Inr (fd, w') \<and> 0 \<le> fd \<and> present w' \<and> bytes w' = bytes w \<and>
    max_size w' = max_size w \<and> length (filter (\<lambda>d. d = None) (descs w')) = n \<and>
    desc_at fd w' = Some (0, flags = WRONLY_CREAT_APPEND)"
proof -
  obtain i where i: "first_free (descs w) = Some i"
    using assms(2) first_free_None [of "descs w"] by auto
  note lt = first_free_Some [OF i]
  let ?w = "set_desc (int i) (Some (0, flags = WRONLY_CREAT_APPEND)) w"
  have "reg_open flags w = Inr (int i, ?w)" using assms(1) i by (simp add: reg_open_def)
  moreover have "length (filter (\<lambda>d. d = None) (descs ?w)) = n"
    using free_update [of i "descs w" "Some (0, flags = WRONLY_CREAT_APPEND)"] lt assms(2) by simp
  moreover have "desc_at (int i) ?w = Some (0, flags = WRONLY_CREAT_APPEND)"
    using lt by (simp add: desc_at_def)
  ultimately show ?thesis using assms(1) by (intro exI [of _ "int i"] exI [of _ ?w]) simp
qed

text \<open>A write that fits.\<close>

lemma reg_write_front:
  assumes "desc_at fd w = Some (0, False)" and "length bs \<le> max_size w"
  shows "reg_write fd bs w = Inr (int (length bs),
    set_desc fd (Some (length bs, False)) (w\<lparr>bytes := put_front bs (bytes w)\<rparr>))"
  using assms by (cases bs) (auto simp: reg_write_def overwrite_def put_front_def Let_def)

lemma reg_write_append:
  assumes "desc_at fd w = Some (p, True)" and "length (bytes w) + length bs \<le> max_size w"
  shows "reg_write fd bs w = Inr (int (length bs),
    set_desc fd (Some (length (bytes w) + length bs, True)) (w\<lparr>bytes := bytes w @ bs\<rparr>))"
  using assms by (cases bs) (auto simp: reg_write_def overwrite_def Let_def)

interpretation regular_file: chunk_file regular_ops regular_ok regular_view "\<lambda>d. d" regular_pos put_front
proof (unfold_locales, goal_cases)
  case (1 w fd p)
  let ?bs = "take BUFFER_SIZE (drop p (bytes w))"
  have d: "desc_at fd w = Some (p, False)" using 1(2) by (rule regular_pos_desc)
  have "drop p (bytes w) = ?bs @ drop BUFFER_SIZE (drop p (bytes w))" by (rule append_take_drop_id [symmetric])
  moreover have "regular_pos fd (set_desc fd (Some (p + length ?bs, False)) w) = Some (p + length ?bs)"
    using d by (simp add: regular_pos_def)
  moreover have "regular_view (set_desc fd (Some (p + length ?bs, False)) w) = regular_view w"
    using d by (simp add: regular_view_def free_descs)
  moreover have "sys_read regular_ops fd BUFFER_SIZE w =
      Inr (int (length ?bs), ?bs, set_desc fd (Some (p + length ?bs, False)) w)"
    using d by (simp add: regular_ops_def reg_read_def Let_def)
  moreover have "regular_ok (set_desc fd (Some (p + length ?bs, False)) w)"
    using 1(1) by (simp add: regular_ok_def)
  moreover have "p < length (file_data (regular_view w)) \<longrightarrow> ?bs \<noteq> []"
    by (simp add: regular_view_def BUFFER_SIZE_def)
  moreover have "file_data (regular_view w) = bytes w" by (simp add: regular_view_def)
  ultimately show ?case by metis
next
  case (2 w n)
  then obtain fd w' where w': "reg_open RDWR_CREAT w = Inr (fd, w')" "0 \<le> fd" "present w'" "bytes w' = bytes w"
    "max_size w' = max_size w" "length (filter (\<lambda>d. d = None) (descs w')) = n" "desc_at fd w' = Some (0, False)"
    using reg_open_free [of w n RDWR_CREAT] by (auto simp: regular_ok_def regular_view_def)
  then show ?case
    using 2(1) by (intro exI [of _ fd] exI [of _ w'])
      (simp add: regular_ops_def regular_ok_def regular_view_def regular_pos_def)
next
  case (3 w)
  then have "first_free (descs w) = None" by (simp add: first_free_None regular_view_def)
  then show ?case by (simp add: regular_ops_def reg_open_def)
next
  case (4 w fd bs)
  let ?w = "set_desc fd (Some (length bs, False)) (w\<lparr>bytes := put_front bs (bytes w)\<rparr>)"
  have d: "desc_at fd w = Some (0, False)" using 4(2) by (rule regular_pos_desc)
  have "reg_write fd bs w = Inr (int (length bs), ?w)"
    using d 4(4) by (simp add: reg_write_front regular_view_def)
  moreover have "regular_ok ?w"
    using 4(1,4) by (cases "length bs \<le> length (bytes w)")
      (simp_all add: regular_ok_def put_front_def regular_view_def)
  ultimately show ?case
    using d by (intro exI [of _ "int (length bs)"] exI [of _ ?w])
      (simp add: regular_ops_def regular_view_def regular_pos_def free_descs)
next
  case (5 w fd p)
  then have d: "desc_at fd w = Some (p, False)" by (intro regular_pos_desc)
  then show ?case
    using 5(1) by (intro exI [of _ "set_desc fd (Some (0, False)) w"])
      (simp add: regular_ops_def reg_lseek_def regular_ok_def regular_view_def regular_pos_def free_descs)
next
  case (6 w fd p)
  then have "desc_at fd w = Some (p, False)" by (intro regular_pos_desc)
  then show ?case
    using 6(1) by (simp add: regular_ops_def regular_ok_def regular_view_def free_descs)
next
  case (7 w fd p st)
  then show ?case by (simp add: regular_ops_def)
qed

section \<open>Appending\<close>

abbreviation free_count :: "regular \<Rightarrow> nat" where
  "free_count w \<equiv> length (filter (\<lambda>d. d = None) (descs w))"

lemma reg_close_free:
  "desc_at fd w \<noteq> None \<Longrightarrow> free_count (sys_close regular_ops fd w) = Suc (free_count w)"
  by (simp add: regular_ops_def free_descs)

lemma regular_ops_simps:
  "sys_open regular_ops = reg_open" "sys_write regular_ops = reg_write" "sys_read regular_ops = reg_read"
  by (simp_all add: regular_ops_def)

text \<open>One write through \<open>O_APPEND\<close>: opened, appended, closed, with the descriptor given back.\<close>

lemma append_chunk:
  assumes "regular_ok w" and "0 < free_count w" and "length (bytes w) + length c \<le> max_size w"
  shows "\<exists>fd w1 n w2. sys_open regular_ops WRONLY_CREAT_APPEND w = Inr (fd, w1) \<and> 0 \<le> fd \<and>
    sys_write regular_ops fd c w1 = Inr (n, w2) \<and>
    regular_ok (sys_close regular_ops fd w2) \<and> bytes (sys_close regular_ops fd w2) = bytes w @ c \<and>
    max_size (sys_close regular_ops fd w2) = max_size w \<and>
    free_count (sys_close regular_ops fd w2) = free_count w"
proof -
  obtain n where n: "free_count w = Suc n" using assms(2) by (cases "free_count w") auto
  have "present w" using assms(1) by (simp add: regular_ok_def)
  from reg_open_free [OF this n, of WRONLY_CREAT_APPEND] obtain fd w1 where
    w1: "reg_open WRONLY_CREAT_APPEND w = Inr (fd, w1)" "0 \<le> fd" "present w1" "bytes w1 = bytes w"
    "max_size w1 = max_size w" "free_count w1 = n" "desc_at fd w1 = Some (0, True)"
    by auto
  let ?w2 = "set_desc fd (Some (length (bytes w1) + length c, True)) (w1\<lparr>bytes := bytes w1 @ c\<rparr>)"
  have d: "desc_at fd ?w2 \<noteq> None" using w1(7) by simp
  have "reg_write fd c w1 = Inr (int (length c), ?w2)"
    using w1 assms(3) by (intro reg_write_append) simp_all
  moreover have "free_count (sys_close regular_ops fd ?w2) = free_count w"
    using reg_close_free [OF d] w1(6,7) n by (simp add: free_descs)
  moreover have "regular_ok (sys_close regular_ops fd ?w2)" "bytes (sys_close regular_ops fd ?w2) = bytes w @ c"
    "max_size (sys_close regular_ops fd ?w2) = max_size w"
    using w1 assms(3) by (simp_all add: regular_ops_def regular_ok_def)
  ultimately show ?thesis using w1(1,2) unfolding regular_ops_simps by blast
qed

text \<open>A disk with one line, for the examples.\<close>

definition example_disk :: "regular server" where
  "example_disk =
     \<lparr>data_file = \<lparr>present = True, bytes = ''one'' @ [newline], max_size = 100, descs = [None]\<rparr>,
      file_mutex = None, sent = []\<rparr>"

lemma example_disk_simps [simp]:
  "regular_ok (data_file example_disk)" "bytes (data_file example_disk) = ''one'' @ [newline]"
  "free_count (data_file example_disk) = 1" "max_size (data_file example_disk) = 100"
  by (simp_all add: example_disk_def regular_ok_def)

end
