(* ===== verification/Timestamp_Thread.thy ===== *)
theory Timestamp_Thread imports Main Regular_File Server_Device begin

text \<open>
  The timestamp thread of \<^verbatim>\<open>server/aesdsocket.c\<close>, which runs only in the build on a regular file: its
  loop, turn after turn, and what it does to the file. The texts \<open>strftime\<close> makes are a parameter,
  one for every turn begun while \<open>running\<close> is set; what follows the loop is \<open>thread_end\<close>.
\<close>

section \<open>The loop\<close>

fun timestamp_loop ::
  "bool \<Rightarrow> 'w file_ops \<Rightarrow> tid \<Rightarrow> byte list list \<Rightarrow> 'w server \<Rightarrow> (unit proc \<times> 'w server) outcome" where
  "timestamp_loop char_device ops me [] s = Inr (Continues (), s)"
| "timestamp_loop char_device ops me (ts # tss) s =
     bindR (timestamp_turn char_device ops me ts s) (\<lambda>(p, s1).
       case p of
         Exits n \<Rightarrow> Inr (Exits n, s1)
       | Continues _ \<Rightarrow> timestamp_loop char_device ops me tss s1)"

lemma timestamp_turn_regular:
  assumes "regular_ok (data_file s)" and "0 < free_count (data_file s)" and "file_mutex s = None"
    and "length (bytes (data_file s)) + length ts \<le> max_size (data_file s)"
  shows "\<exists>w. timestamp_turn cd regular_ops me ts s = Inr (Continues (), s\<lparr>data_file := w\<rparr>) \<and>
    regular_ok w \<and> bytes w = bytes (data_file s) @ ts \<and> max_size w = max_size (data_file s) \<and>
    free_count w = free_count (data_file s)"
proof -
  from append_chunk [OF assms(1,2,4)] obtain fd w1 n w2 where
    w: "sys_open regular_ops WRONLY_CREAT_APPEND (data_file s) = Inr (fd, w1)" "0 \<le> fd"
    "sys_write regular_ops fd ts w1 = Inr (n, w2)" and
    w3: "regular_ok (sys_close regular_ops fd w2)" "bytes (sys_close regular_ops fd w2) = bytes (data_file s) @ ts"
    "max_size (sys_close regular_ops fd w2) = max_size (data_file s)"
    "free_count (sys_close regular_ops fd w2) = free_count (data_file s)"
    by blast
  have "s\<lparr>file_mutex := None\<rparr> = s" using assms(3) by (cases s) simp
  then have "timestamp_turn cd regular_ops me ts s =
      Inr (Continues (), s\<lparr>data_file := sys_close regular_ops fd w2\<rparr>)"
    using w assms(3) by (cases s) (simp add: timestamp_turn_def lock_file_mutex_def unlock_file_mutex_def)
  with w3 show ?thesis by blast
qed

lemma timestamp_loop_regular:
  assumes "regular_ok (data_file s)" and "0 < free_count (data_file s)" and "file_mutex s = None"
    and "length (bytes (data_file s)) + length (concat tss) \<le> max_size (data_file s)"
  shows "\<exists>w. timestamp_loop cd regular_ops me tss s = Inr (Continues (), s\<lparr>data_file := w\<rparr>) \<and>
    regular_ok w \<and> bytes w = bytes (data_file s) @ concat tss \<and> max_size w = max_size (data_file s) \<and>
    free_count w = free_count (data_file s)"
  using assms
proof (induction tss arbitrary: s)
  case Nil
  then show ?case by (intro exI [of _ "data_file s"]) simp
next
  case (Cons ts tss)
  obtain w where w: "timestamp_turn cd regular_ops me ts s = Inr (Continues (), s\<lparr>data_file := w\<rparr>)"
    "regular_ok w" "bytes w = bytes (data_file s) @ ts" "max_size w = max_size (data_file s)"
    "free_count w = free_count (data_file s)"
    using timestamp_turn_regular [OF Cons.prems(1-3), of ts cd me] Cons.prems(4) by auto
  let ?s = "s\<lparr>data_file := w\<rparr>"
  obtain w' where "timestamp_loop cd regular_ops me tss ?s = Inr (Continues (), ?s\<lparr>data_file := w'\<rparr>)"
    "regular_ok w'" "bytes w' = bytes w @ concat tss" "max_size w' = max_size w" "free_count w' = free_count w"
    using Cons.IH [of ?s] Cons.prems w by auto
  with w show ?case by (intro exI [of _ w']) simp
qed

text \<open>
  C22. Timestamps are appended, lines of clients are not. On a well-formed file with a free descriptor,
  room for the timestamps and \<open>file_mutex\<close> free: after any number of turns of the timestamp thread the
  file is what it was with the timestamps behind it. A client whose line then arrives whole in its
  first chunk, newline included, is not a seek command, is no longer than the file was before the
  timestamps, and who takes its reply, replaces the file's oldest bytes, leaves its end, the
  timestamps, alone, and gets the file. Neither loses a descriptor, and \<open>file_mutex\<close> is free again.
  (A line in several chunks loses a descriptor with each chunk but the last.)
\<close>

theorem timestamps_and_clients:
  assumes "regular_ok (data_file s)" and "0 < free_count (data_file s)" and "file_mutex s = None"
    and "length (bytes (data_file s)) + length (concat tss) \<le> max_size (data_file s)"
    and "reliable cl" and "recvs cl = c # rest" and "newline \<in> set c"
    and "take 19 (recv_into c (stale cl)) \<noteq> seek_prefix" and "length c \<le> length (bytes (data_file s))"
  shows "\<exists>s1 s2. timestamp_loop False regular_ops me tss s = Inr (Continues (), s1) \<and>
    bytes (data_file s1) = bytes (data_file s) @ concat tss \<and>
    handle_client False regular_ops me' cl s1 = Some (Inr (Replied, s2)) \<and> sent s2 = bytes (data_file s2) \<and>
    bytes (data_file s2) = c @ drop (length c) (bytes (data_file s)) @ concat tss \<and>
    file_mutex s2 = None \<and> free_count (data_file s2) = free_count (data_file s)"
proof -
  obtain w where w: "timestamp_loop False regular_ops me tss s = Inr (Continues (), s\<lparr>data_file := w\<rparr>)"
    "regular_ok w" "bytes w = bytes (data_file s) @ concat tss" "max_size w = max_size (data_file s)"
    "free_count w = free_count (data_file s)"
    using timestamp_loop_regular [OF assms(1-4)] by blast
  have "length c \<le> max_size w" using assms(9) w(2,3) by (simp add: regular_ok_def)
  then obtain w' where "handle_client False regular_ops me' cl (s\<lparr>data_file := w\<rparr>) = Some (Inr (Replied,
      s\<lparr>data_file := w', sent := put_front c (bytes w)\<rparr>))"
    "bytes w' = put_front c (bytes w)" "free_count w' = free_count w"
    using regular_file.chunks_replied [of "s\<lparr>data_file := w\<rparr>" cl "[]" c rest False me'] assms w
    by (auto simp: regular_view_def regular_file.put_all_def)
  moreover have "put_front c (bytes w) = c @ drop (length c) (bytes (data_file s)) @ concat tss"
    using w(3) assms(9) by (simp add: put_front_def)
  ultimately show ?thesis using w assms(3)
    by (intro exI [of _ "s\<lparr>data_file := w\<rparr>"] exI [of _ "s\<lparr>data_file := w', sent := put_front c (bytes w)\<rparr>"]) simp
qed

definition example_stamps :: "byte list list" where
  "example_stamps = [''t1'' @ [newline], ''t2'' @ [newline]]"

lemma timestamps_and_clients_witness:
  "\<exists>s1 s2. timestamp_loop False regular_ops 7 example_stamps example_disk = Inr (Continues (), s1) \<and>
    handle_client False regular_ops 1 (example_client [''2'' @ [newline]]) s1 = Some (Inr (Replied, s2)) \<and>
    sent s2 = ''2'' @ [newline] @ ''e'' @ [newline] @ ''t1'' @ [newline] @ ''t2'' @ [newline]"
proof -
  have "take 19 (recv_into (''2'' @ [newline]) (replicate 1024 (CHR 0x00))) \<noteq> seek_prefix"
    by (simp add: recv_into_def seek_prefix_def)
  then have "\<exists>s1 s2. timestamp_loop False regular_ops 7 example_stamps example_disk = Inr (Continues (), s1) \<and>
    bytes (data_file s1) = bytes (data_file example_disk) @ concat example_stamps \<and>
    handle_client False regular_ops 1 (example_client [''2'' @ [newline]]) s1 = Some (Inr (Replied, s2)) \<and>
    sent s2 = bytes (data_file s2) \<and>
    bytes (data_file s2) = (''2'' @ [newline]) @ drop (length (''2'' @ [newline])) (bytes (data_file example_disk)) @
      concat example_stamps \<and>
    file_mutex s2 = None \<and> free_count (data_file s2) = free_count (data_file example_disk)"
    by (intro timestamps_and_clients [where rest = "[]"])
      (simp_all add: example_stamps_def, simp_all add: example_disk_def)
  then show ?thesis by (auto simp: example_stamps_def)
qed

end
