(* ===== verification/Sequential_Server.thy ===== *)
theory Sequential_Server imports Main Regular_File Server_Threads Server_Main begin

text \<open>
  The clients of the older server, \<^verbatim>\<open>server/aesdsocket_old.c\<close>: one client at a time, a regular file opened for
  appending by every chunk and for reading by the reply, no mutex and no seek command. It is the
  specification the newer server started from, so the theory ends by comparing the two: on a
  device that still has room for every command both give every client the same bytes, while the
  newer server on a regular file does not.

  The state is that of the newer server; \<open>file_mutex\<close> plays no part here.
\<close>

section \<open>Serving a client\<close>

fun old_client_loop ::
  "'w file_ops \<Rightarrow> client \<Rightarrow> byte list list \<Rightarrow> 'w server \<Rightarrow> (client_end \<times> 'w server) outcome option" where
  "old_client_loop ops cl [] s = Some (Inr (Hung_Up, s))"
| "old_client_loop ops cl (chunk # chunks) s =
     (case sys_open ops WRONLY_CREAT_APPEND (data_file s) of
        Inl e \<Rightarrow> Some (Inl e)
      | Inr (data_fd, w) \<Rightarrow>
          if data_fd = -1 then Some (Inr (Server_Exits, cleanup False ops (s\<lparr>data_file := w\<rparr>)))
          else
            (case sys_write ops data_fd chunk w of
               Inl e \<Rightarrow> Some (Inl e)
             | Inr (_, w1) \<Rightarrow>
                 let s1 = s\<lparr>data_file := sys_close ops data_fd w1\<rparr> in
                 if newline \<in> set chunk then
                   (case sys_open ops RDONLY (data_file s1) of
                      Inl e \<Rightarrow> Some (Inl e)
                    | Inr (file_fd, w2) \<Rightarrow>
                        let s2 = s1\<lparr>data_file := w2\<rparr> in
                        if file_fd = -1 then Some (Inr (Server_Exits, cleanup False ops s2))
                        else
                          (case send_loop ops cl file_fd s2 of
                             None \<Rightarrow> None
                           | Some (Inl e) \<Rightarrow> Some (Inl e)
                           | Some (Inr (there, s3)) \<Rightarrow>
                               if \<not> there then Some (Inr (Server_Killed, s3))
                               else Some (Inr (Replied, s3\<lparr>data_file := sys_close ops file_fd (data_file s3)\<rparr>))))
                 else old_client_loop ops cl chunks s1))"

definition old_handle_client ::
  "'w file_ops \<Rightarrow> client \<Rightarrow> 'w server \<Rightarrow> (client_end \<times> 'w server) outcome option" where
  "old_handle_client ops cl s = old_client_loop ops cl (recvs cl) (s\<lparr>sent := []\<rparr>)"

definition old_signal_handler :: "int \<Rightarrow> bool \<Rightarrow> bool" where
  "old_signal_handler signo run = (if signo = SIGINT \<or> signo = SIGTERM then False else run)"

text \<open>
  The loop of \<open>main\<close> over \<open>accept\<close>, with what happens there: a client, with the signal that comes while
  it is served, if one does; a signal between the test of \<open>running\<close> and \<open>accept\<close>, which interrupts
  neither; the return of -1. The handlers are installed without \<open>SA_RESTART\<close>, so a signal that comes
  while the server waits in \<open>recv\<close> makes that \<open>recv\<close> fail, and the loop over it ends: \<open>Some (signo, k)\<close>
  is the signal \<open>signo\<close> after \<open>k\<close> chunks. One that comes when no further chunk is waited for has no
  such effect.
\<close>

datatype arrival = Serves client "(int \<times> nat) option" | Signalled int | Accept_Fails

abbreviation Arrives :: "client \<Rightarrow> arrival" where
  "Arrives cl \<equiv> Serves cl None"

definition cut_short :: "(int \<times> nat) option \<Rightarrow> client \<Rightarrow> client" where
  "cut_short sig cl = (case sig of None \<Rightarrow> cl | Some (signo, k) \<Rightarrow> cl\<lparr>recvs := take k (recvs cl)\<rparr>)"

definition caught :: "(int \<times> nat) option \<Rightarrow> bool \<Rightarrow> bool" where
  "caught sig run = (case sig of None \<Rightarrow> run | Some (signo, k) \<Rightarrow> old_signal_handler signo run)"

lemma undisturbed [simp]: "cut_short None cl = cl" "caught None run = run"
  by (simp_all add: cut_short_def caught_def)

text \<open>
  The result has how each client ended and what it was sent, what has become of the process, and the
  state. With no more arrivals the server waits.
\<close>

fun old_accept_loop ::
  "'w file_ops \<Rightarrow> bool \<Rightarrow> arrival list \<Rightarrow> 'w server \<Rightarrow>
   ((client_end \<times> byte list) list \<times> fate \<times> 'w server) outcome option" where
  "old_accept_loop ops run [] s = Some (Inr ([], Waits, s))"
| "old_accept_loop ops run (Signalled signo # as) s = old_accept_loop ops (old_signal_handler signo run) as s"
| "old_accept_loop ops run (Accept_Fails # as) s = Some (Inr ([], Exited 0, cleanup False ops s))"
| "old_accept_loop ops run (Serves cl sig # as) s =
     (case old_handle_client ops (cut_short sig cl) s of
        None \<Rightarrow> None
      | Some (Inl e) \<Rightarrow> Some (Inl e)
      | Some (Inr (r, s1)) \<Rightarrow>
          if r = Server_Exits then Some (Inr ([(r, sent s1)], Exited 0, s1))
          else if r = Server_Killed then Some (Inr ([(r, sent s1)], Killed, s1))
          else if \<not> caught sig run then Some (Inr ([(r, sent s1)], Exited 0, cleanup False ops s1))
          else
            (case old_accept_loop ops (caught sig run) as s1 of
               None \<Rightarrow> None
             | Some (Inl e) \<Rightarrow> Some (Inl e)
             | Some (Inr (rs, ending, s2)) \<Rightarrow> Some (Inr ((r, sent s1) # rs, ending, s2))))"

section \<open>On a regular file\<close>

text \<open>The reply: opened, sent whole, closed.\<close>

lemma old_reply:
  assumes "regular_ok (data_file s)" and "0 < free_count (data_file s)" and "reliable cl"
  shows "\<exists>fd w1 w2. sys_open regular_ops RDONLY (data_file s) = Inr (fd, w1) \<and> 0 \<le> fd \<and>
    send_loop regular_ops cl fd (s\<lparr>data_file := w1\<rparr>) =
      Some (Inr (True, s\<lparr>data_file := w2, sent := sent s @ bytes (data_file s)\<rparr>)) \<and>
    regular_ok (sys_close regular_ops fd w2) \<and> bytes (sys_close regular_ops fd w2) = bytes (data_file s) \<and>
    max_size (sys_close regular_ops fd w2) = max_size (data_file s) \<and>
    free_count (sys_close regular_ops fd w2) = free_count (data_file s)"
proof -
  let ?w = "data_file s"
  obtain n where n: "free_count ?w = Suc n" using assms(2) by (cases "free_count ?w") auto
  have "present ?w" using assms(1) by (simp add: regular_ok_def)
  from reg_open_free [OF this n, of RDONLY] obtain fd w1 where
    w1: "reg_open RDONLY ?w = Inr (fd, w1)" "0 \<le> fd" "present w1" "bytes w1 = bytes ?w"
    "max_size w1 = max_size ?w" "free_count w1 = n" "desc_at fd w1 = Some (0, False)"
    by auto
  have ok: "regular_ok w1" using w1 assms(1) by (simp add: regular_ok_def)
  have pos: "regular_pos fd w1 = Some 0" using w1(7) by (simp add: regular_pos_def)
  obtain w2 where w2: "send_loop regular_ops cl fd (s\<lparr>data_file := w1\<rparr>) =
      Some (Inr (True, s\<lparr>data_file := w2, sent := sent s @ bytes ?w\<rparr>))"
    "regular_ok w2" "regular_view w2 = regular_view w1" "regular_pos fd w2 \<noteq> None"
    using regular_file.send_loop_all [of "s\<lparr>data_file := w1\<rparr>" fd 0 cl] ok pos assms(3) w1(4)
    by (auto simp: reliable_def regular_view_def)
  have d: "desc_at fd w2 \<noteq> None" using w2(4) by (auto simp: regular_pos_def split: option.splits)
  have "bytes w2 = bytes ?w" "max_size w2 = max_size ?w" "free_count w2 = n"
    using w2(3) w1(4-6) by (simp_all add: regular_view_def)
  then show ?thesis
    using w1(1,2) w2(1,2) n reg_close_free [OF d] unfolding regular_ops_simps
    by (intro exI [of _ fd] exI [of _ w1] exI [of _ w2]) (simp add: regular_ops_def regular_ok_def)
qed

text \<open>What a client gets into the file: its chunks up to the first one with a newline.\<close>

fun request :: "byte list list \<Rightarrow> byte list" where
  "request [] = []"
| "request (c # cs) = (if newline \<in> set c then c else c @ request cs)"

definition complete :: "byte list list \<Rightarrow> bool" where
  "complete cs \<longleftrightarrow> (\<exists>c \<in> set cs. newline \<in> set c)"

lemma complete_simps [simp]:
  "\<not> complete []" "complete (c # cs) \<longleftrightarrow> newline \<in> set c \<or> complete cs"
  by (simp_all add: complete_def)

lemma old_client:
  assumes "regular_ok (data_file s)" and "0 < free_count (data_file s)" and "reliable cl"
    and "length (bytes (data_file s)) + length (request cs) \<le> max_size (data_file s)"
  shows "\<exists>w'. old_client_loop regular_ops cl cs s = Some (Inr (if complete cs then Replied else Hung_Up,
      s\<lparr>data_file := w', sent := (if complete cs then sent s @ bytes w' else sent s)\<rparr>)) \<and>
    regular_ok w' \<and> bytes w' = bytes (data_file s) @ request cs \<and>
    max_size w' = max_size (data_file s) \<and> free_count w' = free_count (data_file s)"
  using assms
proof (induction cs arbitrary: s)
  case Nil
  then show ?case by (intro exI [of _ "data_file s"]) simp
next
  case (Cons c cs)
  have "length (bytes (data_file s)) + length c \<le> max_size (data_file s)"
    using Cons.prems(4) by (auto split: if_splits)
  from append_chunk [OF Cons.prems(1,2) this] obtain fd w1 n w2 where
    w: "sys_open regular_ops WRONLY_CREAT_APPEND (data_file s) = Inr (fd, w1)" "0 \<le> fd"
    "sys_write regular_ops fd c w1 = Inr (n, w2)" and
    w3: "regular_ok (sys_close regular_ops fd w2)" "bytes (sys_close regular_ops fd w2) = bytes (data_file s) @ c"
    "max_size (sys_close regular_ops fd w2) = max_size (data_file s)"
    "free_count (sys_close regular_ops fd w2) = free_count (data_file s)"
    by blast
  let ?s = "s\<lparr>data_file := sys_close regular_ops fd w2\<rparr>"
  show ?case
  proof (cases "newline \<in> set c")
    case True
    have "regular_ok (data_file ?s)" "0 < free_count (data_file ?s)" using w3 Cons.prems(2) by simp_all
    from old_reply [OF this Cons.prems(3)] obtain fd' w1' w2' where
      r: "sys_open regular_ops RDONLY (data_file ?s) = Inr (fd', w1')" "0 \<le> fd'"
      "send_loop regular_ops cl fd' (?s\<lparr>data_file := w1'\<rparr>) =
        Some (Inr (True, ?s\<lparr>data_file := w2', sent := sent ?s @ bytes (data_file ?s)\<rparr>))" and
      w4: "regular_ok (sys_close regular_ops fd' w2')"
      "bytes (sys_close regular_ops fd' w2') = bytes (data_file ?s)"
      "max_size (sys_close regular_ops fd' w2') = max_size (data_file ?s)"
      "free_count (sys_close regular_ops fd' w2') = free_count (data_file ?s)"
      by blast
    from True w r w3 w4 show ?thesis
      by (intro exI [of _ "sys_close regular_ops fd' w2'"]) simp
  next
    case False
    have prems: "regular_ok (data_file ?s)" "0 < free_count (data_file ?s)"
      "length (bytes (data_file ?s)) + length (request cs) \<le> max_size (data_file ?s)"
      using w3 Cons.prems(2,4) False by simp_all
    from Cons.IH [OF prems(1,2) Cons.prems(3) prems(3)] obtain w' where
      "old_client_loop regular_ops cl cs ?s = Some (Inr (if complete cs then Replied else Hung_Up,
        ?s\<lparr>data_file := w', sent := (if complete cs then sent ?s @ bytes w' else sent ?s)\<rparr>))"
      "regular_ok w'" "bytes w' = bytes (data_file ?s) @ request cs"
      "max_size w' = max_size (data_file ?s)" "free_count w' = free_count (data_file ?s)"
      by blast
    with False w w3 show ?thesis by (intro exI [of _ w']) simp
  qed
qed

text \<open>What a file that is only appended to gives a list of clients.\<close>

fun appended_replies :: "byte list \<Rightarrow> client list \<Rightarrow> (client_end \<times> byte list) list" where
  "appended_replies old [] = []"
| "appended_replies old (cl # cls) =
     (let new = old @ request (recvs cl) in
      (if complete (recvs cl) then (Replied, new) else (Hung_Up, [])) # appended_replies new cls)"

lemma old_client_served:
  assumes "regular_ok (data_file s)" and "0 < free_count (data_file s)" and "reliable cl"
    and "length (bytes (data_file s)) + length (request (recvs cl)) \<le> max_size (data_file s)"
  shows "\<exists>s'. old_handle_client regular_ops cl s = Some (Inr (if complete (recvs cl) then Replied else Hung_Up, s')) \<and>
    sent s' = (if complete (recvs cl) then bytes (data_file s') else []) \<and> regular_ok (data_file s') \<and>
    bytes (data_file s') = bytes (data_file s) @ request (recvs cl) \<and>
    max_size (data_file s') = max_size (data_file s) \<and> free_count (data_file s') = free_count (data_file s)"
proof -
  let ?s = "s\<lparr>sent := []\<rparr>"
  have prems: "regular_ok (data_file ?s)" "0 < free_count (data_file ?s)"
    "length (bytes (data_file ?s)) + length (request (recvs cl)) \<le> max_size (data_file ?s)"
    using assms by simp_all
  from old_client [OF prems(1,2) assms(3) prems(3)] obtain w where
    "old_client_loop regular_ops cl (recvs cl) ?s = Some (Inr (if complete (recvs cl) then Replied else Hung_Up,
      ?s\<lparr>data_file := w, sent := (if complete (recvs cl) then sent ?s @ bytes w else sent ?s)\<rparr>))"
    "regular_ok w" "bytes w = bytes (data_file ?s) @ request (recvs cl)"
    "max_size w = max_size (data_file ?s)" "free_count w = free_count (data_file ?s)" by blast
  then show ?thesis unfolding old_handle_client_def by simp
qed

lemma old_clients:
  assumes "regular_ok (data_file s)" and "0 < free_count (data_file s)" and "\<forall>cl \<in> set cls. reliable cl"
    and "length (bytes (data_file s)) + length (concat (map (\<lambda>cl. request (recvs cl)) cls)) \<le> max_size (data_file s)"
  shows "\<exists>s'. (\<forall>as rs ending s2. old_accept_loop regular_ops True as s' = Some (Inr (rs, ending, s2)) \<longrightarrow>
      old_accept_loop regular_ops True (map Arrives cls @ as) s =
        Some (Inr (appended_replies (bytes (data_file s)) cls @ rs, ending, s2))) \<and>
    regular_ok (data_file s') \<and>
    bytes (data_file s') = bytes (data_file s) @ concat (map (\<lambda>cl. request (recvs cl)) cls) \<and>
    max_size (data_file s') = max_size (data_file s) \<and> free_count (data_file s') = free_count (data_file s)"
  using assms
proof (induction cls arbitrary: s)
  case Nil
  then show ?case by (intro exI [of _ s]) simp
next
  case (Cons cl cls)
  let ?r = "if complete (recvs cl) then Replied else Hung_Up"
  have room: "length (bytes (data_file s)) + length (request (recvs cl)) \<le> max_size (data_file s)"
    using Cons.prems(4) by simp
  from old_client_served [OF Cons.prems(1,2) _ room] Cons.prems(3) obtain s1 where
    s1: "old_handle_client regular_ops cl s = Some (Inr (?r, s1))"
    "sent s1 = (if complete (recvs cl) then bytes (data_file s1) else [])" "regular_ok (data_file s1)"
    "bytes (data_file s1) = bytes (data_file s) @ request (recvs cl)"
    "max_size (data_file s1) = max_size (data_file s)" "free_count (data_file s1) = free_count (data_file s)"
    by auto
  obtain s' where s': "\<forall>as rs ending s2. old_accept_loop regular_ops True as s' = Some (Inr (rs, ending, s2)) \<longrightarrow>
      old_accept_loop regular_ops True (map Arrives cls @ as) s1 =
        Some (Inr (appended_replies (bytes (data_file s1)) cls @ rs, ending, s2))"
    "regular_ok (data_file s')"
    "bytes (data_file s') = bytes (data_file s1) @ concat (map (\<lambda>cl. request (recvs cl)) cls)"
    "max_size (data_file s') = max_size (data_file s1)" "free_count (data_file s') = free_count (data_file s1)"
    using Cons.IH [of s1] Cons.prems s1(3-) by auto
  have "old_accept_loop regular_ops True (map Arrives (cl # cls) @ as) s =
      Some (Inr (appended_replies (bytes (data_file s)) (cl # cls) @ rs, ending, s2))"
    if "old_accept_loop regular_ops True as s' = Some (Inr (rs, ending, s2))" for as rs ending s2
    using s'(1) [rule_format, OF that] s1(1,2,4) by (simp add: Let_def)
  then show ?case using s'(2-) s1(3-) by (intro exI [of _ s']) simp
qed

lemma old_clients_only:
  assumes "regular_ok (data_file s)" and "0 < free_count (data_file s)" and "\<forall>cl \<in> set cls. reliable cl"
    and "length (bytes (data_file s)) + length (concat (map (\<lambda>cl. request (recvs cl)) cls)) \<le> max_size (data_file s)"
  shows "\<exists>s'. old_accept_loop regular_ops True (map Arrives cls) s =
      Some (Inr (appended_replies (bytes (data_file s)) cls, Waits, s')) \<and>
    bytes (data_file s') = bytes (data_file s) @ concat (map (\<lambda>cl. request (recvs cl)) cls) \<and>
    free_count (data_file s') = free_count (data_file s)"
proof -
  from old_clients [OF assms] obtain s' where
    "\<forall>as rs ending s2. old_accept_loop regular_ops True as s' = Some (Inr (rs, ending, s2)) \<longrightarrow>
      old_accept_loop regular_ops True (map Arrives cls @ as) s =
        Some (Inr (appended_replies (bytes (data_file s)) cls @ rs, ending, s2))"
    "bytes (data_file s') = bytes (data_file s) @ concat (map (\<lambda>cl. request (recvs cl)) cls)"
    "free_count (data_file s') = free_count (data_file s)" by blast
  from this(1) [rule_format, of "[]" "[]"] this(2,3) show ?thesis by simp
qed

section \<open>The two servers\<close>








section \<open>Properties\<close>

text \<open>
  The older server on a regular file serves every client there is: each that sends a newline gets
  the whole file, with its own bytes last, one that does not leaves its bytes in the file and stops
  nobody, and no descriptor is lost.
\<close>

theorem old_server_appends:
  assumes "regular_ok (data_file s)" and "0 < free_count (data_file s)" and "\<forall>cl \<in> set cls. reliable cl"
    and "length (bytes (data_file s)) + length (concat (map (\<lambda>cl. request (recvs cl)) cls)) \<le> max_size (data_file s)"
  shows "\<exists>s'. old_accept_loop regular_ops True (map Arrives cls) s =
      Some (Inr (appended_replies (bytes (data_file s)) cls, Waits, s')) \<and>
    bytes (data_file s') = bytes (data_file s) @ concat (map (\<lambda>cl. request (recvs cl)) cls) \<and>
    free_count (data_file s') = free_count (data_file s)"
  using assms by (rule old_clients_only)

lemma old_server_appends_witness:
  "\<exists>s'. old_accept_loop regular_ops True
      [Arrives (example_client [''by'', ''e'']), Arrives (example_client [''!'' @ [newline], ''x''])]
      example_disk = Some (Inr ([(Hung_Up, []), (Replied, ''one'' @ [newline] @ ''bye!'' @ [newline])], Waits, s')) \<and>
    free_count (data_file s') = 1"
  using old_server_appends
    [of example_disk "[example_client [''by'', ''e''], example_client [''!'' @ [newline], ''x'']]"]
  by (auto simp: Let_def)

text \<open>
  The newer server built without the character device opens the file without \<open>O_APPEND\<close> and writes
  at its start: a line no longer than the file replaces the oldest bytes, so the file does not
  grow and what earlier clients sent is destroyed.
\<close>

theorem regular_build_overwrites:
  assumes "regular_ok (data_file s)" and "file_mutex s = None" and "reliable cl"
    and "recvs cl = c # rest" and "newline \<in> set c" and "take 19 (recv_into c (stale cl)) \<noteq> seek_prefix"
    and "0 < free_count (data_file s)" and "length c \<le> length (bytes (data_file s))"
  shows "\<exists>w'. handle_client False regular_ops me cl s = Some (Inr (Replied,
      s\<lparr>data_file := w', sent := c @ drop (length c) (bytes (data_file s))\<rparr>)) \<and>
    bytes w' = c @ drop (length c) (bytes (data_file s)) \<and> length (bytes w') = length (bytes (data_file s))"
  using regular_file.chunks_replied [of s cl "[]" c rest False me] assms
  by (auto simp: regular_view_def regular_file.put_all_def put_front_def regular_ok_def)

lemma regular_build_overwrites_witness:
  "\<exists>s'. handle_client False regular_ops 1 (example_client [''2'' @ [newline]]) example_disk =
      Some (Inr (Replied, s')) \<and> sent s' = ''2'' @ [newline] @ ''e'' @ [newline]"
proof -
  have "take 19 (recv_into (''2'' @ [newline]) (replicate 1024 (CHR 0x00))) \<noteq> seek_prefix"
    by (simp add: recv_into_def seek_prefix_def)
  then have "\<exists>w'. handle_client False regular_ops 1 (example_client [''2'' @ [newline]]) example_disk =
      Some (Inr (Replied, example_disk\<lparr>data_file := w',
        sent := (''2'' @ [newline]) @ drop (length (''2'' @ [newline])) (bytes (data_file example_disk))\<rparr>)) \<and>
    bytes w' = (''2'' @ [newline]) @ drop (length (''2'' @ [newline])) (bytes (data_file example_disk)) \<and>
    length (bytes w') = length (bytes (data_file example_disk))"
    by (intro regular_build_overwrites [where rest = "[]"]) (simp_all add: example_disk_def [THEN arg_cong, of file_mutex])
  then show ?thesis by auto
qed



end
