(* ===== verification/Server_Progress.thy ===== *)
theory Server_Progress imports Main Server_Threads begin

text \<open>
  The server comes to an end with its work: a finite number of clients, each with one line, all of
  them there from the start and competing for \<open>file_mutex\<close>. Every step of a client's thread brings
  it closer to its end, some thread can always step while one has not ended, and so every client
  is replied to. The steps are those of the build on the character device, which starts no
  timestamp thread.
\<close>

section \<open>The crowd\<close>

definition crowd :: "(tid \<rightharpoonup> client) \<Rightarrow> 'w \<Rightarrow> 'w system" where
  "crowd clients w = (starting w)\<lparr>phases := (\<lambda>t. map_option Waiting (clients t))\<rparr>"

text \<open>A step of a client that is there already.\<close>

definition work_step :: "bool \<Rightarrow> (tid \<Rightarrow> 'w file_ops) \<Rightarrow> 'w system \<Rightarrow> 'w system \<Rightarrow> bool" where
  "work_step cd ops c c' \<longleftrightarrow> system_step cd ops c c' \<and> dom (phases c') = dom (phases c) \<and>
     (\<forall>t ts p. history c' \<noteq> history c @ [Stamp_Done t ts p])"

lemma crowd_reachable:
  assumes "finite (dom clients)"
  shows "(system_step cd ops)\<^sup>*\<^sup>* (starting w) (crowd clients w)"
proof -
  have "(system_step cd ops)\<^sup>*\<^sup>* (starting w) (crowd (clients |` A) w)" if "finite A" for A
    using that
  proof (induction A)
    case empty
    then show ?case by (simp add: crowd_def starting_def)
  next
    case (insert t A)
    let ?c = "crowd (clients |` A) w"
    show ?case
    proof (cases "clients t")
      case None
      then have "clients |` insert t A = clients |` A" by (auto simp: restrict_map_def fun_eq_iff)
      with insert show ?thesis by simp
    next
      case (Some cl)
      have "system_step cd ops ?c (?c\<lparr>phases := (phases ?c)(t \<mapsto> Waiting cl)\<rparr>)"
        using insert(2) by (intro arrive) (simp_all add: crowd_def starting_def)
      moreover have "?c\<lparr>phases := (phases ?c)(t \<mapsto> Waiting cl)\<rparr> = crowd (clients |` insert t A) w"
        using Some by (auto simp: crowd_def starting_def restrict_map_def fun_eq_iff)
      ultimately show ?thesis using insert(3) by (simp add: rtranclp.rtrancl_into_rtrancl)
    qed
  qed
  moreover have "clients |` dom clients = clients" by (auto simp: restrict_map_def fun_eq_iff domIff)
  ultimately show ?thesis using assms by metis
qed

section \<open>Descent\<close>

text \<open>The steps a thread still has before it.\<close>

definition steps_left :: "client_phase option \<Rightarrow> nat" where
  "steps_left ph =
     (case ph of
        Some (Waiting cl) \<Rightarrow> length (recvs cl) + 2
      | Some (Serving cl rem buf) \<Rightarrow> length rem + 1
      | _ \<Rightarrow> 0)"

definition all_left :: "'w system \<Rightarrow> nat" where
  "all_left c = sum (\<lambda>t. steps_left (phases c t)) (dom (phases c))"

lemma all_left_upd:
  assumes "finite (dom (phases c))" and "phases c t \<noteq> None" and "phases c' = (phases c)(t \<mapsto> ph)"
    and "steps_left (Some ph) < steps_left (phases c t)"
  shows "all_left c' < all_left c"
proof -
  have dom: "t \<in> dom (phases c)" "dom (phases c') = dom (phases c)" using assms(2,3) by auto
  have "sum (\<lambda>u. steps_left (phases c' u)) (dom (phases c) - {t}) =
      sum (\<lambda>u. steps_left (phases c u)) (dom (phases c) - {t})"
    by (rule sum.cong) (auto simp: assms(3))
  then show ?thesis
    using assms(3,4) dom by (simp add: all_left_def sum.remove [OF assms(1) dom(1)])
qed

lemma work_step_descends:
  assumes "work_step cd ops c c'" and fin: "finite (dom (phases c))"
  shows "all_left c' < all_left c"
proof -
  have step: "system_step cd ops c c'" and dom: "dom (phases c') = dom (phases c)"
    and nostamp: "\<And>t ts p. history c' \<noteq> history c @ [Stamp_Done t ts p]"
    using assms(1) by (auto simp: work_step_def)
  from step show ?thesis
  proof cases
    case (arrive t cl)
    with dom show ?thesis by auto
  next
    case (lock t cl s)
    then show ?thesis
      by (intro all_left_upd [OF fin, where t = t and ph = "Serving cl (recvs cl) (stale cl)"]) (simp_all add: steps_left_def)
  next
    case (receive t cl chunk chunks buf s)
    then show ?thesis
      by (intro all_left_upd [OF fin, where t = t and ph = "Serving cl chunks (recv_into chunk buf)"]) (simp_all add: steps_left_def)
  next
    case (finish t cl chunk chunks buf r s)
    then show ?thesis
      by (intro all_left_upd [OF fin, where t = t and ph = "Ended"]) (simp_all add: steps_left_def)
  next
    case (hang_up t cl buf)
    then show ?thesis
      by (intro all_left_upd [OF fin, where t = t and ph = "Ended"]) (simp_all add: steps_left_def)
  next
    case (stamp t ts p s)
    with nostamp [of t ts p] show ?thesis by simp
  next
    case (depart t)
    with dom show ?thesis by auto
  qed
qed

section \<open>Who is where\<close>

text \<open>Each client is waiting, being served, or ended and then in the history, once.\<close>

fun event_tid :: "event \<Rightarrow> tid" where
  "event_tid (Client_Done t cl r reply) = t"
| "event_tid (Stamp_Done t ts p) = t"

definition event_of :: "(tid \<rightharpoonup> client) \<Rightarrow> event \<Rightarrow> bool" where
  "event_of clients e \<longleftrightarrow> (\<exists>t cl r reply. e = Client_Done t cl r reply \<and> clients t = Some cl)"

fun ends_server :: "event \<Rightarrow> bool" where
  "ends_server (Client_Done t cl r reply) \<longleftrightarrow> r \<noteq> Replied \<and> r \<noteq> Hung_Up"
| "ends_server (Stamp_Done t ts p) \<longleftrightarrow> p \<noteq> Continues ()"

definition crowd_inv :: "(tid \<rightharpoonup> client) \<Rightarrow> 'w system \<Rightarrow> bool" where
  "crowd_inv clients c \<longleftrightarrow> dom (phases c) = dom clients \<and>
     (\<forall>t cl. phases c t = Some (Waiting cl) \<longrightarrow> clients t = Some cl) \<and>
     (\<forall>t cl rem buf. phases c t = Some (Serving cl rem buf) \<longrightarrow> clients t = Some cl) \<and>
     (\<forall>e \<in> set (history c). event_of clients e) \<and> distinct (map event_tid (history c)) \<and>
     (\<forall>t. phases c t = Some Ended \<longleftrightarrow> t \<in> event_tid ` set (history c)) \<and>
     (alive c \<or> (\<exists>e \<in> set (history c). ends_server e))"

lemma crowd_invD:
  assumes "crowd_inv clients c"
  shows "dom (phases c) = dom clients"
    and "phases c t = Some (Waiting cl) \<Longrightarrow> clients t = Some cl"
    and "phases c t = Some (Serving cl rem buf) \<Longrightarrow> clients t = Some cl"
    and "e \<in> set (history c) \<Longrightarrow> event_of clients e" and "distinct (map event_tid (history c))"
    and "phases c t = Some Ended \<longleftrightarrow> t \<in> event_tid ` set (history c)"
    and "\<not> alive c \<Longrightarrow> \<exists>e \<in> set (history c). ends_server e"
  using assms by (auto simp: crowd_inv_def)

lemma crowd_inv_start: "crowd_inv clients (crowd clients w)"
  by (auto simp: crowd_inv_def crowd_def starting_def)

lemma crowd_inv_ended:
  assumes "crowd_inv clients c" and "phases c t = Some (Serving cl rem buf)"
    and "phases c' = (phases c)(t \<mapsto> Ended)" and "history c' = history c @ [Client_Done t cl r reply]"
    and "alive c' \<or> r \<noteq> Replied \<and> r \<noteq> Hung_Up"
  shows "crowd_inv clients c'"
proof -
  note inv = crowd_invD [OF assms(1)]
  have t: "t \<notin> event_tid ` set (history c)" using inv(6) [of t] assms(2) by auto
  have "t \<in> dom (phases c)" "clients t = Some cl" using assms(2) inv(3) by auto
  then show ?thesis
    using inv(1,2,3,4,5,6) t assms(3-5) unfolding crowd_inv_def by (auto simp: event_of_def)
qed

lemma crowd_inv_step:
  assumes "work_step cd ops c c'" and "crowd_inv clients c"
  shows "crowd_inv clients c'"
proof -
  have step: "system_step cd ops c c'" and dom: "dom (phases c') = dom (phases c)"
    and nostamp: "\<And>t ts p. history c' \<noteq> history c @ [Stamp_Done t ts p]"
    using assms(1) by (auto simp: work_step_def)
  note inv = crowd_invD [OF assms(2)]
  have keep: "crowd_inv clients (c\<lparr>server := s, phases := (phases c)(t \<mapsto> Serving cl rem buf)\<rparr>)"
    if "phases c t = Some (Waiting cl) \<or> (\<exists>rem' buf'. phases c t = Some (Serving cl rem' buf'))"
    for s t cl rem buf
  proof -
    have "t \<notin> event_tid ` set (history c)" using inv(6) [of t] that by auto
    moreover have "clients t = Some cl" "t \<in> dom (phases c)" using that inv(2,3) by auto
    ultimately show ?thesis using assms(2) unfolding crowd_inv_def by auto
  qed
  from step show ?thesis
  proof cases
    case (arrive t cl)
    with dom show ?thesis by auto
  next
    case (lock t cl s)
    with keep [where s = "s\<lparr>sent := []\<rparr>" and t = t and cl = cl] show ?thesis by simp
  next
    case (receive t cl chunk chunks buf s)
    with keep [where s = s and t = t and cl = cl] show ?thesis by blast
  next
    case (finish t cl chunk chunks buf r s)
    then show ?thesis by (intro crowd_inv_ended [OF assms(2) finish(3)]) (simp_all del: client_loop.simps, blast)
  next
    case (hang_up t cl buf)
    then show ?thesis by (intro crowd_inv_ended [OF assms(2) hang_up(3)]) simp_all
  next
    case (stamp t ts p s)
    with nostamp [of t ts p] show ?thesis by simp
  next
    case (depart t)
    with dom show ?thesis by auto
  qed
qed

lemma work_steps_reach:
  assumes "finite (dom clients)" and "(work_step cd ops)\<^sup>*\<^sup>* (crowd clients w) c"
  shows "(system_step cd ops)\<^sup>*\<^sup>* (starting w) c" and "crowd_inv clients c"
proof -
  have "(system_step cd ops)\<^sup>*\<^sup>* (crowd clients w) c"
    using assms(2) by (rule rtranclp_mono [THEN predicate2D, rotated]) (auto simp: work_step_def)
  with crowd_reachable [OF assms(1)] show "(system_step cd ops)\<^sup>*\<^sup>* (starting w) c" by (rule rtranclp_trans)
  show "crowd_inv clients c"
    using assms(2) by (induction rule: rtranclp_induct) (auto intro: crowd_inv_start crowd_inv_step)
qed

section \<open>Progress\<close>

text \<open>Lines only, with room for all of them and a descriptor to lose for every further chunk.\<close>

definition crowd_fits :: "(tid \<rightharpoonup> client) \<Rightarrow> device \<Rightarrow> bool" where
  "crowd_fits clients w \<longleftrightarrow> finite (dom clients) \<and> (\<forall>t cl. clients t = Some cl \<longrightarrow> sends_line cl) \<and>
     (\<Sum>t \<in> dom clients. length (recvs (the (clients t))) - 1) < free_fds (device_view w) \<and>
     (\<Sum>t \<in> dom clients. length (concat (recvs (the (clients t))))) \<le> space (device_view w)"

lemma history_sum:
  assumes "distinct (map event_tid es)" and "\<And>e. e \<in> set es \<Longrightarrow> g e = f (event_tid e)"
  shows "sum_list (map g es) = sum f (event_tid ` set es)"
proof -
  have "map g es = map f (map event_tid es)" using assms(2) by simp
  then have "sum_list (map g es) = sum_list (map f (map event_tid es))" by (rule arg_cong)
  also have "\<dots> = sum f (set (map event_tid es))" by (rule sum_list_distinct_conv_sum_set [OF assms(1)])
  finally show ?thesis by (simp only: set_map)
qed

lemma replies_ok_replied:
  "replies_ok es l \<Longrightarrow> Client_Done t cl r reply \<in> set es \<Longrightarrow> r = Replied"
  by (induction es l rule: replies_ok.induct) auto

text \<open>What has been served left the device with room for the others.\<close>

lemma crowd_base:
  assumes reach: "(system_step cd (device_ops mc))\<^sup>*\<^sup>* (starting w) c" and inv: "crowd_inv clients c"
    and "device_ok mc w" and fits: "crowd_fits clients w"
    and base: "serial_run cd (device_ops mc) (history c) (server (starting w)) = Some base"
  shows "device_ok mc (data_file base)" and "file_mutex base = None"
    and "drv_abs (kern (data_file base)) = log_after (history c) (drv_abs (kern w))"
    and "replies_ok (history c) (drv_abs (kern w))" and "alive c"
    and "clients t = Some cl \<Longrightarrow> phases c t \<noteq> Some Ended \<Longrightarrow>
      length (recvs cl) - 1 < free_fds (device_view (data_file base)) \<and>
      length (concat (recvs cl)) \<le> space (device_view (data_file base))"
proof -
  let ?E = "event_tid ` set (history c)"
  let ?lost = "\<lambda>t. length (recvs (the (clients t))) - 1" and ?size = "\<lambda>t. length (concat (recvs (the (clients t))))"
  note i = crowd_invD [OF inv]
  have fin: "finite (dom clients)" and lines: "\<And>t cl. clients t = Some cl \<Longrightarrow> sends_line cl"
    and lost: "sum ?lost (dom clients) < free_fds (device_view w)"
    and size: "sum ?size (dom clients) \<le> space (device_view w)"
    using fits by (auto simp: crowd_fits_def)
  have E: "?E \<subseteq> dom clients" using i(4) by (force simp: event_of_def)
  have ev: "line_event e" "lost_fds e = ?lost (event_tid e)" "length (line_of e) = ?size (event_tid e)"
    if "e \<in> set (history c)" for e
    using i(4) [OF that] lines by (auto simp: event_of_def line_event_def lost_fds_def line_of_def)
  have sums: "sum_list (map lost_fds (history c)) = sum ?lost ?E"
    "sum_list (map (\<lambda>e. length (line_of e)) (history c)) = sum ?size ?E"
    using ev(2,3) by (auto intro!: history_sum [OF i(5)])
  have le: "sum f ?E \<le> sum f (dom clients)" for f :: "tid \<Rightarrow> nat" using fin E by (intro sum_mono2) simp_all
  have room: "sum_list (map lost_fds (history c)) < free_fds (device_view w)"
    "sum_list (map (\<lambda>e. length (line_of e)) (history c)) \<le> space (device_view w)"
    using le [of ?lost] le [of ?size] lost size unfolding sums by linarith+
  have start: "data_file (server (starting w)) = w" "file_mutex (server (starting w)) = None"
    by (simp_all add: starting_def)
  note run = serial_lines [of mc "server (starting w)" "history c" cd base, unfolded start, OF assms(3) refl ev(1) room base]
  show "device_ok mc (data_file base)" "file_mutex base = None"
    "drv_abs (kern (data_file base)) = log_after (history c) (drv_abs (kern w))"
    "replies_ok (history c) (drv_abs (kern w))"
    using run by simp_all
  show "alive c"
  proof (rule ccontr)
    assume "\<not> alive c"
    then obtain e where e: "e \<in> set (history c)" "ends_server e" using i(7) by blast
    with i(4) obtain t cl r reply where "e = Client_Done t cl r reply" "r \<noteq> Replied"
      by (fastforce simp: event_of_def)
    with e(1) replies_ok_replied [OF run(2)] show False by blast
  qed
  show "length (recvs cl) - 1 < free_fds (device_view (data_file base)) \<and>
      length (concat (recvs cl)) \<le> space (device_view (data_file base))"
    if t: "clients t = Some cl" "phases c t \<noteq> Some Ended"
  proof -
    have "t \<notin> ?E" using t(2) i(6) by simp
    then have "sum f (insert t ?E) = f t + sum f ?E" for f :: "tid \<Rightarrow> nat" by (simp add: image_iff)
    moreover have "sum f (insert t ?E) \<le> sum f (dom clients)" for f :: "tid \<Rightarrow> nat"
      using fin E t(1) by (intro sum_mono2) auto
    ultimately have "f t + sum f ?E \<le> sum f (dom clients)" for f :: "tid \<Rightarrow> nat" by metis
    from this [of ?lost] this [of ?size] lost size run(5,6) t(1) show ?thesis
      unfolding sums by simp
  qed
qed

text \<open>A client that is being served can take its next chunk.\<close>

lemma serving_moves:
  assumes alive: "alive c" and t: "phases c t = Some (Serving cl rem buf)"
    and loop: "client_loop cd (ops t) t cl rem buf (server c) = Some (Inr (Replied, s'))"
  shows "\<exists>c'. work_step cd ops c c'"
proof (cases rem)
  case Nil
  with loop show ?thesis by simp
next
  case (Cons chunk chunks)
  from loop obtain r s where one: "client_loop cd (ops t) t cl [chunk] buf (server c) = Some (Inr (r, s))"
    unfolding Cons using client_loop_first by blast
  have dom: "dom ((phases c)(t \<mapsto> ph)) = dom (phases c)" for ph using t by auto
  show ?thesis
  proof (cases "r = Hung_Up")
    case True
    with one have "system_step cd ops c
        (c\<lparr>server := s, phases := (phases c)(t \<mapsto> Serving cl chunks (recv_into chunk buf))\<rparr>)"
      using alive t Cons by (intro receive) simp_all
    then show ?thesis using dom unfolding work_step_def by fastforce
  next
    case False
    with one have "system_step cd ops c
        (c\<lparr>server := s, phases := (phases c)(t \<mapsto> Ended), history := history c @ [Client_Done t cl r (sent s)],
           alive := (r = Replied)\<rparr>)"
      using alive t Cons by (intro finish) simp_all
    then show ?thesis using dom unfolding work_step_def by fastforce
  qed
qed

section \<open>Every client is served\<close>

lemma crowd_moves:
  assumes "device_ok mc w" and "crowd_fits clients w"
    and "(work_step cd (device_ops mc))\<^sup>*\<^sup>* (crowd clients w) c" and "all_left c \<noteq> 0"
  shows "\<exists>c'. work_step cd (device_ops mc) c c'"
proof -
  have fin: "finite (dom clients)" using assms(2) by (simp add: crowd_fits_def)
  note reach = work_steps_reach [OF fin assms(3)]
  note inv = crowd_invD [OF reach(2)]
  obtain base where base: "serial_run cd (device_ops mc) (history c) (server (starting w)) = Some base"
    "(\<forall>t. \<not> serving c t) \<Longrightarrow> server c = base"
    "\<And>t cl rem buf. phases c t = Some (Serving cl rem buf) \<Longrightarrow>
      handle_client cd (device_ops mc t) t cl base = client_loop cd (device_ops mc t) t cl rem buf (server c)"
    using serialized_steps [OF reach(1)] by blast
  note b = crowd_base [OF reach assms(1,2) base(1)]
  have lines: "sends_line cl" if "clients t = Some cl" for t cl
    using assms(2) that by (auto simp: crowd_fits_def)
  show ?thesis
  proof (cases "\<exists>t cl rem buf. phases c t = Some (Serving cl rem buf)")
    case True
    then obtain t cl rem buf where t: "phases c t = Some (Serving cl rem buf)" by blast
    then have cl: "clients t = Some cl" and "phases c t \<noteq> Some Ended" using inv(3) by auto
    from b(6) [OF this] device_line [OF b(1,2) lines [OF cl], of cd t] obtain s' where
      "handle_client cd (device_ops mc t) t cl base = Some (Inr (Replied, s'))" by blast
    then show ?thesis
      using base(3) [OF t] by (intro serving_moves [OF b(5) t]) (simp only:)
  next
    case none: False
    then have "\<not> serving c t" for t by (auto simp: serving_def split: option.splits client_phase.splits)
    then have "server c = base" by (intro base(2)) blast
    with b(2) have free: "file_mutex (server c) = None" by simp
    obtain t where t: "t \<in> dom (phases c)" "steps_left (phases c t) \<noteq> 0"
      using assms(4) unfolding all_left_def by (metis sum.neutral)
    with none obtain cl where w: "phases c t = Some (Waiting cl)"
      by (auto simp: steps_left_def split: option.splits client_phase.splits)
    have "system_step cd (device_ops mc) c (c\<lparr>server := ((server c)\<lparr>file_mutex := Some t\<rparr>)\<lparr>sent := []\<rparr>,
        phases := (phases c)(t \<mapsto> Serving cl (recvs cl) (stale cl))\<rparr>)"
      using free by (intro lock [OF b(5) w]) (simp add: lock_file_mutex_iff)
    moreover have "dom ((phases c)(t \<mapsto> ph)) = dom (phases c)" for ph using w by auto
    ultimately show ?thesis unfolding work_step_def by fastforce
  qed
qed

lemma crowd_finished:
  assumes "device_ok mc w" and "crowd_fits clients w"
    and "(work_step cd (device_ops mc))\<^sup>*\<^sup>* (crowd clients w) c" and "all_left c = 0"
  shows "replies_ok (history c) (drv_abs (kern w))"
    and "drv_abs (kern (data_file (server c))) = log_after (history c) (drv_abs (kern w))"
    and "file_mutex (server c) = None"
    and "clients t = Some cl \<Longrightarrow> \<exists>reply. Client_Done t cl Replied reply \<in> set (history c)"
proof -
  have fin: "finite (dom clients)" using assms(2) by (simp add: crowd_fits_def)
  note reach = work_steps_reach [OF fin assms(3)]
  note inv = crowd_invD [OF reach(2)]
  have ended: "phases c u = Some Ended" if "u \<in> dom (phases c)" for u
  proof -
    have "steps_left (phases c u) = 0" using assms(4) that fin inv(1) by (simp add: all_left_def)
    with that show ?thesis by (auto simp: steps_left_def split: option.splits client_phase.splits)
  qed
  then have idle: "\<forall>u. \<not> serving c u" by (force simp: serving_def split: option.splits)
  obtain base where "serial_run cd (device_ops mc) (history c) (server (starting w)) = Some base"
    "(\<forall>t. \<not> serving c t) \<Longrightarrow> server c = base"
    using serialized_steps [OF reach(1)] by blast
  with idle have run: "serial_run cd (device_ops mc) (history c) (server (starting w)) = Some (server c)" by blast
  note b = crowd_base [OF reach assms(1,2) run]
  show "replies_ok (history c) (drv_abs (kern w))"
    "drv_abs (kern (data_file (server c))) = log_after (history c) (drv_abs (kern w))"
    "file_mutex (server c) = None" by (fact b)+
  show "\<exists>reply. Client_Done t cl Replied reply \<in> set (history c)" if t: "clients t = Some cl"
  proof -
    have "t \<in> event_tid ` set (history c)" using ended [of t] inv(1) inv(6) [of t] t by auto
    then obtain e where e: "e \<in> set (history c)" "event_tid e = t" by blast
    with inv(4) obtain cl' r reply where e': "e = Client_Done t cl' r reply" "clients t = Some cl'"
      by (fastforce simp: event_of_def)
    with e(1) t replies_ok_replied [OF b(4)] show ?thesis by (metis option.inject)
  qed
qed

text \<open>
  C12. Every client of a crowd that fits is served. The crowd: finitely many clients, all there at once,
  each with one line in one or more chunks (not a seek command) and each taking its reply. It fits
  when the descriptors its lines lose, one for every chunk but a line's last, are fewer than the free
  ones and the ring has room for all lines; and in the driver every allocation succeeds, \<open>krealloc\<close>
  moves no block and no signal interrupts the mutex. Then, however the threads interleave, every step
  brings the end closer; as long as one client has not ended, some step is possible; and once none is
  left every client has been replied to, in the order of the history, and \<open>file_mutex\<close> is free.
\<close>

theorem all_clients_served:
  assumes "device_ok mc w" and "crowd_fits clients w"
    and "(work_step char_device (device_ops mc))\<^sup>*\<^sup>* (crowd clients w) c"
  shows "(\<forall>c'. work_step char_device (device_ops mc) c c' \<longrightarrow> all_left c' < all_left c) \<and>
    (if all_left c \<noteq> 0 then \<exists>c'. work_step char_device (device_ops mc) c c'
     else replies_ok (history c) (drv_abs (kern w)) \<and>
       drv_abs (kern (data_file (server c))) = log_after (history c) (drv_abs (kern w)) \<and>
       file_mutex (server c) = None \<and>
       (\<forall>t cl. clients t = Some cl \<longrightarrow> (\<exists>reply. Client_Done t cl Replied reply \<in> set (history c))))"
proof -
  have fin: "finite (dom clients)" using assms(2) by (simp add: crowd_fits_def)
  have "finite (dom (phases c))" using fin crowd_invD(1) [OF work_steps_reach(2) [OF fin assms(3)]] by simp
  then have "\<forall>c'. work_step char_device (device_ops mc) c c' \<longrightarrow> all_left c' < all_left c"
    by (blast intro: work_step_descends)
  then show ?thesis using crowd_moves [OF assms] crowd_finished [OF assms] by simp
qed

section \<open>An example\<close>

text \<open>Two clients at once.\<close>

definition two_clients :: "tid \<rightharpoonup> client" where
  "two_clients = [1 \<mapsto> example_client [''hi'' @ [newline]], 2 \<mapsto> example_client [''a'', ''b'' @ [newline]]]"

lemma two_clients_fit: "crowd_fits two_clients (data_file example_server)"
proof -
  have "dom two_clients = {1, 2}" by (simp add: two_clients_def insert_commute)
  moreover have "sends_line (example_client [''hi'' @ [newline]])"
    "sends_line (example_client [''a'', ''b'' @ [newline]])"
    by (simp_all add: sends_line_def recv_into_def seek_prefix_def)
  then have "sends_line cl" if "two_clients t = Some cl" for t cl
    using that by (auto simp: two_clients_def fun_upd_def split: if_splits)
  moreover have "the (two_clients 1) = example_client [''hi'' @ [newline]]"
    "the (two_clients 2) = example_client [''a'', ''b'' @ [newline]]"
    by (simp_all add: two_clients_def)
  ultimately show ?thesis by (simp add: crowd_fits_def example_server_view)
qed

lemma all_clients_served_witness:
  "\<exists>c. work_step True (device_ops example_machine) (crowd two_clients (data_file example_server)) c"
proof -
  have left: "all_left (crowd two_clients (data_file example_server)) \<noteq> 0"
  proof -
    have "dom (phases (crowd two_clients (data_file example_server))) = dom two_clients"
      using crowd_invD(1) [OF crowd_inv_start] .
    also have "\<dots> = {1, 2}" by (simp add: two_clients_def insert_commute)
    finally have "dom (phases (crowd two_clients (data_file example_server))) = {1, 2}" .
    then show ?thesis
      by (simp add: all_left_def) (simp add: crowd_def starting_def two_clients_def steps_left_def)
  qed
  show ?thesis
    using all_clients_served [OF example_server_ok two_clients_fit rtranclp.rtrancl_refl, of True] left by simp
qed

end
