(* ===== verification/Sequential_Main.thy ===== *)
theory Sequential_Main imports Main Sequential_Server begin

text \<open>
  The process of the older server, \<^verbatim>\<open>server/aesdsocket_old.c\<close>: from its arguments through the daemon
  and the loop over \<open>accept\<close> to the exit status. The operating system is that of \<open>Server_Main\<close>, and so
  is the record of the process, of which this program uses only the flag and the actions; the data
  file is part of the state too, because every way out through \<open>cleanup\<close> takes it away.
\<close>

section \<open>The way out, the daemon, and the start\<close>

definition old_cleanup ::
  "'w file_ops \<Rightarrow> int \<Rightarrow> process \<Rightarrow> 'w server \<Rightarrow> unit proc \<times> process \<times> 'w server" where
  "old_cleanup ops sock p s =
     (Exits 0, p\<lparr>actions := actions p @ [Shut_Down sock, Closed sock, Unlinked_Data]\<rparr>, cleanup False ops s)"

definition old_daemonize :: "os \<Rightarrow> process \<Rightarrow> unit proc \<times> process" where
  "old_daemonize os p =
     (if fork_ret os < 0 then (Exits 1, p)
      else if fork_ret os > 0 then (Exits 0, p)
      else if setsid_ret os < 0 then (Exits 1, p)
      else (Continues (), p\<lparr>actions := actions p @ [Closed 0, Closed 1, Closed 2]\<rparr>))"

definition old_startup ::
  "'w file_ops \<Rightarrow> os \<Rightarrow> byte list list \<Rightarrow> process \<Rightarrow> 'w server \<Rightarrow> unit proc \<times> process \<times> 'w server" where
  "old_startup ops os argv p s =
     (if sigaction_fails os then (Exits 1, p, s)
      else if socket_ret os = -1 then old_cleanup ops (socket_ret os) p s
      else if setsockopt_ret os < 0 then old_cleanup ops (socket_ret os) p s
      else if bind_ret os = -1 then old_cleanup ops (socket_ret os) p s
      else if listen_ret os = -1 then old_cleanup ops (socket_ret os) p s
      else if daemon_mode argv then (case old_daemonize os p of (r, p1) \<Rightarrow> (r, p1, s))
      else (Continues (), p, s))"

text \<open>
  \<open>main\<close>. An end inside the loop has gone through \<open>cleanup\<close> there, which closed the socket too,
  except for the end by \<open>SIGPIPE\<close>.
\<close>

definition old_main ::
  "'w file_ops \<Rightarrow> os \<Rightarrow> byte list list \<Rightarrow> arrival list \<Rightarrow> process \<Rightarrow> 'w server \<Rightarrow>
   ((client_end \<times> byte list) list \<times> fate \<times> process \<times> 'w server) outcome option" where
  "old_main ops os argv as p s =
     (case old_startup ops os argv p s of
        (Exits n, p1, s1) \<Rightarrow> Some (Inr ([], Exited n, p1, s1))
      | (Continues _, p1, s1) \<Rightarrow>
          if \<not> running p1 then
            (case old_cleanup ops (socket_ret os) p1 s1 of (_, p2, s2) \<Rightarrow> Some (Inr ([], Exited 0, p2, s2)))
          else
            (case old_accept_loop ops True as s1 of
               None \<Rightarrow> None
             | Some (Inl e) \<Rightarrow> Some (Inl e)
             | Some (Inr (rs, ending, s2)) \<Rightarrow>
                 Some (Inr (rs, ending,
                   (if ending = Exited 0
                    then p1\<lparr>actions := actions p1 @ [Shut_Down (socket_ret os), Closed (socket_ret os), Unlinked_Data]\<rparr>
                    else p1), s2))))"

section \<open>The start is that of the newer server\<close>

lemma old_daemonize_same: "old_daemonize os p = daemonize os p"
  by (simp add: old_daemonize_def daemonize_def)

lemma old_startup_same:
  "(case old_startup ops os argv p s of (r, p1, s1) \<Rightarrow> (r, p1)) = server_startup False os argv p"
  by (simp add: old_startup_def server_startup_def old_cleanup_def exit_server_def old_daemonize_same
      split: prod.splits)

lemma old_startup_file:
  "old_startup ops os argv p s = (r, p1, s1) \<Longrightarrow>
    s1 = (if sigaction_fails os \<or> sockets_ready os then s else cleanup False ops s)"
  by (auto simp: old_startup_def old_cleanup_def sockets_ready_def split: if_splits prod.splits)

lemma old_startup_ready:
  assumes "\<not> sigaction_fails os" and "sockets_ready os" and "daemon_mode argv \<longrightarrow> fork_ret os = 0 \<and> 0 \<le> setsid_ret os"
  shows "\<exists>p1. old_startup ops os argv p s = (Continues (), p1, s) \<and> running p1 = running p"
  using assms by (auto simp: old_startup_def old_daemonize_def sockets_ready_def)

section \<open>How the loop ends\<close>

lemma old_client_loop_present:
  "old_client_loop ops cl cs s = Some (Inr (r, s')) \<Longrightarrow> r = Server_Exits \<Longrightarrow> \<exists>s0. s' = cleanup False ops s0"
proof (induction ops cl cs s rule: old_client_loop.induct)
  case (2 ops cl chunk chunks s)
  then show ?case
    by (auto simp: Let_def split: sum.splits prod.splits if_splits option.splits)
qed simp

lemma old_accept_loop_cleanup:
  "old_accept_loop ops run as s = Some (Inr (rs, Exited n, s')) \<Longrightarrow> n = 0 \<and> (\<exists>s0. s' = cleanup False ops s0)"
proof (induction ops run as s arbitrary: rs rule: old_accept_loop.induct)
  case (4 ops run cl sig as s)
  then show ?case
    by (auto simp: old_handle_client_def dest: old_client_loop_present
        split: option.splits sum.splits prod.splits if_splits)
qed auto

section \<open>Properties\<close>

text \<open>
  C30. The end of the older server. Whatever comes, when the process has ended by itself, its status is 1
  only for a signal handler that cannot be installed or a daemon that cannot be made, and the file
  is gone, with every client's bytes, except in these two cases and in the parent of the daemon.
  A start that fails at \<open>bind\<close> because another server runs takes the file of that server away.
\<close>

theorem old_main_exit:
  assumes "old_main regular_ops os argv as p s = Some (Inr (rs, Exited n, p', s'))"
  shows "n = (if sigaction_fails os \<or> sockets_ready os \<and> daemon_fails os argv then 1 else 0) \<and>
    (if n = 1 \<or> sockets_ready os \<and> daemon_mode argv \<and> 0 < fork_ret os
     then data_file s' = data_file s \<and> rs = []
     else \<not> present (data_file s') \<and> Unlinked_Data \<in> set (actions p'))"
proof -
  have gone: "\<not> present (data_file (cleanup False regular_ops s0))" for s0
    by (simp add: cleanup_def regular_ops_def)
  obtain r p1 s1 where st: "old_startup regular_ops os argv p s = (r, p1, s1)"
    by (cases "old_startup regular_ops os argv p s") auto
  show ?thesis
  proof (cases r)
    case (Exits k)
    with st assms have "k = n" "rs = []" "p1 = p'" "s1 = s'" by (simp_all add: old_main_def)
    with st Exits gone show ?thesis
      by (auto simp: old_startup_def old_cleanup_def old_daemonize_def sockets_ready_def daemon_fails_def
          split: if_splits)
  next
    case (Continues u)
    with st have ready: "\<not> sigaction_fails os" "sockets_ready os" "\<not> daemon_fails os argv"
      "\<not> (daemon_mode argv \<and> 0 < fork_ret os)"
      by (auto simp: old_startup_def old_cleanup_def old_daemonize_def sockets_ready_def daemon_fails_def
          split: if_splits)
    have "n = 0 \<and> \<not> present (data_file s') \<and> Unlinked_Data \<in> set (actions p')"
    proof (cases "running p1")
      case False
      with st Continues assms gone show ?thesis by (auto simp: old_main_def old_cleanup_def)
    next
      case True
      with st Continues assms obtain p2 where loop: "old_accept_loop regular_ops True as s1 = Some (Inr (rs, Exited n, s'))"
        "p' = (if n = 0 then p1\<lparr>actions := actions p1 @ [Shut_Down (socket_ret os), Closed (socket_ret os), Unlinked_Data]\<rparr> else p1)"
        by (auto simp: old_main_def split: option.splits sum.splits)
      with old_accept_loop_cleanup [OF loop(1)] gone show ?thesis by auto
    qed
    with ready show ?thesis by auto
  qed
qed

text \<open>A second server, started while one runs: its start removes the file of the first.\<close>

lemma old_main_exit_witness:
  "\<exists>p' s'. old_main regular_ops (example_system\<lparr>bind_ret := -1\<rparr>) [''aesdsocket''] [] initial_process example_disk =
      Some (Inr ([], Exited 0, p', s')) \<and> present (data_file example_disk) \<and> \<not> present (data_file s')"
proof -
  let ?os = "example_system\<lparr>bind_ret := -1\<rparr>"
  obtain n p' s' where *: "old_main regular_ops ?os [''aesdsocket''] [] initial_process example_disk =
      Some (Inr ([], Exited n, p', s'))"
    by (simp add: old_main_def old_startup_def old_cleanup_def example_system_def)
  from old_main_exit [OF this] have "n = 0" "\<not> present (data_file s')"
    by (simp_all add: sockets_ready_def example_system_def)
  with * show ?thesis by (simp add: example_disk_def)
qed

text \<open>
  C29. A signal while a client is served. The clients before it get what they would have got anyway. The
  client being served gets its reply when its newline is among the \<open>k\<close> chunks that had been received;
  when the server was still waiting for it, the interrupted \<open>recv\<close> ends the connection without a
  reply, and what had come of the line is in the file. Nobody after it is served, and the server ends
  with status zero and without its file. All this for a start that succeeds, clients that take what
  is sent, a free descriptor and room on the disk.
\<close>

theorem old_main_graceful:
  assumes "\<not> sigaction_fails os" and "sockets_ready os"
    and "daemon_mode argv \<longrightarrow> fork_ret os = 0 \<and> 0 \<le> setsid_ret os" and "running p"
    and "regular_ok (data_file s)" and "0 < free_count (data_file s)" and "\<forall>cl' \<in> set (cls @ [cl]). reliable cl'"
    and "length (bytes (data_file s)) + length (concat (map (\<lambda>cl. request (recvs cl)) (cls @ [cl]))) \<le> max_size (data_file s)"
    and "signo \<in> {SIGINT, SIGTERM}"
  shows "\<exists>p' s'. old_main regular_ops os argv (map Arrives cls @ Serves cl (Some (signo, k)) # later) p s =
      Some (Inr (appended_replies (bytes (data_file s)) (cls @ [cl\<lparr>recvs := take k (recvs cl)\<rparr>]), Exited 0, p', s')) \<and>
    \<not> present (data_file s') \<and>
    bytes (data_file s') = bytes (data_file s) @ concat (map (\<lambda>cl. request (recvs cl)) cls) @ request (take k (recvs cl))"
proof -
  let ?all = "\<lambda>cls. concat (map (\<lambda>cl. request (recvs cl)) cls)"
  let ?cl = "cl\<lparr>recvs := take k (recvs cl)\<rparr>"
  have part: "length (request (take k cs)) \<le> length (request cs)" for cs
  proof (induction cs arbitrary: k)
    case (Cons c cs)
    then show ?case by (cases k) auto
  qed simp
  obtain p1 where p1: "old_startup regular_ops os argv p s = (Continues (), p1, s)" "running p1"
    using old_startup_ready [OF assms(1-3), of regular_ops p s] assms(4) by auto
  have room: "length (bytes (data_file s)) + length (?all cls) \<le> max_size (data_file s)" using assms(8) by simp
  obtain s1 where s1: "\<And>as rs ending s2. old_accept_loop regular_ops True as s1 = Some (Inr (rs, ending, s2)) \<Longrightarrow>
      old_accept_loop regular_ops True (map Arrives cls @ as) s =
        Some (Inr (appended_replies (bytes (data_file s)) cls @ rs, ending, s2))"
    "regular_ok (data_file s1)" "bytes (data_file s1) = bytes (data_file s) @ ?all cls"
    "max_size (data_file s1) = max_size (data_file s)" "free_count (data_file s1) = free_count (data_file s)"
    using old_clients [OF assms(5,6) _ room] assms(7) by auto
  let ?r = "if complete (recvs ?cl) then Replied else Hung_Up"
  have room1: "length (bytes (data_file s1)) + length (request (recvs ?cl)) \<le> max_size (data_file s1)"
    using s1(3,4) assms(8) part [of "recvs cl"] by simp
  have "reliable ?cl" using assms(7) by (simp add: reliable_def)
  from old_client_served [OF s1(2) _ this room1] s1(5) assms(6) obtain s2 where
    s2: "old_handle_client regular_ops ?cl s1 = Some (Inr (?r, s2))"
    "sent s2 = (if complete (recvs ?cl) then bytes (data_file s2) else [])"
    "bytes (data_file s2) = bytes (data_file s1) @ request (recvs ?cl)" by auto
  have "old_signal_handler signo True = False" using assms(9) by (auto simp: old_signal_handler_def)
  then have "old_accept_loop regular_ops True (Serves cl (Some (signo, k)) # later) s1 =
      Some (Inr ([(?r, sent s2)], Exited 0, cleanup False regular_ops s2))"
    using s2(1) by (simp add: cut_short_def caught_def)
  note loop = s1(1) [OF this]
  have whole: "bytes (data_file s2) = bytes (data_file s) @ ?all (cls @ [?cl])" using s2(3) s1(3) by simp
  have "appended_replies old cls @ [(?r, sent s2)] = appended_replies old (cls @ [?cl])"
    if "bytes (data_file s2) = old @ ?all (cls @ [?cl])" for old
    using that s2(2) by (induction old cls rule: appended_replies.induct) (simp_all add: Let_def)
  from this [OF whole] whole loop p1 show ?thesis
    by (simp add: old_main_def cleanup_def regular_ops_def)
qed

text \<open>The signal comes after the first of two chunks: the client gets nothing.\<close>

lemma old_main_graceful_witness:
  "\<exists>p' s'. old_main regular_ops example_system [''aesdsocket'']
      [Arrives (example_client [''!'' @ [newline]]), Serves (example_client [''by'', ''e'' @ [newline]]) (Some (15, 1)),
       Arrives (example_client [''late'' @ [newline]])] initial_process example_disk =
    Some (Inr ([(Replied, ''one'' @ [newline] @ ''!'' @ [newline]), (Hung_Up, [])], Exited 0, p', s')) \<and>
    \<not> present (data_file s') \<and> bytes (data_file s') = ''one'' @ [newline] @ ''!'' @ [newline] @ ''by''"
  using old_main_graceful [of example_system "[''aesdsocket'']" initial_process example_disk
      "[example_client [''!'' @ [newline]]]" "example_client [''by'', ''e'' @ [newline]]" SIGTERM 1
      "[Arrives (example_client [''late'' @ [newline]])]"]
  by (auto simp: Let_def daemon_mode_def sockets_ready_def initial_process_def example_system_def)

end
