(* ===== verification/Driver_Race.thy ===== *)
theory Driver_Race imports Main Driver_Seek Device_File begin

text \<open>
  \<open>aesd_ioctl\<close> takes no mutex, so the writes of other tasks fall between its reads of the ring. Here
  the handler goes step by step, one slot after the other, each step on the device as it is at that
  moment: \<open>aesd_ioctl\<close> as one step is the case where nothing changes. A write, which has the mutex,
  changes the size in at most one slot, so it is enough to have it between two steps.

  One write in between does no harm: the seek is as before the write or as after it. Two can make
  it a seek of no state of the device.
\<close>

section \<open>The handler step by step\<close>

datatype ioctl_pc =
    At_Slot nat loff_t \<comment> \<open>\<open>i\<close> and \<open>newpos\<close>\<close>
  | Returned "64 word" open_file

definition ioctl_begin :: "uint32_t \<Rightarrow> aesd_seekto option \<Rightarrow> open_file \<Rightarrow> ioctl_pc" where
  "ioctl_begin cmd arg filp =
     (if cmd = AESDCHAR_IOCSEEKTO then
        case arg of
          None \<Rightarrow> Returned (- EFAULT) filp
        | Some seekto \<Rightarrow>
            if unat (write_cmd seekto) \<ge> MAX_OPS then Returned (- EINVAL) filp else At_Slot 0 0
      else Returned (- ENOTTY) filp)"

definition ioctl_step :: "aesd_seekto \<Rightarrow> open_file \<Rightarrow> kstate \<Rightarrow> ioctl_pc \<Rightarrow> ioctl_pc outcome" where
  "ioctl_step seekto filp s pc =
     (case pc of
        Returned r f \<Rightarrow> Inr pc
      | At_Slot i newpos \<Rightarrow>
          if private_data filp = NULL then Inl Null_Deref
          else
            let slots = entry (buffer (dev s)) in
            if i < unat (write_cmd seekto) then Inr (At_Slot (Suc i) (newpos + entry_size (slots ! i)))
            else if ucast (write_cmd_offset seekto) \<ge> entry_size (slots ! unat (write_cmd seekto))
            then Inr (Returned (- EINVAL) filp)
            else Inr (Returned 0 (filp\<lparr>f_pos := newpos + ucast (write_cmd_offset seekto)\<rparr>)))"

text \<open>The states the steps see, one each.\<close>

fun ioctl_sees :: "aesd_seekto \<Rightarrow> open_file \<Rightarrow> kstate list \<Rightarrow> ioctl_pc \<Rightarrow> ioctl_pc outcome" where
  "ioctl_sees seekto filp [] pc = Inr pc"
| "ioctl_sees seekto filp (s # ss) pc = bindR (ioctl_step seekto filp s pc) (ioctl_sees seekto filp ss)"

section \<open>What it comes to\<close>

definition slot_size :: "kstate \<Rightarrow> nat \<Rightarrow> size_t" where
  "slot_size s i = entry_size (entry (buffer (dev s)) ! i)"

definition ioctl_end :: "aesd_seekto \<Rightarrow> open_file \<Rightarrow> loff_t \<Rightarrow> size_t \<Rightarrow> 64 word \<times> open_file" where
  "ioctl_end st filp newpos sz =
     (if ucast (write_cmd_offset st) \<ge> sz then (- EINVAL, filp)
      else (0, filp\<lparr>f_pos := newpos + ucast (write_cmd_offset st)\<rparr>))"

lemma ioctl_sees_sum:
  assumes "private_data filp \<noteq> NULL" and "i + length ss = unat (write_cmd st)"
  shows "ioctl_sees st filp (ss @ [t]) (At_Slot i p) = Inr (case_prod Returned
    (ioctl_end st filp (p + (\<Sum>j < length ss. slot_size (ss ! j) (i + j))) (slot_size t (unat (write_cmd st)))))"
  using assms(2)
proof (induction ss arbitrary: i p)
  case Nil
  then show ?case using assms(1) by (simp add: ioctl_step_def ioctl_end_def slot_size_def)
next
  case (Cons s ss)
  have "(\<Sum>j < length (s # ss). slot_size ((s # ss) ! j) (i + j)) =
      slot_size s i + (\<Sum>j < length ss. slot_size (ss ! j) (Suc i + j))"
    by (simp only: length_Cons sum.lessThan_Suc_shift) simp
  then show ?case
    using Cons.IH [of "Suc i" "p + slot_size s i"] Cons.prems assms(1)
    by (simp add: ioctl_step_def slot_size_def add.assoc)
qed

lemma aesd_ioctl_sum:
  assumes "private_data filp \<noteq> NULL" and "unat (write_cmd st) < MAX_OPS"
    and "length (entry (buffer (dev s))) = MAX_OPS"
  shows "aesd_ioctl AESDCHAR_IOCSEEKTO (Some st) filp s =
    Inr (ioctl_end st filp (\<Sum>j < unat (write_cmd st). slot_size s j) (slot_size s (unat (write_cmd st))))"
proof -
  let ?c = "unat (write_cmd st)" and ?es = "entry (buffer (dev s))"
  have "(\<Sum>j < ?c. slot_size s j) = sum_list (map entry_size (take ?c ?es))"
    using assms(2,3) by (simp add: sum_list_sum_nth slot_size_def atLeast0LessThan)
  then show ?thesis
    using assms foldl_index_sum [of ?c ?es entry_size 0]
    by (auto simp: aesd_ioctl_def Let_def ioctl_end_def slot_size_def)
qed

text \<open>Reads that all agree with one state make the call atomic, in that state.\<close>

lemma ioctl_sees_as:
  assumes "private_data filp \<noteq> NULL" and c: "c = unat (write_cmd st)" "c < MAX_OPS"
    and "length ss = Suc c" and "length (entry (buffer (dev s))) = MAX_OPS"
    and agree: "\<And>j. j \<le> c \<Longrightarrow> slot_size (ss ! j) j = slot_size s j"
  shows "\<exists>r f. aesd_ioctl AESDCHAR_IOCSEEKTO (Some st) filp s = Inr (r, f) \<and>
    ioctl_sees st filp ss (ioctl_begin AESDCHAR_IOCSEEKTO (Some st) filp) = Inr (Returned r f)"
proof -
  obtain ts t where ts: "ss = ts @ [t]" using assms(4) by (cases ss rule: rev_cases) auto
  then have len: "length ts = c" using assms(4) by simp
  have "slot_size t c = slot_size s c" using agree [of c] ts len by (simp add: nth_append)
  moreover have "(\<Sum>j < c. slot_size (ts ! j) j) = (\<Sum>j < c. slot_size s j)"
  proof (rule sum.cong [OF refl])
    fix j assume "j \<in> {..<c}"
    then show "slot_size (ts ! j) j = slot_size s j" using agree [of j] ts len by (simp add: nth_append)
  qed
  ultimately show ?thesis
    using ioctl_sees_sum [OF assms(1), of 0 ts st t 0] aesd_ioctl_sum [OF assms(1) _ assms(5), of st] c len ts
    by (auto simp: ioctl_begin_def ioctl_end_def)
qed

section \<open>What a write does to the slots\<close>

text \<open>At most one slot, the one at \<open>in_offs\<close>.\<close>

definition same_slots_but :: "nat \<Rightarrow> kstate \<Rightarrow> kstate \<Rightarrow> bool" where
  "same_slots_but i s s' \<longleftrightarrow> length (entry (buffer (dev s'))) = length (entry (buffer (dev s))) \<and>
     (\<forall>j. j \<noteq> i \<longrightarrow> slot_size s' j = slot_size s j)"

lemma same_slots_refl [simp]: "same_slots_but i s s"
  by (simp add: same_slots_but_def)

lemma same_slots_buffer: "buffer (dev s) = buffer (dev t) \<Longrightarrow> same_slots_but i s s' = same_slots_but i t s'"
  "buffer (dev s') = buffer (dev t') \<Longrightarrow> same_slots_but i s s' = same_slots_but i s t'"
  by (simp_all add: same_slots_but_def slot_size_def)

lemma add_entry_slots:
  "aesd_circular_buffer_add_entry (Some b) (Some e) = Inr (Some b') \<Longrightarrow>
    entry b' = (entry b)[unat (in_offs b) := e] \<and> in_offs b' = next_offs (in_offs b)"
  by (auto simp: aesd_circular_buffer_add_entry_def Let_def split: if_splits)

lemma add_entry_some: "aesd_circular_buffer_add_entry (Some b) (Some e) = Inr r \<Longrightarrow> \<exists>b'. r = Some b'"
  by (auto simp: aesd_circular_buffer_add_entry_def Let_def split: if_splits)

lemma finish_write_slots:
  assumes "finish_write count pos p s = Inr (r, pos', s')"
  shows "same_slots_but (unat (in_offs (buffer (dev s)))) s s'"
proof -
  let ?e = "\<lparr>buffptr = p, entry_size = entry_size (dev_entry (dev s)) + count\<rparr>"
  from assms consider
      b where "aesd_circular_buffer_add_entry (Some (buffer (dev s))) (Some ?e) = Inr (Some b)" "buffer (dev s') = b"
    | "buffer (dev s') = buffer (dev s)"
    by (auto simp: finish_write_def Let_def bindR_Inr_iff split: if_splits dest: add_entry_some, blast dest: add_entry_some)
  then show ?thesis
  proof cases
    case 1
    with add_entry_slots [OF 1(1)] show ?thesis by (simp add: same_slots_but_def slot_size_def)
  qed (simp add: same_slots_but_def slot_size_def)
qed

lemma write_locked_slots:
  assumes "write_locked k buf count pos s = Inr (r, pos', s')"
  shows "same_slots_but (unat (in_offs (buffer (dev s)))) s s'"
proof -
  from assms consider "buffer (dev s') = buffer (dev s)"
    | p h where "finish_write count pos p (s\<lparr>heap := h\<rparr>) = Inr (r, pos', s')"
    by (auto simp: write_locked_def Let_def bindR_Inr_iff split: prod.splits if_splits option.splits)
  then show ?thesis
  proof cases
    case 1
    then show ?thesis using same_slots_buffer(2) [OF 1] by simp
  next
    case 2
    from finish_write_slots [OF this] show ?thesis by (simp add: same_slots_but_def slot_size_def)
  qed
qed

lemma aesd_write_slots:
  assumes "aesd_write k me filp buf count pos s = Inr (r, pos', s')"
  shows "same_slots_but (unat (in_offs (buffer (dev s)))) s s'"
proof -
  from assms obtain i s1 s2 where s1: "mutex_lock_interruptible k me s = Inr (i, s1)"
    and s2: "(if i then Inr (- ERESTARTSYS, pos, s1) else write_locked k buf count pos s1) = Inr (r, pos', s2)"
    and s3: "mutex_unlock me s2 = Inr s'"
    by (auto simp: aesd_write_def bindR_Inr_iff split: if_splits)
  have eq: "buffer (dev s1) = buffer (dev s)" "buffer (dev s') = buffer (dev s2)"
    using s1 s3 by (auto simp: mutex_lock_interruptible_def mutex_unlock_def split: if_splits option.splits)
  have "same_slots_but (unat (in_offs (buffer (dev s1)))) s1 s2"
    using s2 write_locked_slots [of k buf count pos s1] by (cases i) auto
  then show ?thesis using eq by (simp add: same_slots_but_def slot_size_def)
qed

section \<open>Properties\<close>

text \<open>
  C26. One write, of any task and with any outcome, at any moment between the steps of a seek command:
  the command returns, and does what it does when it runs as a whole before the write or as a
  whole after it.
\<close>

theorem seek_beside_one_write:
  assumes "aesd_write k other filp' buf count pos s = Inr (r, pos', s')"
    and "length (entry (buffer (dev s))) = MAX_OPS" and "private_data filp \<noteq> NULL"
    and "unat (write_cmd st) < MAX_OPS" and "a + b = Suc (unat (write_cmd st))"
  shows "\<exists>v f. ioctl_sees st filp (replicate a s @ replicate b s')
      (ioctl_begin AESDCHAR_IOCSEEKTO (Some st) filp) = Inr (Returned v f) \<and>
    (aesd_ioctl AESDCHAR_IOCSEEKTO (Some st) filp s = Inr (v, f) \<or>
     aesd_ioctl AESDCHAR_IOCSEEKTO (Some st) filp s' = Inr (v, f))"
proof -
  let ?ss = "replicate a s @ replicate b s'" and ?i = "unat (in_offs (buffer (dev s)))"
  let ?c = "unat (write_cmd st)"
  have slots: "same_slots_but ?i s s'" using assms(1) by (rule aesd_write_slots)
  have at: "?ss ! j = (if j < a then s else s')" if "j \<le> ?c" for j
    using that assms(5) by (simp add: nth_append)
  have len: "length ?ss = Suc ?c" using assms(5) by simp
  show ?thesis
  proof (cases "?i < a")
    case True
    have "slot_size (?ss ! j) j = slot_size s j" if "j \<le> ?c" for j
      using at [OF that] slots True by (auto simp: same_slots_but_def)
    from ioctl_sees_as [OF assms(3) refl assms(4) len assms(2) this] show ?thesis by blast
  next
    case False
    have agree: "slot_size (?ss ! j) j = slot_size s' j" if "j \<le> ?c" for j
      using at [OF that] slots False by (auto simp: same_slots_but_def)
    have "length (entry (buffer (dev s'))) = MAX_OPS" using slots assms(2) by (simp add: same_slots_but_def)
    from ioctl_sees_as [OF assms(3) refl assms(4) len this agree] show ?thesis by blast
  qed
qed


text \<open>A witness: the write of a command falls between the first and the second step.\<close>

lemma seek_beside_one_write_witness:
  "\<exists>s' v f. aesd_write example_kernel 1 \<lparr>f_pos = 0, private_data = 5000\<rparr> (''fg'' @ [newline]) 3 0 example_full = Inr (3, 3, s') \<and>
    ioctl_sees \<lparr>write_cmd = 2, write_cmd_offset = 0\<rparr> \<lparr>f_pos = 0, private_data = 5000\<rparr>
      [example_full, s', s'] (ioctl_begin AESDCHAR_IOCSEEKTO (Some \<lparr>write_cmd = 2, write_cmd_offset = 0\<rparr>)
        \<lparr>f_pos = 0, private_data = 5000\<rparr>) = Inr (Returned v f)"
proof -
  let ?filp = "\<lparr>f_pos = 0, private_data = 5000\<rparr>" and ?st = "\<lparr>write_cmd = 2, write_cmd_offset = 0\<rparr>"
  have "write_enabled example_kernel (''fg'' @ [newline]) 3 example_full"
    unfolding write_enabled_def example_full_stored by (simp add: example_kernel_def example_full_def)
  from aesd_write_ok [OF example_full_inv example_alloc this, of ?filp 1 0] obtain s' where
    s': "aesd_write example_kernel 1 ?filp (''fg'' @ [newline]) 3 0 example_full = Inr (3, 3, s')"
    by (auto simp: example_kernel_def example_full_def)
  have len: "length (entry (buffer (dev example_full))) = MAX_OPS" by (simp add: example_full_def)
  have count: "1 + 2 = Suc (unat (write_cmd ?st))" by simp
  have "replicate 1 example_full @ replicate 2 s' = [example_full, s', s']" by (simp add: numeral_2_eq_2)
  moreover have "private_data ?filp \<noteq> 0" "unat (write_cmd ?st) < MAX_OPS" by simp_all
  ultimately show ?thesis using seek_beside_one_write [OF s' len _ _ count, of ?filp] s' by metis
qed

text \<open>A write that completes a command, when none is under way.\<close>

lemma after_write_slots:
  assumes "drv_inv s" and "\<not> under_way s" and "last (take (unat count) buf) = newline"
  shows "slot_size (after_write k buf count s) j = (if j = unat (in_offs (buffer (dev s))) then count else slot_size s j)"
    and "in_offs (buffer (dev (after_write k buf count s))) = next_offs (in_offs (buffer (dev s)))"
    and "length (entry (buffer (dev (after_write k buf count s)))) = MAX_OPS"
    and "\<not> under_way (after_write k buf count s)"
proof -
  let ?b = "buffer (dev s)" and ?e = "\<lparr>buffptr = kmalloc_ptr k (heap s) count, entry_size = count\<rparr>"
  have ring: "ring_inv ?b" using assms(1) by (rule drv_invD)
  then have b: "length (entry ?b) = MAX_OPS" "unat (in_offs ?b) < MAX_OPS" by (auto simp: ring_inv_def)
  have "entry_size (dev_entry (dev s)) = 0" using drv_invD(3) [OF assms(1)] assms(2) by (simp add: pending_ok_def)
  then have after: "buffer (dev (after_write k buf count s)) = ring_add ?b ?e"
    "dev_entry (dev (after_write k buf count s)) = zero_entry"
    using assms by (simp_all add: after_write_def installed_def written_ptr_def pending_idle Let_def)
  have add: "aesd_circular_buffer_add_entry (Some ?b) (Some ?e) = Inr (Some (ring_add ?b ?e))"
    using ring by (rule ring_add_eq)
  with after add_entry_slots [OF add] b show
    "slot_size (after_write k buf count s) j = (if j = unat (in_offs ?b) then count else slot_size s j)"
    "in_offs (buffer (dev (after_write k buf count s))) = next_offs (in_offs ?b)"
    "length (entry (buffer (dev (after_write k buf count s)))) = MAX_OPS"
    "\<not> under_way (after_write k buf count s)"
    by (auto simp: slot_size_def zero_entry_def nth_list_update)
qed

lemma sum_two:
  fixes f :: "nat \<Rightarrow> 'a :: comm_ring_1"
  assumes "Suc i < c"
  shows "(\<Sum>j < c. f j) = f i + f (Suc i) + (\<Sum>j \<in> {..<c} - {i, Suc i}. f j)"
proof -
  have "(\<Sum>j < c. f j) = f i + (\<Sum>j \<in> {..<c} - {i}. f j)" using assms by (intro sum.remove) simp_all
  also have "(\<Sum>j \<in> {..<c} - {i}. f j) = f (Suc i) + (\<Sum>j \<in> {..<c} - {i} - {Suc i}. f j)"
    using assms by (intro sum.remove) simp_all
  also have "{..<c} - {i} - {Suc i} = {..<c} - {i, Suc i}" by auto
  finally show ?thesis by (simp add: add.assoc)
qed

text \<open>
  C27. Two commands completed by other tasks while a seek command stands between the two slots they go
  to. Premises: the device is well formed, its mutex free, and no command is under way; both writes
  have memory and end in a newline; slot i, where the next command goes, and slot i + 1 are in front
  of the slot the seek names, and the seek's command and offset are valid; each new command differs in
  size from the one it replaces, by different amounts. Then the seek succeeds, and the file is at a
  position to which the same call goes neither in the state before the two writes, nor between them,
  nor after them.
\<close>

theorem torn_seek:
  assumes inv: "drv_inv s" and alloc: "alloc_ok k" and idle: "\<not> under_way s"
    and call: "\<not> lock_interrupted k" "lock (dev s) = None" "private_data filp1 \<noteq> NULL"
      "private_data filp2 \<noteq> NULL" "private_data filp \<noteq> NULL"
    and w1: "write_enabled k buf1 n1 s" "last (take (unat n1) buf1) = newline"
    and w2: "write_enabled k buf2 n2 (after_write k buf1 n1 s)" "last (take (unat n2) buf2) = newline"
    and c: "i = unat (in_offs (buffer (dev s)))" "Suc i < c" "c = unat (write_cmd st)" "c < MAX_OPS"
      "ucast (write_cmd_offset st) < slot_size s c"
    and sizes: "n1 \<noteq> slot_size s i" "n2 \<noteq> slot_size s (Suc i)" "n1 - slot_size s i \<noteq> n2 - slot_size s (Suc i)"
  shows "\<exists>s1 s2 p. aesd_write k me1 filp1 buf1 n1 pos1 s = Inr (n1, pos1 + n1, s1) \<and>
    aesd_write k me2 filp2 buf2 n2 pos2 s1 = Inr (n2, pos2 + n2, s2) \<and>
    ioctl_sees st filp (replicate (Suc i) s @ replicate (c - i) s2)
      (ioctl_begin AESDCHAR_IOCSEEKTO (Some st) filp) = Inr (Returned 0 (filp\<lparr>f_pos := p\<rparr>)) \<and>
    (\<forall>t \<in> {s, s1, s2}. \<exists>q. q \<noteq> p \<and> aesd_ioctl AESDCHAR_IOCSEEKTO (Some st) filp t = Inr (0, filp\<lparr>f_pos := q\<rparr>))"
proof -
  let ?s1 = "after_write k buf1 n1 s"
  let ?s2 = "after_write k buf2 n2 ?s1"
  note a1 = after_write_slots [OF inv idle w1(2), of k]
  have inv1: "drv_inv ?s1" using after_write_sim [OF inv alloc w1(1)] by simp
  note a2 = after_write_slots [OF inv1 a1(4) w2(2), of k]
  have i: "unat (in_offs (buffer (dev ?s1))) = Suc i" using a1(2) c(1,2,4) by (simp add: unat_next_offs)
  have size1: "slot_size ?s1 j = (if j = i then n1 else slot_size s j)" for j using a1(1) c(1) by simp
  have size2: "slot_size ?s2 j = (if j = Suc i then n2 else if j = i then n1 else slot_size s j)" for j
    using a2(1) i size1 by simp
  have len: "length (entry (buffer (dev s))) = MAX_OPS" using drv_invD(2) [OF inv] by (simp add: ring_inv_def)
  let ?off = "ucast (write_cmd_offset st) :: 64 word"
  let ?rest = "\<Sum>j \<in> {..<c} - {i, Suc i}. slot_size s j"
  have rest: "(\<Sum>j \<in> {..<c} - {i, Suc i}. slot_size t j) = ?rest" if "t \<in> {s, ?s1, ?s2}" for t
    using that by (intro sum.cong) (auto simp: size1 size2)
  have whole: "aesd_ioctl AESDCHAR_IOCSEEKTO (Some st) filp t =
      Inr (0, filp\<lparr>f_pos := slot_size t i + slot_size t (Suc i) + ?rest + ?off\<rparr>)" if t: "t \<in> {s, ?s1, ?s2}" for t
  proof -
    have "length (entry (buffer (dev t))) = MAX_OPS" using t len a1(3) a2(3) by auto
    moreover have "slot_size t c = slot_size s c" using t c(2) by (auto simp: size1 size2)
    ultimately show ?thesis
      using aesd_ioctl_sum [OF call(5), of st t] c(3-5) rest [OF t] sum_two [OF c(2), of "slot_size t"]
      by (simp add: ioctl_end_def)
  qed
  let ?ss = "replicate (Suc i) s @ replicate (c - Suc i) ?s2"
  have "replicate (c - i) ?s2 = replicate (c - Suc i) ?s2 @ [?s2]"
    using c(2) by (simp add: replicate_append_same Suc_diff_Suc [symmetric])
  then have ss: "replicate (Suc i) s @ replicate (c - i) ?s2 = ?ss @ [?s2]" by simp
  have seen: "slot_size (?ss ! j) j = (if j = Suc i then n2 else slot_size s j)" if "j < c" for j
    using that c(2) by (auto simp: nth_append size2 simp del: replicate_Suc)
  have "(\<Sum>j < c. slot_size (?ss ! j) j) = slot_size s i + n2 + ?rest"
  proof -
    have "(\<Sum>j < c. slot_size (?ss ! j) j) = (\<Sum>j < c. if j = Suc i then n2 else slot_size s j)"
      using seen by (intro sum.cong) simp_all
    also have "\<dots> = slot_size s i + n2 + (\<Sum>j \<in> {..<c} - {i, Suc i}. if j = Suc i then n2 else slot_size s j)"
      by (simp add: sum_two [OF c(2)])
    also have "(\<Sum>j \<in> {..<c} - {i, Suc i}. if j = Suc i then n2 else slot_size s j) = ?rest"
      by (intro sum.cong) auto
    finally show ?thesis .
  qed
  moreover have "length ?ss = c" using c(2) by simp
  moreover have "slot_size ?s2 c = slot_size s c" using c(2) by (simp add: size2)
  ultimately have torn: "ioctl_sees st filp (?ss @ [?s2]) (ioctl_begin AESDCHAR_IOCSEEKTO (Some st) filp) =
      Inr (Returned 0 (filp\<lparr>f_pos := slot_size s i + n2 + ?rest + ?off\<rparr>))"
    using ioctl_sees_sum [OF call(5), of 0 ?ss st ?s2 0] c(3-5)
    by (simp add: ioctl_begin_def ioctl_end_def)
  have "slot_size t i + slot_size t (Suc i) + ?rest + ?off \<noteq> slot_size s i + n2 + ?rest + ?off"
    if "t \<in> {s, ?s1, ?s2}" for t
    using that sizes by (auto simp: size1 size2 algebra_simps)
  then have "\<forall>t \<in> {s, ?s1, ?s2}. \<exists>q. q \<noteq> slot_size s i + n2 + ?rest + ?off \<and>
      aesd_ioctl AESDCHAR_IOCSEEKTO (Some st) filp t = Inr (0, filp\<lparr>f_pos := q\<rparr>)"
    using whole by blast
  moreover have "aesd_write k me1 filp1 buf1 n1 pos1 s = Inr (n1, pos1 + n1, ?s1)"
    using aesd_write_ok [OF inv alloc w1(1) call(1,2,3)] .
  moreover have "aesd_write k me2 filp2 buf2 n2 pos2 ?s1 = Inr (n2, pos2 + n2, ?s2)"
    using aesd_write_ok [OF inv1 alloc w2(1) call(1) _ call(4)] call(2) by simp
  ultimately show ?thesis using torn [folded ss] by blast
qed

definition roomy_kernel :: kernel where
  "roomy_kernel = example_kernel\<lparr>kmalloc_ptr := \<lambda>h _. if h 300 = None then 300 else if h 301 = None then 301 else 0\<rparr>"

lemma torn_seek_witness:
  "\<exists>s1 s2 p. aesd_write roomy_kernel 1 \<lparr>f_pos = 0, private_data = 5000\<rparr> (''ab'' @ [newline]) 3 0 example_full = Inr (3, 3, s1) \<and>
    aesd_write roomy_kernel 2 \<lparr>f_pos = 0, private_data = 5000\<rparr> (''cdef'' @ [newline]) 5 0 s1 = Inr (5, 5, s2) \<and>
    ioctl_sees \<lparr>write_cmd = 2, write_cmd_offset = 0\<rparr> \<lparr>f_pos = 0, private_data = 5000\<rparr> [example_full, s2, s2]
      (ioctl_begin AESDCHAR_IOCSEEKTO (Some \<lparr>write_cmd = 2, write_cmd_offset = 0\<rparr>) \<lparr>f_pos = 0, private_data = 5000\<rparr>) =
      Inr (Returned 0 \<lparr>f_pos = p, private_data = 5000\<rparr>)"
proof -
  let ?filp = "\<lparr>f_pos = 0, private_data = 5000\<rparr>" and ?st = "\<lparr>write_cmd = 2, write_cmd_offset = 0\<rparr>"
  let ?b1 = "''ab'' @ [newline]" and ?b2 = "''cdef'' @ [newline]"
  have alloc: "alloc_ok roomy_kernel"
    by (simp add: alloc_ok_def roomy_kernel_def example_kernel_def fresh_ptr_def)
  have w1: "write_enabled roomy_kernel ?b1 3 example_full"
    unfolding write_enabled_def example_full_stored
    by (simp add: roomy_kernel_def example_kernel_def example_full_def)
  have idle: "\<not> under_way example_full" by (simp add: example_full_def)
  have l1: "last (take (unat (3 :: size_t)) ?b1) = newline" and l2: "last (take (unat (5 :: size_t)) ?b2) = newline"
    by simp_all
  have inv1: "drv_inv (after_write roomy_kernel ?b1 3 example_full)"
    using after_write_sim [OF example_full_inv alloc w1] by simp
  have idle1: "\<not> under_way (after_write roomy_kernel ?b1 3 example_full)"
    by (rule after_write_slots(4) [OF example_full_inv idle l1])
  have "stored (after_write roomy_kernel ?b1 3 example_full) =
      length (contents (log_write (take (unat (3 :: size_t)) ?b1) (drv_abs example_full))) +
      length (pending (log_write (take (unat (3 :: size_t)) ?b1) (drv_abs example_full)))"
    using stored_log [OF inv1] after_write_sim(2) [OF example_full_inv alloc w1] by simp
  also have "\<dots> \<le> stored example_full + length ?b1"
    using log_write_grows [of ?b1 "drv_abs example_full"] stored_log [OF example_full_inv] by simp
  finally have room: "stored (after_write roomy_kernel ?b1 3 example_full) \<le> 13"
    by (simp add: example_full_stored)
  have "(heap (after_write roomy_kernel ?b1 3 example_full)) 301 = None"
    by (simp add: after_write_def written_ptr_def installed_def Let_def)
      (simp add: example_full_def roomy_kernel_def example_kernel_def)
  then have w2: "write_enabled roomy_kernel ?b2 5 (after_write roomy_kernel ?b1 3 example_full)"
    using room idle1 unfolding write_enabled_def by (auto simp: roomy_kernel_def)
  have c: "0 = unat (in_offs (buffer (dev example_full)))" "Suc 0 < 2" "2 = unat (write_cmd ?st)"
    "(2 :: nat) < MAX_OPS" "ucast (write_cmd_offset ?st) < slot_size example_full 2"
    "3 \<noteq> slot_size example_full 0" "5 \<noteq> slot_size example_full (Suc 0)"
    "3 - slot_size example_full 0 \<noteq> 5 - slot_size example_full (Suc 0)"
    by (simp_all add: example_full_def slot_size_def)
  have call: "\<not> lock_interrupted roomy_kernel" "lock (dev example_full) = None" "private_data ?filp \<noteq> 0"
    by (simp_all add: roomy_kernel_def example_kernel_def example_full_def)
  have "replicate (Suc 0) example_full @ replicate (2 - 0) s2 = [example_full, s2, s2]" for s2
    by (simp add: numeral_2_eq_2)
  with torn_seek [OF example_full_inv alloc idle call call(3,3) w1 l1 w2 l2 c, of 1 0 2 0]
  show ?thesis by (auto simp del: replicate_Suc)
qed

end
