(* ===== verification/Driver_Threads.thy ===== *)
theory Driver_Threads imports Main Driver_Seek Lock_Protocol begin

text \<open>
  The handlers of the driver in several tasks at once. A read, a write or a seek takes the mutex of the
  device, does its work and gives the mutex back, in three steps between which other tasks run;
  \<open>Aesd_Driver\<close> has each of them as one function. The theory shows that this is the same: the calls
  that have returned are, in the order in which they gave the mutex back, calls made one after the
  other. (\<open>aesd_ioctl\<close> takes no mutex; it is the subject of \<open>Driver_Race\<close>.)
\<close>

section \<open>Calls\<close>

datatype drv_call =
    Reads open_file nat size_t loff_t
  | Writes open_file "byte list" size_t loff_t
  | Seeks open_file loff_t int

datatype call_result =
    Read_Result ssize_t loff_t "byte list"
  | Write_Result ssize_t loff_t
  | Seek_Result loff_t open_file

fun file_of :: "drv_call \<Rightarrow> open_file" where
  "file_of (Reads filp room count pos) = filp"
| "file_of (Writes filp buf count pos) = filp"
| "file_of (Seeks filp off whence) = filp"

text \<open>What \<open>aesd_llseek\<close> does with the size it got.\<close>

definition seek_to :: "open_file \<Rightarrow> loff_t \<Rightarrow> int \<Rightarrow> ssize_t \<Rightarrow> call_result" where
  "seek_to filp off whence dev_size =
     (case (if whence = SEEK_SET then Some off
            else if whence = SEEK_CUR then Some (f_pos filp + off)
            else if whence = SEEK_END then Some (dev_size + off)
            else None) of
        None \<Rightarrow> Seek_Result (- EINVAL) filp
      | Some p \<Rightarrow>
          if sint p < 0 \<or> sint p > sint dev_size then Seek_Result (- EINVAL) filp
          else Seek_Result p (filp\<lparr>f_pos := p\<rparr>))"

text \<open>The part of a call between its lock and its unlock.\<close>

fun call_locked :: "kernel \<Rightarrow> drv_call \<Rightarrow> kstate \<Rightarrow> (call_result \<times> kstate) outcome" where
  "call_locked k (Reads filp room count pos) s =
     bindR (read_locked room count pos s) (\<lambda>(r, p, bs). Inr (Read_Result r p bs, s))"
| "call_locked k (Writes filp buf count pos) s =
     bindR (write_locked k buf count pos s) (\<lambda>(r, p, s1). Inr (Write_Result r p, s1))"
| "call_locked k (Seeks filp off whence) s =
     Inr (seek_to filp off whence
       (foldl (\<lambda>n i. n + entry_size (entry (buffer (dev s)) ! i)) 0 [0..<MAX_OPS]), s)"

text \<open>The handler as a whole.\<close>

fun call_whole :: "kernel \<Rightarrow> tid \<Rightarrow> drv_call \<Rightarrow> kstate \<Rightarrow> (call_result \<times> kstate) outcome" where
  "call_whole k me (Reads filp room count pos) s =
     bindR (aesd_read k me filp room count pos s) (\<lambda>(r, p, bs, s1). Inr (Read_Result r p bs, s1))"
| "call_whole k me (Writes filp buf count pos) s =
     bindR (aesd_write k me filp buf count pos s) (\<lambda>(r, p, s1). Inr (Write_Result r p, s1))"
| "call_whole k me (Seeks filp off whence) s =
     bindR (aesd_llseek k me off whence filp s) (\<lambda>(p, f, s1). Inr (Seek_Result p f, s1))"

section \<open>Steps\<close>

datatype call_phase =
    Locked kernel drv_call
  | Worked kernel drv_call call_result

record drv_system =
  kernel_state :: kstate
  calls :: "tid \<rightharpoonup> call_phase"
  returned :: "(tid \<times> kernel \<times> drv_call \<times> call_result) list"

text \<open>
  The result of a step is the next state or a fault. A wait for the mutex that a signal interrupts ends
  a read; a write and a seek go on to the unlock, of a mutex they do not hold.
\<close>

inductive drv_step :: "drv_system \<Rightarrow> drv_system outcome \<Rightarrow> bool" where
  call_locks: "calls c t = None \<Longrightarrow> \<not> lock_interrupted k \<Longrightarrow> private_data (file_of call) \<noteq> NULL \<Longrightarrow>
    mutex_lock_interruptible k t (kernel_state c) = Inr (False, s) \<Longrightarrow>
    drv_step c (Inr (c\<lparr>kernel_state := s, calls := (calls c)(t \<mapsto> Locked k call)\<rparr>))"
| call_works: "calls c t = Some (Locked k call) \<Longrightarrow> call_locked k call (kernel_state c) = Inr (r, s) \<Longrightarrow>
    drv_step c (Inr (c\<lparr>kernel_state := s, calls := (calls c)(t \<mapsto> Worked k call r)\<rparr>))"
| work_faults: "calls c t = Some (Locked k call) \<Longrightarrow> call_locked k call (kernel_state c) = Inl e \<Longrightarrow>
    drv_step c (Inl e)"
| call_unlocks: "calls c t = Some (Worked k call r) \<Longrightarrow> mutex_unlock t (kernel_state c) = Inr s \<Longrightarrow>
    drv_step c (Inr (c\<lparr>kernel_state := s, calls := (calls c)(t := None), returned := returned c @ [(t, k, call, r)]\<rparr>))"
| unlock_faults: "calls c t = Some (Worked k call r) \<Longrightarrow> mutex_unlock t (kernel_state c) = Inl e \<Longrightarrow>
    drv_step c (Inl e)"
| read_interrupted: "calls c t = None \<Longrightarrow> lock_interrupted k \<Longrightarrow> private_data filp \<noteq> NULL \<Longrightarrow>
    drv_step c (Inr (c\<lparr>returned := returned c @
      [(t, k, Reads filp room count pos, Read_Result (- ERESTARTSYS) pos [])]\<rparr>))"
| write_interrupted: "calls c t = None \<Longrightarrow> lock_interrupted k \<Longrightarrow> private_data filp \<noteq> NULL \<Longrightarrow>
    mutex_unlock t (kernel_state c) = Inr s \<Longrightarrow>
    drv_step c (Inr (c\<lparr>kernel_state := s, returned := returned c @
      [(t, k, Writes filp buf count pos, Write_Result (- ERESTARTSYS) pos)]\<rparr>))"
| seek_interrupted: "calls c t = None \<Longrightarrow> lock_interrupted k \<Longrightarrow> private_data filp \<noteq> NULL \<Longrightarrow>
    mutex_unlock t (kernel_state c) = Inr s \<Longrightarrow>
    drv_step c (Inr (c\<lparr>kernel_state := s, returned := returned c @
      [(t, k, Seeks filp off whence, seek_to filp off whence (- ENOMEM))]\<rparr>))"
| interrupted_faults: "calls c t = None \<Longrightarrow> lock_interrupted (k :: kernel) \<Longrightarrow> private_data (file_of call) \<noteq> NULL \<Longrightarrow>
    (\<forall>filp room count pos. call \<noteq> Reads filp room count pos) \<Longrightarrow> mutex_unlock t (kernel_state c) = Inl e \<Longrightarrow>
    drv_step c (Inl e)"

abbreviation (input) drv_moves :: "drv_system \<Rightarrow> drv_system \<Rightarrow> bool" where
  "drv_moves \<equiv> (\<lambda>c c'. drv_step c (Inr c'))"

inductive_cases drv_movesE: "drv_step c (Inr c')"
inductive_cases drv_faultE: "drv_step c (Inl e)"

definition drv_idle :: "kstate \<Rightarrow> drv_system" where
  "drv_idle s = \<lparr>kernel_state = s, calls = Map.empty, returned = []\<rparr>"

section \<open>The mutex\<close>

lemma finish_write_lock: "finish_write count pos p s = Inr (r, pos', s') \<Longrightarrow> lock (dev s') = lock (dev s)"
  by (auto simp: finish_write_def Let_def bindR_Inr_iff split: if_splits)

lemma write_locked_lock: "write_locked k buf count pos s = Inr (r, pos', s') \<Longrightarrow> lock (dev s') = lock (dev s)"
  by (auto simp: write_locked_def Let_def bindR_Inr_iff split: prod.splits if_splits option.splits
      dest!: finish_write_lock)

lemma call_locked_lock: "call_locked k call s = Inr (r, s') \<Longrightarrow> lock (dev s') = lock (dev s)"
  by (cases call) (auto simp: bindR_Inr_iff dest: write_locked_lock)

lemma mutex_lock_owner:
  "mutex_lock_interruptible k t s = Inr (False, s') \<Longrightarrow> lock (dev s) = None \<and> lock (dev s') = Some t"
  by (auto simp: mutex_lock_interruptible_def split: if_splits option.splits)

lemma mutex_unlock_owner: "mutex_unlock t s = Inr s' \<Longrightarrow> lock (dev s) = Some t \<and> lock (dev s') = None"
  by (auto simp: mutex_unlock_def split: if_splits)

abbreviation (input) under_mutex :: "drv_system \<Rightarrow> tid \<Rightarrow> bool" where
  "under_mutex c t \<equiv> calls c t \<noteq> None"

lemma unlock_owner: "lock (dev s) = Some t \<Longrightarrow> mutex_unlock u s = Inr s' \<Longrightarrow> u = t"
  by (simp add: mutex_unlock_def split: if_splits)

interpretation driver_mutex: lock_protocol drv_moves "\<lambda>c. \<forall>t. lock (dev (kernel_state c)) = Some t \<longrightarrow> under_mutex c t"
  "\<lambda>c. lock (dev (kernel_state c))" under_mutex
proof (unfold_locales, goal_cases)
  case (1 c c')
  then show ?case
    by (elim drv_movesE) (auto dest: mutex_lock_owner call_locked_lock mutex_unlock_owner)
next
  case (2 c c' t)
  then show ?case by (elim drv_movesE) (auto split: if_splits dest: mutex_lock_owner)
next
  case (3 c c' t)
  then show ?case
    by (elim drv_movesE) (auto split: if_splits dest: mutex_lock_owner call_locked_lock mutex_unlock_owner)
next
  case (4 c c' t)
  then show ?case by blast
qed

section \<open>One call after the other\<close>

fun calls_in_turn :: "(tid \<times> kernel \<times> drv_call \<times> call_result) list \<Rightarrow> kstate \<Rightarrow> kstate option" where
  "calls_in_turn [] s = Some s"
| "calls_in_turn ((t, k, call, r) # es) s =
     (case call_whole k t call s of
        Inl e \<Rightarrow> None
      | Inr (r', s1) \<Rightarrow> if r' = r then calls_in_turn es s1 else None)"

lemma calls_in_turn_append:
  "calls_in_turn es s = Some s' \<Longrightarrow> calls_in_turn (es @ fs) s = calls_in_turn fs s'"
  by (induction es s rule: calls_in_turn.induct) (auto split: sum.splits prod.splits if_splits)

lemma call_whole_eq:
  assumes "\<not> lock_interrupted k" and "private_data (file_of call) \<noteq> NULL"
  shows "call_whole k t call s =
    bindR (mutex_lock_interruptible k t s) (\<lambda>(_, s1). bindR (call_locked k call s1) (\<lambda>(r, s2).
      bindR (mutex_unlock t s2) (\<lambda>s3. Inr (r, s3))))"
proof (cases "mutex_lock_interruptible k t s")
  case (Inl e)
  with assms show ?thesis
    by (cases call) (simp_all add: aesd_read_def aesd_write_def aesd_llseek_def get_buffer_size_def)
next
  case (Inr x)
  obtain s1 where x: "x = (False, s1)"
    using Inr assms(1) by (cases x) (auto simp: mutex_lock_interruptible_def split: option.splits)
  show ?thesis
  proof (cases call)
    case (Reads filp room count pos)
    with assms Inr x show ?thesis
      by (cases "read_locked room count pos s1"; cases "mutex_unlock t s1") (auto simp: aesd_read_def)
  next
    case (Writes filp buf count pos)
    show ?thesis
    proof (cases "write_locked k buf count pos s1")
      case (Inr y)
      obtain r p s2 where "y = (r, p, s2)" by (cases y) auto
      with assms Writes x Inr \<open>mutex_lock_interruptible k t s = Inr x\<close> show ?thesis
        by (cases "mutex_unlock t s2") (simp_all add: aesd_write_def)
    qed (use assms Writes x Inr in \<open>simp add: aesd_write_def\<close>)
  next
    case (Seeks filp off whence)
    with assms Inr x show ?thesis
      by (cases "mutex_unlock t s1")
        (auto simp: aesd_llseek_def get_buffer_size_def seek_to_def Let_def split: option.splits)
  qed
qed

text \<open>A call under the mutex has come from the state in which it took the mutex.\<close>

definition call_from :: "tid \<Rightarrow> call_phase \<Rightarrow> kstate \<Rightarrow> kstate \<Rightarrow> bool" where
  "call_from t ph base s \<longleftrightarrow>
     (case ph of
        Locked k call \<Rightarrow> \<not> lock_interrupted k \<and> private_data (file_of call) \<noteq> NULL \<and>
          mutex_lock_interruptible k t base = Inr (False, s)
      | Worked k call r \<Rightarrow> \<not> lock_interrupted k \<and> private_data (file_of call) \<noteq> NULL \<and>
          (\<exists>s1. mutex_lock_interruptible k t base = Inr (False, s1) \<and> call_locked k call s1 = Inr (r, s)))"

definition call_reached :: "drv_system \<Rightarrow> tid \<Rightarrow> kstate \<Rightarrow> bool" where
  "call_reached c t base \<longleftrightarrow> (\<exists>ph. calls c t = Some ph \<and> call_from t ph base (kernel_state c))"

interpretation driver_calls: atomic_sections drv_moves
  "\<lambda>c. \<forall>t. lock (dev (kernel_state c)) = Some t \<longrightarrow> under_mutex c t"
  "\<lambda>c. lock (dev (kernel_state c))" under_mutex
  kernel_state returned calls_in_turn call_reached
proof (unfold_locales, goal_cases)
  case (1 es b b' fs)
  then show ?case by (rule calls_in_turn_append)
next
  case (2 c c')
  note only = driver_mutex.exclusion [OF 2(2)] and owner = driver_mutex.lock_invD [OF 2(2)]
  have held: "lock (dev (kernel_state c)) = Some t \<Longrightarrow> calls c t \<noteq> None" for t
    using 2(2) unfolding driver_mutex.lock_inv_def by blast
  from 2(1) show ?case
  proof cases
    case (call_locks t k call s)
    then have "lock (dev (kernel_state c)) = None" using mutex_lock_owner by blast
    then have idle: "calls c u = None" for u using owner [of u] by (cases "calls c u") auto
    show ?thesis
      using call_locks idle by (intro disjI2 disjI1) (auto simp: call_reached_def call_from_def)
  next
    case (call_works t k call r s)
    have "calls c u = None" if "u \<noteq> t" for u
      using only [of u t] that call_works(2) by (cases "calls c u") auto
    with call_works show ?thesis
      by (intro disjI1 exI [of _ "[]"]) (auto simp: call_reached_def call_from_def)
  next
    case (call_unlocks t k call r s)
    have idle: "calls c' u = None" for u
      using only [of u t] call_unlocks(1,2) by (cases "calls c u") auto
    have "calls_in_turn [(t, k, call, r)] base = Some s" if "call_reached c t base" for base
      using that call_unlocks(2,3) by (auto simp: call_reached_def call_from_def call_whole_eq)
    with idle call_unlocks show ?thesis
      by (intro disjI2 exI [of _ "(t, k, call, r)"]) auto
  next
    case (read_interrupted t k filp room count pos)
    then have "call_whole k t (Reads filp room count pos) s = Inr (Read_Result (- ERESTARTSYS) pos [], s)" for s
      by (simp add: aesd_read_def mutex_lock_interruptible_def)
    with read_interrupted(1) show ?thesis
      by (intro disjI1 exI [of _ "[(t, k, Reads filp room count pos, Read_Result (- ERESTARTSYS) pos [])]"])
        (auto simp: call_reached_def)
  next
    case (write_interrupted t k filp s buf count pos)
    with held [of t] mutex_unlock_owner [OF write_interrupted(5)] show ?thesis by simp
  next
    case (seek_interrupted t k filp s off whence)
    with held [of t] mutex_unlock_owner [OF seek_interrupted(5)] show ?thesis by simp
  qed
qed

lemma drv_steps_serial:
  assumes "drv_moves\<^sup>*\<^sup>* (drv_idle s) c" and "lock (dev s) = None"
  shows "driver_mutex.lock_inv c" and "driver_calls.replayed s c"
proof -
  have start: "driver_mutex.lock_inv (drv_idle s)" by (rule driver_mutex.lock_inv_outside) (simp_all add: drv_idle_def assms(2))
  then show "driver_mutex.lock_inv c" by (rule driver_mutex.lock_inv_steps [OF assms(1)])
  show "driver_calls.replayed s c"
    by (rule driver_calls.replayed_steps [OF assms(1) start driver_calls.replayed_start]) (simp_all add: drv_idle_def)
qed

section \<open>Properties\<close>

text \<open>
  C25. Reads, writes and seeks are atomic. Tasks call \<open>aesd_read\<close>, \<open>aesd_write\<close> and \<open>aesd_llseek\<close> on a
  device whose mutex is free at first, and none of the steps faults, which excludes a write or seek
  whose wait for the mutex was interrupted, an interrupted read not. Then, whenever no call is under
  the mutex, the device is in the state, and every call has returned the result, that the calls give
  one after the other, each as a whole, in the order in which they gave the mutex back. The call that
  takes no mutex, \<open>aesd_ioctl\<close>, is not one of these, and is not atomic.
\<close>

theorem driver_calls_atomic:
  assumes "drv_moves\<^sup>*\<^sup>* (drv_idle s) c" and "lock (dev s) = None" and "\<And>t. calls c t = None"
  shows "calls_in_turn (returned c) s = Some (kernel_state c)"
  by (rule driver_calls.replayed_outside [OF drv_steps_serial(2) [OF assms(1,2)]]) (simp add: assms(3))

text \<open>A call on the example device that has just taken the mutex.\<close>

definition example_called :: "drv_call \<Rightarrow> drv_system" where
  "example_called call = \<lparr>kernel_state = locked 1 example_state, calls = [1 \<mapsto> Locked example_kernel call], returned = []\<rparr>"

lemma example_call:
  assumes "private_data (file_of call) \<noteq> NULL"
  shows "drv_moves (drv_idle example_state) (example_called call)"
proof -
  have "mutex_lock_interruptible example_kernel 1 (kernel_state (drv_idle example_state)) = Inr (False, locked 1 example_state)"
    by (simp add: mutex_lock_interruptible_def example_kernel_def drv_idle_def example_state_def)
  from call_locks [OF _ _ assms this] show ?thesis
    by (simp add: drv_idle_def example_kernel_def example_called_def)
qed

lemma driver_calls_atomic_witness:
  "\<exists>c. drv_moves\<^sup>*\<^sup>* (drv_idle example_state) c \<and>
    returned c = [(1, example_kernel, Seeks \<lparr>f_pos = 0, private_data = 5000\<rparr> 0 2,
      seek_to \<lparr>f_pos = 0, private_data = 5000\<rparr> 0 2 7)] \<and>
    calls_in_turn (returned c) example_state = Some (kernel_state c)"
proof -
  let ?filp = "\<lparr>f_pos = 0, private_data = 5000\<rparr>"
  let ?call = "Seeks ?filp 0 2" and ?s = "locked 1 example_state"
  let ?r = "seek_to ?filp 0 2 7"
  let ?c1 = "example_called ?call"
  have 1: "drv_moves (drv_idle example_state) ?c1" by (rule example_call) simp
  have "foldl (\<lambda>n i. n + entry_size (entry (buffer (dev ?s)) ! i)) 0 [0..<MAX_OPS] = 7"
    by (simp add: example_state_def zero_entry_def upt_rec)
  then have work: "call_locked example_kernel ?call (kernel_state ?c1) = Inr (?r, ?s)" by (simp add: example_called_def)
  let ?c2 = "?c1\<lparr>kernel_state := ?s, calls := (calls ?c1)(1 \<mapsto> Worked example_kernel ?call ?r)\<rparr>"
  have 2: "drv_moves ?c1 ?c2" by (rule call_works [OF _ work]) (simp add: example_called_def)
  have unlock: "mutex_unlock 1 (kernel_state ?c2) = Inr example_state"
    by (simp add: mutex_unlock_def example_state_def)
  let ?c3 = "?c2\<lparr>kernel_state := example_state, calls := (calls ?c2)(1 := None),
      returned := returned ?c2 @ [(1, example_kernel, ?call, ?r)]\<rparr>"
  have 3: "drv_moves ?c2 ?c3" by (rule call_unlocks [OF _ unlock]) simp
  have reach: "drv_moves\<^sup>*\<^sup>* (drv_idle example_state) ?c3"
    using r_into_rtranclp [of drv_moves, OF 1] 2 3 by (meson rtranclp.rtrancl_into_rtrancl)
  moreover have "calls ?c3 t = None" for t by (simp add: example_called_def)
  then have "calls_in_turn (returned ?c3) example_state = Some (kernel_state ?c3)"
    by (intro driver_calls_atomic [OF reach]) (simp_all add: example_state_def)
  moreover have "returned ?c3 = [(1, example_kernel, ?call, ?r)]" by (simp add: example_called_def)
  ultimately show ?thesis by blast
qed

end
