(* ===== verification/Driver_Tasks.thy ===== *)
theory Driver_Tasks imports Main Driver_Threads Device_Runs begin

text \<open>
  What \<open>Driver_Threads\<close> gives for the log: tasks that read, write and seek at the same time never fault
  and never all wait, and what they leave is the log of the writes that succeeded, in the order in
  which they gave the mutex back.
\<close>

section \<open>Calls that are allowed\<close>

definition written :: "drv_call \<Rightarrow> byte list" where
  "written call = (case call of Writes filp buf count pos \<Rightarrow> take (unat count) buf | _ \<Rightarrow> [])"

definition asked :: "drv_call \<Rightarrow> nat" where
  "asked call = (case call of Writes filp buf count pos \<Rightarrow> unat count | _ \<Rightarrow> 0)"

definition proper :: "kernel \<Rightarrow> drv_call \<Rightarrow> bool" where
  "proper k call \<longleftrightarrow> private_data (file_of call) \<noteq> NULL \<and>
     (case call of
        Reads filp room count pos \<Rightarrow> lock_interrupted k \<or> steady k
      | Writes filp buf count pos \<Rightarrow> steady k \<and> count \<noteq> 0
      | Seeks filp off whence \<Rightarrow> steady k)"

definition succeeded :: "call_result \<Rightarrow> bool" where
  "succeeded r \<longleftrightarrow> (case r of Write_Result n pos \<Rightarrow> 0 \<le> sint n | _ \<Rightarrow> False)"

text \<open>The data of the writes that succeeded.\<close>

definition writes_of :: "(tid \<times> kernel \<times> drv_call \<times> call_result) list \<Rightarrow> byte list list" where
  "writes_of es = [written call. (t, k, call, r) \<leftarrow> es, succeeded r]"

definition asked_of :: "(tid \<times> kernel \<times> drv_call \<times> call_result) list \<Rightarrow> nat" where
  "asked_of es = sum_list (map (\<lambda>(t, k, call, r). asked call) es)"

definition all_proper :: "(tid \<times> kernel \<times> drv_call \<times> call_result) list \<Rightarrow> bool" where
  "all_proper es \<longleftrightarrow> (\<forall>(t, k, call, r) \<in> set es. proper k call)"

lemma trace_simps [simp]:
  "writes_of [] = []" "asked_of [] = 0" "all_proper []"
  "writes_of ((t, k, call, r) # es) = (if succeeded r then written call # writes_of es else writes_of es)"
  "asked_of ((t, k, call, r) # es) = asked call + asked_of es"
  "all_proper ((t, k, call, r) # es) \<longleftrightarrow> proper k call \<and> all_proper es"
  by (simp_all add: writes_of_def asked_of_def all_proper_def)

section \<open>One call\<close>

definition log_call :: "drv_call \<Rightarrow> call_result \<Rightarrow> cmd_log \<Rightarrow> cmd_log" where
  "log_call call r l = (if succeeded r then log_write (written call) l else l)"

lemma succeeded_simps [simp]:
  "\<not> succeeded (Read_Result r p bs)" "\<not> succeeded (Seek_Result p f)"
  "succeeded (Write_Result n p) \<longleftrightarrow> 0 \<le> sint n"
  by (simp_all add: succeeded_def)

lemma log_call_simps [simp]: "\<not> succeeded r \<Longrightarrow> log_call call r l = l" "succeeded r \<Longrightarrow> log_call call r l = log_write (written call) l"
  by (simp_all add: log_call_def)

definition device_fit :: "kstate \<Rightarrow> bool" where
  "device_fit s \<longleftrightarrow> drv_inv s \<and> lock (dev s) = None"

lemma call_whole_safe:
  assumes "proper k call" and "device_fit s" and fits: "stored s + asked call < 2 ^ 63"
  shows "\<exists>r s'. call_whole k t call s = Inr (r, s') \<and> device_fit s' \<and> stored s' \<le> stored s + asked call \<and>
    drv_abs s' = log_call call r (drv_abs s)"
proof -
  have inv: "drv_inv s" and free: "lock (dev s) = None" using assms(2) by (simp_all add: device_fit_def)
  have pd: "private_data (file_of call) \<noteq> NULL" using assms(1) by (simp add: proper_def)
  show ?thesis
  proof (cases call)
    case (Reads filp room count pos)
    have st: "stored s < 2 ^ 63" using fits Reads by (simp add: asked_def)
    have "\<exists>r p bs. aesd_read k t filp room count pos s = Inr (r, p, bs, s)"
    proof (cases "lock_interrupted k")
      case True
      then show ?thesis using pd Reads by (simp add: aesd_read_def mutex_lock_interruptible_def)
    next
      case False
      then show ?thesis using aesd_read_log [OF inv st _ free] pd Reads by (simp add: Let_def)
    qed
    with Reads assms(2) show ?thesis by auto
  next
    case (Writes filp buf count pos)
    have "steady k" "count \<noteq> 0" "private_data filp \<noteq> NULL" using assms(1) Writes by (simp_all add: proper_def)
    moreover have room: "stored s + unat count < 2 ^ 63" using fits Writes by (simp add: asked_def)
    ultimately consider s' where "aesd_write k t filp buf count pos s = Inr (count, pos + count, s')" "drv_inv s'"
        "lock (dev s') = None" "stored s' \<le> stored s + unat count"
        "drv_abs s' = log_write (take (unat count) buf) (drv_abs s)"
      | r where "aesd_write k t filp buf count pos s = Inr (r, pos, s)" "sint r < 0"
      using write_steady [OF inv _ free, of k filp count t buf pos] by blast
    then show ?thesis
    proof cases
      case (1 s')
      have "unat count < 2 ^ 63" using room by simp
      then have "0 \<le> sint count" by (simp add: sint_small)
      with 1 Writes show ?thesis
        by (auto simp: asked_def written_def device_fit_def)
    next
      case (2 r)
      with Writes assms(2) show ?thesis by auto
    qed
  next
    case (Seeks filp off whence)
    have "\<not> lock_interrupted k" "private_data filp \<noteq> NULL" "stored s < 2 ^ 63"
      using assms(1) fits Seeks by (simp_all add: proper_def steady_def asked_def)
    then have "\<exists>p f. aesd_llseek k t off whence filp s = Inr (p, f, s)"
      using get_buffer_size_eq [OF inv _ _ free] by (auto simp: aesd_llseek_def Let_def split: option.split)
    with Seeks assms(2) show ?thesis by auto
  qed
qed

lemma calls_in_turn_log:
  assumes "calls_in_turn es s = Some s'" and "all_proper es" and "device_fit s"
    and "stored s + asked_of es < 2 ^ 63"
  shows "device_fit s'" and "stored s' \<le> stored s + asked_of es"
    and "drv_abs s' = foldl (\<lambda>l d. log_write d l) (drv_abs s) (writes_of es)"
proof -
  have "device_fit s' \<and> stored s' \<le> stored s + asked_of es \<and>
      drv_abs s' = foldl (\<lambda>l d. log_write d l) (drv_abs s) (writes_of es)"
    using assms
  proof (induction es s rule: calls_in_turn.induct)
    case (1 s)
    then show ?case by simp
  next
    case (2 t k call r es s)
    have fit: "proper k call" "all_proper es" "stored s + asked call < 2 ^ 63" using 2(3,5) by simp_all
    obtain r' s1 where s1: "call_whole k t call s = Inr (r', s1)" "device_fit s1" "stored s1 \<le> stored s + asked call"
      "drv_abs s1 = log_call call r' (drv_abs s)"
      using call_whole_safe [OF fit(1) 2(4) fit(3)] by blast
    then have r: "r' = r" and rest: "calls_in_turn es s1 = Some s'" using 2(2) by (auto split: if_splits)
    have "stored s1 + asked_of es < 2 ^ 63" using s1(3) 2(5) by simp
    from 2(1) [OF s1(1) refl r rest fit(2) s1(2) this] s1(3,4) r show ?case by (auto simp: log_call_def)
  qed
  then show "device_fit s'" "stored s' \<le> stored s + asked_of es"
    "drv_abs s' = foldl (\<lambda>l d. log_write d l) (drv_abs s) (writes_of es)" by blast+
qed

section \<open>Tasks\<close>

text \<open>The call under the mutex, if there is one, is proper too and there is room for what it writes.\<close>

definition tasks_fit :: "kstate \<Rightarrow> drv_system \<Rightarrow> bool" where
  "tasks_fit s c \<longleftrightarrow> device_fit s \<and> all_proper (returned c) \<and> stored s + asked_of (returned c) < 2 ^ 63 \<and>
     (\<forall>t k call. calls c t = Some (Locked k call) \<longrightarrow>
        proper k call \<and> stored s + asked_of (returned c) + asked call < 2 ^ 63)"

lemma tasks_can_move:
  assumes "drv_moves\<^sup>*\<^sup>* (drv_idle s) c" and "tasks_fit s c"
  shows "calls c t = Some (Locked k call) \<Longrightarrow> \<exists>r s'. call_locked k call (kernel_state c) = Inr (r, s')"
    and "calls c t = Some (Worked k call r) \<Longrightarrow> \<exists>s'. mutex_unlock t (kernel_state c) = Inr s'"
    and "(\<forall>t. calls c t = None) \<Longrightarrow> drv_inv (kernel_state c) \<and> lock (dev (kernel_state c)) = None \<and>
      drv_abs (kernel_state c) = foldl (\<lambda>l d. log_write d l) (drv_abs s) (writes_of (returned c))"
    and "calls c t = None \<Longrightarrow> mutex_unlock t (kernel_state c) = Inl Bad_Unlock"
proof -
  have fit: "device_fit s" "all_proper (returned c)" "stored s + asked_of (returned c) < 2 ^ 63"
    using assms(2) by (simp_all add: tasks_fit_def)
  have "lock (dev s) = None" using fit(1) by (simp add: device_fit_def)
  note serial = drv_steps_serial [OF assms(1) this]
  obtain base where base: "calls_in_turn (returned c) s = Some base"
    "(\<forall>t. calls c t = None) \<Longrightarrow> kernel_state c = base"
    "\<And>t. calls c t \<noteq> None \<Longrightarrow> call_reached c t base"
    using serial(2) unfolding driver_calls.replayed_def by auto
  note log = calls_in_turn_log [OF base(1) fit(2,1,3)]
  show "\<exists>r s'. call_locked k call (kernel_state c) = Inr (r, s')" if t: "calls c t = Some (Locked k call)"
  proof -
    have from_base: "\<not> lock_interrupted k" "private_data (file_of call) \<noteq> NULL" "mutex_lock_interruptible k t base = Inr (False, kernel_state c)"
      using base(3) [of t] t by (simp_all add: call_reached_def call_from_def)
    have "proper k call" "stored base + asked call < 2 ^ 63"
      using assms(2) t log(2) by (fastforce simp: tasks_fit_def)+
    from call_whole_safe [OF this(1) log(1) this(2), of t] obtain r s' where
      "call_whole k t call base = Inr (r, s')" by blast
    then show ?thesis using from_base by (auto simp: call_whole_eq bindR_Inr_iff)
  qed
  show "\<exists>s'. mutex_unlock t (kernel_state c) = Inr s'" if t: "calls c t = Some (Worked k call r)"
    using driver_mutex.lock_invD [OF serial(1), of t] t by (simp add: mutex_unlock_def)
  show "drv_inv (kernel_state c) \<and> lock (dev (kernel_state c)) = None \<and>
      drv_abs (kernel_state c) = foldl (\<lambda>l d. log_write d l) (drv_abs s) (writes_of (returned c))"
    if "\<forall>t. calls c t = None"
    using base(2) log(1,3) that by (simp add: device_fit_def)
  have "lock (dev (kernel_state c)) \<noteq> Some t" if "calls c t = None"
    using serial(1) that unfolding driver_mutex.lock_inv_def by blast
  then show "mutex_unlock t (kernel_state c) = Inl Bad_Unlock" if "calls c t = None"
    using that by (simp add: mutex_unlock_def)
qed

text \<open>
  C10. Tasks at once. In every state that any number of tasks can bring the driver to, the call that has
  the mutex can do its work and can give the mutex back, without a fault; and when no call has it,
  it is free, the device is well formed, and its log is that of the writes that succeeded, in the
  order in which they gave it back. It takes what a run of single calls takes: memory that grows in
  place, no empty write, no signal at the mutex of a write or a seek, and no more than \<open>2\<^sup>6\<^sup>3\<close> bytes.
\<close>

theorem tasks_at_once:
  assumes "drv_moves\<^sup>*\<^sup>* (drv_idle s) c" and "tasks_fit s c"
  shows "(\<forall>t k call. calls c t = Some (Locked k call) \<longrightarrow> (\<exists>r s'. call_locked k call (kernel_state c) = Inr (r, s'))) \<and>
    (\<forall>t k call r. calls c t = Some (Worked k call r) \<longrightarrow> (\<exists>s'. mutex_unlock t (kernel_state c) = Inr s')) \<and>
    ((\<forall>t. calls c t = None) \<longrightarrow> drv_inv (kernel_state c) \<and> lock (dev (kernel_state c)) = None \<and>
       drv_abs (kernel_state c) = foldl (\<lambda>l d. log_write d l) (drv_abs s) (writes_of (returned c)))"
  using tasks_can_move [OF assms] by blast

lemma tasks_at_once_witness:
  "\<exists>r s'. drv_moves\<^sup>*\<^sup>* (drv_idle example_state)
      (example_called (Writes \<lparr>f_pos = 0, private_data = 5000\<rparr> (''fg'' @ [newline]) 3 0)) \<and>
    call_locked example_kernel (Writes \<lparr>f_pos = 0, private_data = 5000\<rparr> (''fg'' @ [newline]) 3 0)
      (locked 1 example_state) = Inr (r, s')"
proof -
  let ?call = "Writes \<lparr>f_pos = 0, private_data = 5000\<rparr> (''fg'' @ [newline]) 3 0"
  have reach: "drv_moves\<^sup>*\<^sup>* (drv_idle example_state) (example_called ?call)"
    by (rule r_into_rtranclp) (rule example_call, simp)
  have "lock (dev example_state) = None" by (simp add: example_state_def)
  then have "tasks_fit example_state (example_called ?call)"
    using steady_examples(1)
    by (simp add: tasks_fit_def device_fit_def example_inv example_called_def example_stored proper_def asked_def)
  from tasks_at_once [OF reach this] reach show ?thesis by (simp add: example_called_def del: call_locked.simps)
qed



end
