(* ===== verification/Server_Program.thy ===== *)
theory Server_Program imports Main Server_Main Thread_List_Steps Server_Threads begin

text \<open>
  The whole of \<^verbatim>\<open>server/aesdsocket.c\<close> as one step relation: \<open>main\<close> with its loop and its way out, the
  threads it starts with \<open>file_mutex\<close> and the data file (\<open>Server_Threads\<close>), their ends, and the list all
  of them work on without a lock, access by access (\<open>Thread_List_Steps\<close>). Between \<open>pthread_create\<close> and
  \<open>add_thread\<close>, inside \<open>add_thread\<close>, \<open>remove_thread\<close> and \<open>join_threads\<close>, everybody else may move.

  The theory shows where this can go wrong while clients send lines: at the list and nowhere else,
  and there only when two operations on it overlap or \<open>main\<close> has begun to join.
\<close>

section \<open>Steps\<close>

text \<open>
  Where \<open>main\<close> is: at the test of \<open>running\<close>; in \<open>accept\<close>; behind \<open>pthread_create\<close>, with the new thread;
  in \<open>add_thread\<close>, before the write of \<open>head\<close>; in \<open>join_threads\<close>.
\<close>

datatype main_at = Testing | Accepting | Adding tid | Publishing ptr | Joining join_at

record 'w program =
  proc_of :: process
  main_at :: main_at
  removers :: "tid \<rightharpoonup> remove_at" \<comment> \<open>the threads in \<open>remove_thread\<close>\<close>
  sys :: "'w system"
  fate_of :: fate

definition timer_thread :: "process \<Rightarrow> tid \<Rightarrow> bool" where
  "timer_thread s t \<longleftrightarrow>
     (\<exists>a args. live_threads s t = Some a \<and> args_heap s a = Some args \<and> client_socket args = None)"

text \<open>A step of \<open>handle_client\<close> in one of the threads.\<close>

definition client_step :: "bool \<Rightarrow> (tid \<Rightarrow> 'w file_ops) \<Rightarrow> 'w system \<Rightarrow> 'w system \<Rightarrow> bool" where
  "client_step cd ops c c' \<longleftrightarrow> system_step cd ops c c' \<and> dom (phases c') = dom (phases c) \<and>
     (\<forall>t ts p. history c' \<noteq> history c @ [Stamp_Done t ts p])"

definition end_of :: "event list \<Rightarrow> fate" where
  "end_of es =
     (case last es of
        Client_Done t cl r reply \<Rightarrow> (if r = Server_Killed then Killed else Exited 0)
      | Stamp_Done t ts p \<Rightarrow> (case p of Exits n \<Rightarrow> Exited n | Continues _ \<Rightarrow> Waits))"

definition args_made :: "os \<Rightarrow> int \<Rightarrow> int \<Rightarrow> process \<Rightarrow> process" where
  "args_made os sock c s =
     s\<lparr>args_heap := (args_heap s)(new_args os (args_heap s) \<mapsto> \<lparr>client_socket = Some c, server_socket = sock\<rparr>)\<rparr>"

text \<open>
  The result of a step is a fault or the next state. The rules up to \<open>publish\<close> are the loop of \<open>main\<close>
  with a connection \<open>c\<close> and the client \<open>cl\<close> at the other end; \<open>interrupt\<close> is the return of -1;
  \<open>join\<close> to \<open>leave\<close> are the way out. The \<open>client\<close> rules are the threads in \<open>handle_client\<close>, the \<open>timer\<close>
  rules the thread of the timestamps; the rules after them are the ends of both kinds of thread.
\<close>

inductive program_step ::
  "bool \<Rightarrow> (tid \<Rightarrow> 'w file_ops) \<Rightarrow> os \<Rightarrow> int \<Rightarrow> 'w program \<Rightarrow> 'w program outcome \<Rightarrow> bool"
  for cd :: bool and ops :: "tid \<Rightarrow> 'w file_ops" and os :: os and sock :: int where
  test: "fate_of p = Waits \<Longrightarrow> main_at p = Testing \<Longrightarrow>
    program_step cd ops os sock p
      (Inr (p\<lparr>main_at := if running (proc_of p) then Accepting else Joining Join_Start\<rparr>))"
| connect: "fate_of p = Waits \<Longrightarrow> main_at p = Accepting \<Longrightarrow> new_args os (args_heap (proc_of p)) \<noteq> NULL \<Longrightarrow>
    create_thread os (new_args os (args_heap (proc_of p))) (args_made os sock c (proc_of p)) = (Some t, s) \<Longrightarrow>
    program_step cd ops os sock p (Inr (p\<lparr>proc_of := s, main_at := Adding t,
      sys := (sys p)\<lparr>phases := (phases (sys p))(t \<mapsto> Waiting cl)\<rparr>\<rparr>))"
| connect_closes: "fate_of p = Waits \<Longrightarrow> main_at p = Accepting \<Longrightarrow> new_args os (args_heap (proc_of p)) \<noteq> NULL \<Longrightarrow>
    create_thread os (new_args os (args_heap (proc_of p))) (args_made os sock c (proc_of p)) = (None, s) \<Longrightarrow>
    program_step cd ops os sock p
      (Inr (p\<lparr>proc_of := s\<lparr>actions := actions s @ [Closed c]\<rparr>, main_at := Testing\<rparr>))"
| connect_fault: "fate_of p = Waits \<Longrightarrow> main_at p = Accepting \<Longrightarrow> new_args os (args_heap (proc_of p)) = NULL \<Longrightarrow>
    program_step cd ops os sock p (Inl Null_Deref)"
| add_fails: "fate_of p = Waits \<Longrightarrow> main_at p = Adding t \<Longrightarrow> new_node os (nodes (threads (proc_of p))) = NULL \<Longrightarrow>
    program_step cd ops os sock p (Inr (p\<lparr>fate_of := Exited 1\<rparr>))"
| add: "fate_of p = Waits \<Longrightarrow> main_at p = Adding t \<Longrightarrow> new_node os (nodes (threads (proc_of p))) = a \<Longrightarrow> a \<noteq> NULL \<Longrightarrow>
    program_step cd ops os sock p (Inr (p\<lparr>main_at := Publishing a,
      proc_of := (proc_of p)\<lparr>threads := new_thread_node a t (threads (proc_of p))\<rparr>\<rparr>))"
| publish: "fate_of p = Waits \<Longrightarrow> main_at p = Publishing a \<Longrightarrow>
    program_step cd ops os sock p (Inr (p\<lparr>main_at := Testing,
      proc_of := (proc_of p)\<lparr>threads := publish_node a (threads (proc_of p))\<rparr>\<rparr>))"
| interrupt: "fate_of p = Waits \<Longrightarrow> main_at p = Accepting \<Longrightarrow> exit_server cd sock (proc_of p) = (Exits n, s) \<Longrightarrow>
    program_step cd ops os sock p (Inr (p\<lparr>proc_of := s, fate_of := Exited n\<rparr>))"
| signalled: "fate_of p = Waits \<Longrightarrow>
    program_step cd ops os sock p (Inr (p\<lparr>proc_of := signal_handler signo (proc_of p)\<rparr>))"
| join: "fate_of p = Waits \<Longrightarrow> main_at p = Joining j \<Longrightarrow>
    (\<forall>a t. j = Join_Wait a t \<longrightarrow> live_threads (proc_of p) t = None) \<Longrightarrow>
    join_step j (threads (proc_of p)) = Inr (j', l) \<Longrightarrow>
    program_step cd ops os sock p (Inr (p\<lparr>main_at := Joining j',
      proc_of := (proc_of p)\<lparr>threads := l,
        actions := actions (proc_of p) @ (case j of Join_Wait a t \<Rightarrow> [Joined t] | _ \<Rightarrow> [])\<rparr>\<rparr>))"
| join_fault: "fate_of p = Waits \<Longrightarrow> main_at p = Joining j \<Longrightarrow> join_step j (threads (proc_of p)) = Inl e \<Longrightarrow>
    program_step cd ops os sock p (Inl e)"
| leave: "fate_of p = Waits \<Longrightarrow> main_at p = Joining Join_Done \<Longrightarrow> exit_server cd sock (proc_of p) = (Exits n, s) \<Longrightarrow>
    program_step cd ops os sock p (Inr (p\<lparr>proc_of := s, fate_of := Exited n\<rparr>))"
| client_moves: "fate_of p = Waits \<Longrightarrow> client_step cd ops (sys p) y \<Longrightarrow> alive y \<Longrightarrow>
    program_step cd ops os sock p (Inr (p\<lparr>sys := y\<rparr>))"
| client_ends_server: "fate_of p = Waits \<Longrightarrow> client_step cd ops (sys p) y \<Longrightarrow> \<not> alive y \<Longrightarrow>
    program_step cd ops os sock p (Inr (p\<lparr>sys := y, fate_of := end_of (history y)\<rparr>))"
| client_fault: "fate_of p = Waits \<Longrightarrow> phases (sys p) t = Some (Serving cl (chunk # chunks) buf) \<Longrightarrow>
    client_loop cd (ops t) t cl [chunk] buf (server (sys p)) = Some (Inl e) \<Longrightarrow>
    program_step cd ops os sock p (Inl e)"
| timer_turn: "fate_of p = Waits \<Longrightarrow> timer_thread (proc_of p) t \<Longrightarrow> removers p t = None \<Longrightarrow>
    timestamp_turn cd (ops t) t ts (server (sys p)) = Inr (Continues (), s) \<Longrightarrow>
    program_step cd ops os sock p (Inr (p\<lparr>sys := (sys p)\<lparr>server := s,
      history := history (sys p) @ [Stamp_Done t ts (Continues ())]\<rparr>\<rparr>))"
| timer_ends_server: "fate_of p = Waits \<Longrightarrow> timer_thread (proc_of p) t \<Longrightarrow> removers p t = None \<Longrightarrow>
    timestamp_turn cd (ops t) t ts (server (sys p)) = Inr (Exits n, s) \<Longrightarrow>
    program_step cd ops os sock p (Inr (p\<lparr>sys := (sys p)\<lparr>server := s,
      history := history (sys p) @ [Stamp_Done t ts (Exits n)], alive := False\<rparr>, fate_of := Exited n\<rparr>))"
| timer_fault: "fate_of p = Waits \<Longrightarrow> timer_thread (proc_of p) t \<Longrightarrow> removers p t = None \<Longrightarrow>
    timestamp_turn cd (ops t) t ts (server (sys p)) = Inl e \<Longrightarrow> e \<noteq> Would_Block \<Longrightarrow>
    program_step cd ops os sock p (Inl e)"
| client_removes: "fate_of p = Waits \<Longrightarrow> phases (sys p) t = Some Ended \<Longrightarrow>
    program_step cd ops os sock p (Inr (p\<lparr>removers := (removers p)(t \<mapsto> Rem_Start),
      sys := (sys p)\<lparr>phases := (phases (sys p))(t := None)\<rparr>\<rparr>))"
| timer_removes: "fate_of p = Waits \<Longrightarrow> timer_thread (proc_of p) t \<Longrightarrow> removers p t = None \<Longrightarrow> \<not> running (proc_of p) \<Longrightarrow>
    program_step cd ops os sock p (Inr (p\<lparr>removers := (removers p)(t \<mapsto> Rem_Start)\<rparr>))"
| remove: "fate_of p = Waits \<Longrightarrow> removers p t = Some r \<Longrightarrow> r \<noteq> Rem_Done \<Longrightarrow>
    remove_step t r (threads (proc_of p)) = Inr (r', l) \<Longrightarrow>
    program_step cd ops os sock p (Inr (p\<lparr>removers := (removers p)(t \<mapsto> r'),
      proc_of := (proc_of p)\<lparr>threads := l\<rparr>\<rparr>))"
| remove_fault: "fate_of p = Waits \<Longrightarrow> removers p t = Some r \<Longrightarrow> remove_step t r (threads (proc_of p)) = Inl e \<Longrightarrow>
    program_step cd ops os sock p (Inl e)"
| thread_ends: "fate_of p = Waits \<Longrightarrow> removers p t = Some Rem_Done \<Longrightarrow> live_threads (proc_of p) t = Some a \<Longrightarrow>
    args_heap (proc_of p) a \<noteq> None \<Longrightarrow>
    program_step cd ops os sock p (Inr (p\<lparr>removers := (removers p)(t := None),
      proc_of := (proc_of p)\<lparr>args_heap := (args_heap (proc_of p))(a := None),
        live_threads := (live_threads (proc_of p))(t := None)\<rparr>\<rparr>))"
| free_fault: "fate_of p = Waits \<Longrightarrow> removers p t = Some Rem_Done \<Longrightarrow> live_threads (proc_of p) t = Some a \<Longrightarrow>
    args_heap (proc_of p) a = None \<Longrightarrow> program_step cd ops os sock p (Inl Bad_Free)"




section \<open>Threads and their arguments\<close>












section \<open>The list\<close>










section \<open>Properties\<close>




section \<open>An example\<close>



















end
