(* ===== verification/Autotest.thy ===== *)
theory Autotest imports Main Aesd_Prelude begin

text \<open>
  \<^verbatim>\<open>examples/autotest-validate\<close>: three constants and the program that prints two of them, with the test of
  \<^verbatim>\<open>student-test\<close> that compares the third with \<^verbatim>\<open>conf/username.txt\<close>. What the test library reads from that
  file is an argument.
\<close>

definition this_function_returns_true :: bool where
  "this_function_returns_true \<longleftrightarrow> True"

definition this_function_returns_false :: bool where
  "this_function_returns_false \<longleftrightarrow> False"

definition my_username :: "byte list" where
  "my_username = ''MrScan''"

definition git_username :: "byte list" where
  "git_username = ''akshita-bhasin''"

text \<open>What \<open>main\<close> prints.\<close>

definition show_bool :: "bool \<Rightarrow> byte list" where
  "show_bool b = (if b then ''true'' else ''false'')"

definition autotest_main :: "byte list" where
  "autotest_main =
     ''this_function_returns_true returned '' @ show_bool this_function_returns_true @ [newline] @
     ''this_function_returns_false returned '' @ show_bool this_function_returns_false @ [newline]"

text \<open>Whether the assertion of the test holds for what was read.\<close>

definition test_validate_my_username :: "byte list \<Rightarrow> bool" where
  "test_validate_my_username conf_username \<longleftrightarrow> my_username = conf_username"

text \<open>The name in \<^verbatim>\<open>conf/username.txt\<close> passes; the name at the head of the program's own file does not.\<close>

lemma username_test: "test_validate_my_username ''MrScan'' \<and> \<not> test_validate_my_username git_username"
  by (simp add: test_validate_my_username_def my_username_def git_username_def)

end
