(* ===== verification/Spec2Isabelle.thy ===== *)
theory Spec2Isabelle imports Main Aesd_Prelude Circular_Buffer Kernel_Memory Aesd_Driver Driver_Log Driver_Read Driver_Write Driver_Seek Driver_Module Device_Runs Thread_List Thread_List_Steps Lock_Protocol Threading Systemcalls Writer Aesd_Socket Data_File Device_File Server_Device Seek_Request Server_Threads Server_Main Regular_File Timestamp_Thread Sequential_Server Server_Progress Sequential_Main Driver_Race Driver_Threads Driver_Tasks Server_Program Autotest begin

text \<open>
  A verification library for the C programs of this repository: a character device that keeps the
  last ten write commands, a socket server in front of it, the older server it grew from, and three
  small helpers.

  \<^bold>\<open>The parts and how they interact.\<close> A client connects to \<^verbatim>\<open>server/aesdsocket.c\<close> on port 9000 and
  sends a line in some number of chunks. A thread of the server, under \<open>file_mutex\<close>, writes the
  chunks to \<open>DATA_FILE\<close> and, after the newline, sends the whole file back. With
  \<open>USE_AESD_CHAR_DEVICE\<close> that file is \<^verbatim>\<open>/dev/aesdchar\<close>, so the system calls end in the handlers of
  \<^verbatim>\<open>aesd-char-driver/main.c\<close>, which keep the commands in the ring of
  \<^verbatim>\<open>aesd-char-driver/aesd-circular-buffer.c\<close>; otherwise it is a regular file, to which a timestamp is
  added every ten seconds. \<^verbatim>\<open>server/aesdsocket_old.c\<close> serves one client at a time on a regular file.

  \<^bold>\<open>From the ring upwards: which theory models what.\<close>

  \<^item> \<open>Aesd_Prelude\<close>: C types as words, faults as values (a null dereference, an access out of
    bounds or to a dead block, a bad free or unlock, a sleep on a taken mutex, an overflow of \<open>int\<close>, a
    conversion the C standard leaves undefined),
    lists, and descriptor tables.
  \<^item> \<open>Circular_Buffer\<close> (\<^verbatim>\<open>aesd-circular-buffer.c\<close>, \<^verbatim>\<open>.h\<close>): the ring as a record of ten slots with its
    two indices as bytes; finding, adding and initialising. A locale states what a bounded queue
    promises; the ring is an interpretation of it: it holds the last ten entries added.
  \<^item> \<open>Kernel_Memory\<close>: blocks at addresses, with \<open>kmalloc\<close>, \<open>krealloc\<close>, \<open>kfree\<close>, \<open>memcpy\<close> and the
    copies to and from user space. Which address the allocator answers is a parameter.
  \<^item> \<open>Aesd_Driver\<close> (\<^verbatim>\<open>main.c\<close>): the handlers, in the order of the source, on the device structure, the
    heap and the mutex. \<open>Driver_Log\<close> is what they promise: a log of commands, with the invariant of
    the driver's memory and the abstraction to the log. \<open>Driver_Read\<close>, \<open>Driver_Write\<close>,
    \<open>Driver_Seek\<close> refine it handler by handler, with every error branch; \<open>Driver_Module\<close> has the
    entry and exit of the module; \<open>Device_Runs\<close> puts the handlers into runs of any length from the
    loading of the module on. \<open>Driver_Threads\<close> takes the handlers apart at their mutex and lets tasks
    interleave there, interrupted calls included, \<open>Driver_Tasks\<close> says what this makes of the log, and
    \<open>Driver_Race\<close> has
    \<open>aesd_ioctl\<close>, which takes no mutex, slot by slot between the writes of others.
  \<^item> \<open>Aesd_Socket\<close> (\<^verbatim>\<open>aesdsocket.c\<close>): \<open>handle_client\<close> and a turn of the timestamp thread, over a record
    of system calls. \<open>Data_File\<close> states as three locales, each extending the one before, what these
    rely on of the file and proves once what a client then gets. \<open>Device_File\<close> puts the driver behind
    the system calls and interprets the strongest contract, \<open>Regular_File\<close> a file on a disk and
    interprets the second one. \<open>Server_Device\<close> has the requests of a client to server and driver
    together, \<open>Seek_Request\<close> the text of the seek command as numbers, \<open>Timestamp_Thread\<close> the loop of
    the timestamp thread on a disk and what clients then make of its lines.
  \<^item> \<open>Server_Threads\<close>: the interleavings of any number of clients and of the timestamp thread, as a
    step relation; \<open>Lock_Protocol\<close> is the locale for threads that pass through a mutex, which this,
    \<open>Driver_Threads\<close> and \<open>Threading\<close> interpret, and the one extending it, for the sections that are
    atomic under their mutex, which this and \<open>Driver_Threads\<close> interpret. \<open>Server_Progress\<close>: with a finite number of clients the
    steps come to an end, and every client has been served.
  \<^item> \<open>Thread_List\<close> (\<^verbatim>\<open>aesdsocket.c\<close>): the linked list of threads, its operations as a whole, and an
    overlap of two of them. \<open>Thread_List_Steps\<close>: the same operations access by access, and that the
    accesses of one thread that is left alone are the operation. \<open>Server_Main\<close>: \<open>main\<close> from its
    arguments to the exit status, with the signal handler, the daemon, the loop over \<open>accept\<close> and the
    shutdown; signals and ends of threads come while it waits, between \<open>pthread_create\<close> and
    \<open>add_thread\<close>, and behind \<open>add_thread\<close>. \<open>Server_Program\<close> puts \<open>main\<close> and the threads it starts into one
    step relation, with \<open>pthread_create\<close>, every access of \<open>add_thread\<close>, \<open>remove_thread\<close> and
    \<open>join_threads\<close> to the list, and the end of a thread as steps of their own.
  \<^item> \<open>Sequential_Server\<close> (\<^verbatim>\<open>aesdsocket_old.c\<close>): its client and its loop, and the comparison of the two
    servers. \<open>Sequential_Main\<close>: its \<open>main\<close>, from the arguments to the exit status, with signals that
    come in \<open>accept\<close> or in the \<open>recv\<close> of a client.
  \<^item> \<open>Threading\<close> (\<^verbatim>\<open>examples/threading/\<close>), \<open>Systemcalls\<close> (\<^verbatim>\<open>examples/systemcalls/\<close>), \<open>Writer\<close>
    (\<^verbatim>\<open>finder-app/writer.c\<close>): the thread with two waits around a mutex, the three ways to run a
    command, and the utility that writes one string to a file. \<open>Autotest\<close> (\<^verbatim>\<open>examples/autotest-validate/\<close>,
    \<^verbatim>\<open>student-test/\<close>): a few constants and the test of one.

  \<^bold>\<open>What is shown.\<close> The ring keeps the last ten entries in order, and the search by offset agrees with
  the search in their concatenation. Reads and writes of the driver refine the log; no run of system
  calls faults while no write is empty, no signal interrupts a mutex and \<open>krealloc\<close> moves no block;
  each of the three conditions is needed, and the fault is shown where it fails. Tasks that call the
  driver at the same time get what some order of their calls would give; a seek command gets that
  beside one write and not beside two. A client gets the log with its own line as the last command,
  and whatever it sends its request comes to an end; concurrent clients get what some order of them
  one after the other would give, and each of a finite number is served, all this as long as the
  descriptors that lines in several chunks lose and the space of the ring suffice and the driver's
  allocations succeed in place. The whole program, \<open>main\<close> with its threads, then has its only faults in
  accesses to the list, and none while no two operations on it overlap and \<open>main\<close> does not join. The two
  servers agree under the same conditions as long as the ring has room, and differ on a regular
  file, where the newer one overwrites. The numbers of a seek command survive the text when they fit
  \<open>unsigned int\<close>; when they do not, the conversion is undefined, and the model says so. \<open>main\<close> has every
  running thread on its list or in its hands; a thread that ends before it is put there leaves its
  entry. Beside these stand the theorems on what goes wrong: leaked blocks and descriptors, mutexes
  left locked, reads of freed memory, unlocks of a mutex not held, the ends of the whole server that
  one client can bring about, and exit statuses that hide a failure.

  \<^bold>\<open>Loops.\<close> Loops with a bound in the code are recursions that end (ten slots, the chunks of a
  client, the events of a run); there is no fuel. The loop that reads and sends the file, and the
  loops over the linked list, could run forever, so they are partial functions into an option, and
  that they return is part of the theorems. What the environment decides, the operating system's
  results, addresses of new blocks, the chunks and the takings of a client, the bytes of memory
  nobody has written, is an argument of the definitions; the hypotheses on it (\<open>alloc_ok\<close>,
  \<open>machine_ok\<close>, \<open>steady\<close>, \<open>os_ok\<close>, \<open>reliable\<close>) are satisfied by the examples.

  \<^bold>\<open>Not modelled.\<close> Messages (\<open>syslog\<close>, \<open>perror\<close>, \<open>PDEBUG\<close>) and the lookup of the peer's address that
  only feeds them; the text \<open>strftime\<close> makes; the contents of socket addresses; file modes and
  \<open>umask\<close>. In \<open>Driver_Threads\<close> what a handler does under the mutex is one step; in \<open>Server_Threads\<close> a
  chunk is one step, under \<open>file_mutex\<close>, and the system calls in it, which have the driver to
  themselves, are the handlers as a whole; in \<open>Server_Main\<close> no two operations on the list overlap, and
  in \<open>Server_Program\<close> a step makes at most one access to the list and the start of the process, before
  its loop, is one step; the fields of a new node are written in one step, since nobody can reach it
  yet. An identifier of a thread that has been joined is not given out again. The reading of \<^verbatim>\<open>conf/username.txt\<close> is in a submodule that is not there. The
  remaining lines of the C files are comments, includes, declarations and log messages; scripts and
  build files are not C.
\<close>

end
